(* ===== verification/Prelude.thy ===== *)
theory Prelude
  imports Main "HOL-Library.Word" "HOL-Library.Sublist"
begin

text \<open>
  Shared vocabulary of the development: Rust's unsigned integer types as words, byte
  strings in network byte order, the wrapping and saturating arithmetic of
  \<^verbatim>\<open>std\<close>, incoming byte streams with \<^verbatim>\<open>read_exact\<close>, and the two generic
  interfaces the components instantiate: self-delimiting wire formats (locale
  \<open>wire_format\<close>) and state machines with an inductive invariant (locale
  \<open>invariant_system\<close>).

  Release builds are modelled: plain \<open>+\<close> on unsigned integers wraps, and
  \<^verbatim>\<open>usize\<close> is 64 bits wide.
\<close>

unbundle bit_operations_syntax

section \<open>Machine integers and bytes\<close>

type_synonym u8 = "8 word"
type_synonym u16 = "16 word"
type_synonym u32 = "32 word"
type_synonym u64 = "64 word"
type_synonym u128 = "128 word"
type_synonym usize = "64 word"
type_synonym bytes = "u8 list"

named_theorems byte_simps \<open>evaluation of byte encodings\<close>
named_theorems step_defs \<open>the operations behind the step relations\<close>

definition saturating_sub :: "'a::len word \<Rightarrow> 'a word \<Rightarrow> 'a word" where
  "saturating_sub x y = (if y \<le> x then x - y else 0)"

definition saturating_mul :: "'a::len word \<Rightarrow> 'a word \<Rightarrow> 'a word" where
  "saturating_mul x y = (if unat x * unat y < 2 ^ LENGTH('a) then x * y else - 1)"

lemma unat_saturating_sub [simp]: "unat (saturating_sub x y) = unat x - unat y"
  by (auto simp: saturating_sub_def unat_sub word_le_nat_alt)

lemma unat_max_word: "unat (- 1 :: 'a::len word) = 2 ^ LENGTH('a) - 1"
  by (simp add: unat_eq_nat_uint uint_word_ariths zmod_minus1 nat_diff_distrib nat_power_eq)

lemma unat_saturating_mul:
  "unat (saturating_mul x y) = min (unat x * unat y) (2 ^ LENGTH('a) - 1)"
  for x y :: "'a::len word"
proof (cases "unat x * unat y < 2 ^ LENGTH('a)")
  case True
  then have "unat (x * y) = unat x * unat y"
    by (simp add: unat_word_ariths)
  with True show ?thesis by (simp add: saturating_mul_def)
next
  case False
  then show ?thesis by (simp add: saturating_mul_def unat_max_word)
qed

subsection \<open>Network byte order\<close>

text \<open>
  \<open>be_bytes k n\<close> is the big-endian representation of \<open>n mod 256 ^ k\<close> in \<open>k\<close>
  bytes and \<open>be_value\<close> reads one back: \<^verbatim>\<open>to_be_bytes\<close> and
  \<^verbatim>\<open>from_be_bytes\<close> of the integer types, and \<^verbatim>\<open>write_u16\<close>,
  \<^verbatim>\<open>read_u32\<close> and their kin of tokio.
\<close>

fun be_bytes :: "nat \<Rightarrow> nat \<Rightarrow> bytes" where
  "be_bytes 0 n = []"
| "be_bytes (Suc k) n = be_bytes k (n div 256) @ [word_of_nat n]"

definition be_value :: "bytes \<Rightarrow> nat" where
  "be_value bs = foldl (\<lambda>acc b. acc * 256 + unat b) 0 bs"

lemma length_be_bytes [simp]: "length (be_bytes k n) = k"
  by (induction k arbitrary: n) auto

lemma be_value_Nil [simp]: "be_value [] = 0"
  by (simp add: be_value_def)

lemma be_value_snoc [simp]: "be_value (bs @ [b]) = be_value bs * 256 + unat b"
  by (simp add: be_value_def)

lemma unat_byte_less [simp]: "unat (b :: u8) < 256"
proof -
  have "unat b < 2 ^ LENGTH(8)" by (rule unsigned_less)
  then show ?thesis by simp
qed

lemma be_value_less: "be_value bs < 256 ^ length bs"
proof (induction bs rule: rev_induct)
  case Nil
  then show ?case by simp
next
  case (snoc b bs)
  have b: "unat b < 256" by simp
  have "Suc (be_value bs) \<le> 256 ^ length bs" using snoc by simp
  then have "Suc (be_value bs) * 256 \<le> 256 ^ length bs * 256"
    by (rule mult_le_mono1)
  with b have "be_value bs * 256 + unat b < 256 ^ length bs * 256"
    by (simp only: mult_Suc)
  then show ?case by (simp add: mult.commute)
qed

lemma be_value_be_bytes: "be_value (be_bytes k n) = n mod 256 ^ k"
proof (induction k arbitrary: n)
  case 0
  then show ?case by simp
next
  case (Suc k)
  have "be_value (be_bytes (Suc k) n) = (n div 256) mod 256 ^ k * 256 + n mod 256"
    using Suc.IH [of "n div 256"] by (simp add: unat_of_nat)
  also have "\<dots> = n mod 256 ^ Suc k"
    by (simp add: mod_mult2_eq [of n 256 "256 ^ k"] mult.commute)
  finally show ?case .
qed

lemma be_bytes_be_value: "be_bytes (length bs) (be_value bs) = bs"
proof (induction bs rule: rev_induct)
  case Nil
  then show ?case by simp
next
  case (snoc b bs)
  have "(be_value bs * 256 + unat b) div 256 = be_value bs" by simp
  moreover have "(word_of_nat (be_value bs * 256 + unat b) :: u8) = b"
    by (simp add: word_unat_eq_iff unat_of_nat del: of_nat_add of_nat_mult)
  ultimately show ?case using snoc by simp
qed

definition to_be_bytes :: "'a::len word \<Rightarrow> bytes" where
  "to_be_bytes w = be_bytes (LENGTH('a) div 8) (unat w)"

definition from_be_bytes :: "bytes \<Rightarrow> 'a::len word" where
  "from_be_bytes bs = word_of_nat (be_value bs)"

lemma length_to_be_bytes [simp]: "length (to_be_bytes (w :: 'a::len word)) = LENGTH('a) div 8"
  by (simp add: to_be_bytes_def)

lemma from_be_bytes_to_be_bytes:
  assumes "8 dvd LENGTH('a::len)"
  shows "from_be_bytes (to_be_bytes (w :: 'a word)) = w"
proof -
  from assms obtain k where k: "LENGTH('a) = 8 * k" by (rule dvdE)
  have "(256 :: nat) ^ k = 2 ^ LENGTH('a)"
    using power_mult [of "2::nat" 8 k] k by simp
  then have "unat w < 256 ^ k" using unsigned_less [of w] by metis
  then show ?thesis
    using k by (simp add: from_be_bytes_def to_be_bytes_def be_value_be_bytes)
qed

lemmas be_roundtrip [simp] =
  from_be_bytes_to_be_bytes [where 'a = 16, simplified]
  from_be_bytes_to_be_bytes [where 'a = 32, simplified]
  from_be_bytes_to_be_bytes [where 'a = 64, simplified]
  from_be_bytes_to_be_bytes [where 'a = 128, simplified]

lemma to_be_bytes_from_be_bytes:
  assumes "8 dvd LENGTH('a::len)" and "length bs = LENGTH('a) div 8"
  shows "to_be_bytes (from_be_bytes bs :: 'a word) = bs"
proof -
  from assms(1) obtain k where k: "LENGTH('a) = 8 * k" by (rule dvdE)
  have "(256 :: nat) ^ k = 2 ^ LENGTH('a)"
    using power_mult [of "2::nat" 8 k] k by simp
  moreover have "be_value bs < 256 ^ k"
    using be_value_less [of bs] assms(2) k by simp
  ultimately have "unat (word_of_nat (be_value bs) :: 'a word) = be_value bs"
    by (simp add: unat_of_nat)
  then show ?thesis
    using assms(2) be_bytes_be_value [of bs] by (simp add: to_be_bytes_def from_be_bytes_def)
qed

lemmas be_roundtrip' [simp] =
  to_be_bytes_from_be_bytes [where 'a = 16, simplified]
  to_be_bytes_from_be_bytes [where 'a = 32, simplified]
  to_be_bytes_from_be_bytes [where 'a = 64, simplified]
  to_be_bytes_from_be_bytes [where 'a = 128, simplified]

lemma be_bytes_numeral:
  "be_bytes (numeral k) n = be_bytes (pred_numeral k) (n div 256) @ [word_of_nat n]"
  by (simp only: numeral_eq_Suc [of k] be_bytes.simps)

lemmas [byte_simps] = to_be_bytes_def from_be_bytes_def be_value_def be_bytes_numeral

section \<open>Incoming byte streams\<close>

text \<open>
  What a reader sees of a QUIC or TCP receive half: the bytes that will arrive and what
  comes after them, the end of the stream (or its failure) or silence.
  \<open>read_exact\<close> either takes its bytes, fails with an I/O error at the end, or stays
  pending for ever; under \<^verbatim>\<open>tokio::time::timeout\<close> the pending case is the
  elapsed timer.
\<close>

datatype stream_tail = Closed | Stalled

datatype read_error = UnexpectedEof | Pending

record instream =
  avail :: bytes
  tail_of :: stream_tail

definition tail_error :: "stream_tail \<Rightarrow> read_error" where
  "tail_error t = (case t of Closed \<Rightarrow> UnexpectedEof | Stalled \<Rightarrow> Pending)"

definition read_exact :: "nat \<Rightarrow> instream \<Rightarrow> read_error + bytes \<times> instream" where
  "read_exact n s =
     (if n \<le> length (avail s) then Inr (take n (avail s), s\<lparr>avail := drop n (avail s)\<rparr>)
      else Inl (tail_error (tail_of s)))"

lemma read_exact_append [simp]:
  "length xs = n \<Longrightarrow> read_exact n \<lparr>avail = xs @ rest, tail_of = t\<rparr> =
     Inr (xs, \<lparr>avail = rest, tail_of = t\<rparr>)"
  by (auto simp: read_exact_def)

lemma read_exact_short:
  "length (avail s) < n \<Longrightarrow> read_exact n s = Inl (tail_error (tail_of s))"
  by (simp add: read_exact_def)

lemma read_exact_InrD:
  "read_exact n s = Inr (xs, s') \<Longrightarrow>
     avail s = xs @ avail s' \<and> length xs = n \<and> tail_of s' = tail_of s"
  by (auto simp: read_exact_def split: if_splits)

section \<open>Fallible computations and outgoing byte streams\<close>

text \<open>
  The question mark operator of Rust on a result type: \<open>Inl\<close> is the error and returns
  early.
\<close>

fun try_then :: "'e + 'a \<Rightarrow> ('a \<Rightarrow> 'e + 'b) \<Rightarrow> 'e + 'b" where
  "try_then (Inl e) f = Inl e"
| "try_then (Inr x) f = f x"

fun map_err :: "('e \<Rightarrow> 'd) \<Rightarrow> 'e + 'a \<Rightarrow> 'd + 'a" where
  "map_err g (Inl e) = Inl (g e)"
| "map_err g (Inr x) = Inr x"

lemma try_then_InrE:
  assumes "try_then r f = Inr y"
  obtains x where "r = Inr x" and "f x = Inr y"
  using assms by (cases r) auto

text \<open>
  A write half: what the peer has received, how many more bytes it accepts before the
  write fails (\<open>None\<close>: it never fails), and whether the stream was finished.
  \<open>write_all\<close> of a failing writer leaves the prefix that still went out.
\<close>

record sink =
  written :: bytes
  budget :: "nat option"
  finished :: bool

definition open_sink :: sink where
  "open_sink = \<lparr>written = [], budget = None, finished = False\<rparr>"

definition write_all :: "bytes \<Rightarrow> sink \<Rightarrow> bool \<times> sink" where
  "write_all bs k =
     (case budget k of
        None \<Rightarrow> (True, k\<lparr>written := written k @ bs\<rparr>)
      | Some n \<Rightarrow>
          if length bs \<le> n
          then (True, k\<lparr>written := written k @ bs, budget := Some (n - length bs)\<rparr>)
          else (False, k\<lparr>written := written k @ take n bs, budget := Some 0\<rparr>))"

lemma write_all_reliable [simp]:
  "budget k = None \<Longrightarrow> write_all bs k = (True, k\<lparr>written := written k @ bs\<rparr>)"
  by (simp add: write_all_def)

lemma write_all_prefix:
  "write_all bs k = (ok, k') \<Longrightarrow>
     \<exists>sent. written k' = written k @ sent \<and> prefix sent bs \<and> (ok \<longrightarrow> sent = bs) \<and>
       finished k' = finished k"
  by (auto simp: write_all_def take_is_prefix split: option.splits if_splits)

section \<open>Self-delimiting wire formats\<close>

text \<open>
  The contract every framed part of the protocol gives its readers: a well-formed value
  is decoded from the front of the stream and the rest is left untouched. What follows
  once and for all: encodings are prefix-free, and a sequence of messages written back
  to back is read back in order.
\<close>

fun decode_n :: "(bytes \<Rightarrow> ('a \<times> bytes) option) \<Rightarrow> nat \<Rightarrow> bytes \<Rightarrow> ('a list \<times> bytes) option" where
  "decode_n dec 0 bs = Some ([], bs)"
| "decode_n dec (Suc n) bs =
     (case dec bs of
        None \<Rightarrow> None
      | Some (x, r) \<Rightarrow>
          (case decode_n dec n r of None \<Rightarrow> None | Some (xs, r') \<Rightarrow> Some (x # xs, r')))"

locale wire_format =
  fixes enc :: "'a \<Rightarrow> bytes"
    and dec :: "bytes \<Rightarrow> ('a \<times> bytes) option"
    and ok :: "'a \<Rightarrow> bool"
  assumes dec_enc: "ok x \<Longrightarrow> dec (enc x @ rest) = Some (x, rest)"
begin

lemma prefix_free:
  assumes "ok x" and "ok y" and "enc x @ r = enc y @ r'"
  shows "x = y \<and> r = r'"
proof -
  have "Some (x, r) = dec (enc x @ r)" by (simp only: dec_enc [OF assms(1)])
  also have "\<dots> = Some (y, r')" by (simp only: assms(3) dec_enc [OF assms(2)])
  finally show ?thesis by blast
qed

lemma enc_inj: "ok x \<Longrightarrow> ok y \<Longrightarrow> enc x = enc y \<Longrightarrow> x = y"
  by (metis prefix_free)

lemma decode_sequence:
  "list_all ok xs \<Longrightarrow> decode_n dec (length xs) (concat (map enc xs) @ rest) = Some (xs, rest)"
  by (induction xs) (simp_all add: dec_enc)

end

section \<open>State machines with an inductive invariant\<close>

inductive reachable :: "('s \<Rightarrow> bool) \<Rightarrow> ('s \<Rightarrow> 's \<Rightarrow> bool) \<Rightarrow> 's \<Rightarrow> bool"
  for init :: "'s \<Rightarrow> bool" and step :: "'s \<Rightarrow> 's \<Rightarrow> bool" where
  reach_init: "init s \<Longrightarrow> reachable init step s"
| reach_step: "reachable init step s \<Longrightarrow> step s t \<Longrightarrow> reachable init step t"

locale invariant_system =
  fixes init :: "'s \<Rightarrow> bool"
    and step :: "'s \<Rightarrow> 's \<Rightarrow> bool"
    and inv :: "'s \<Rightarrow> bool"
  assumes inv_init: "init s \<Longrightarrow> inv s"
    and inv_step: "inv s \<Longrightarrow> step s t \<Longrightarrow> inv t"
begin

lemma reachable_inv: "reachable init step s \<Longrightarrow> inv s"
  by (induction rule: reachable.induct) (auto intro: inv_init inv_step)

lemma reachable_from:
  assumes "inv s" and "step\<^sup>*\<^sup>* s t"
  shows "inv t"
  using assms(2,1) by (induction rule: rtranclp_induct) (auto intro: inv_step)

end

end
