(* ===== verification/Rust_Std.thy ===== *)
theory Rust_Std
  imports Prelude
begin

text \<open>
  The parts of Rust's standard library that the program's own logic runs on: strings as
  their UTF-8 bytes, \<^verbatim>\<open>str::split\<close>, \<^verbatim>\<open>trim\<close>, \<^verbatim>\<open>rfind\<close>,
  \<^verbatim>\<open>replace\<close>, the integer parsers, and \<^verbatim>\<open>core::net\<close>'s addresses with
  their parser.
  A Rust \<^verbatim>\<open>String\<close> is its byte sequence; a HOL \<^typ>\<open>string\<close> holds one byte
  per \<^typ>\<open>char\<close>, so the two coincide and \<open>as_bytes\<close> only changes the type.
\<close>

section \<open>Strings\<close>

definition as_bytes :: "string \<Rightarrow> bytes" where
  "as_bytes s = map of_char s"

definition of_bytes :: "bytes \<Rightarrow> string" where
  "of_bytes bs = map (\<lambda>b. char_of (unat b)) bs"

lemma length_as_bytes [simp]: "length (as_bytes s) = length s"
  by (simp add: as_bytes_def)

lemma length_of_bytes [simp]: "length (of_bytes bs) = length bs"
  by (simp add: of_bytes_def)

lemma unat_of_char: "unat (of_char c :: u8) = of_char c"
proof -
  have "(of_char c :: u8) = word_of_nat (of_char c)" by (simp only: of_nat_of_char)
  moreover have "(of_char c :: nat) mod 2 ^ LENGTH(8) = of_char c" by simp
  ultimately show ?thesis by (simp only: unat_of_nat)
qed

lemma of_bytes_as_bytes [simp]: "of_bytes (as_bytes s) = s"
  by (simp add: of_bytes_def as_bytes_def unat_of_char comp_def)

lemma char_of_unat_inverse: "of_char (char_of (unat (b :: u8))) = b"
proof -
  have "(of_char (char_of (unat b)) :: u8) = word_of_nat (of_char (char_of (unat b)))"
    by (simp only: of_nat_of_char)
  also have "(of_char (char_of (unat b)) :: nat) = unat b"
    by (simp add: of_char_of)
  finally show ?thesis by simp
qed

lemma as_bytes_of_bytes [simp]: "as_bytes (of_bytes bs) = bs"
  by (simp add: of_bytes_def as_bytes_def comp_def char_of_unat_inverse)

lemma as_bytes_eq_Nil [simp]: "as_bytes s = [] \<longleftrightarrow> s = []"
  by (simp add: as_bytes_def)

lemma as_bytes_inject [simp]: "as_bytes s = as_bytes t \<longleftrightarrow> s = t"
  by (metis of_bytes_as_bytes)

lemma as_bytes_append [simp]: "as_bytes (s @ t) = as_bytes s @ as_bytes t"
  by (simp add: as_bytes_def)

subsection \<open>UTF-8 validity\<close>

definition utf8_cont :: "u8 \<Rightarrow> bool" where
  "utf8_cont b \<longleftrightarrow> 0x80 \<le> b \<and> b \<le> 0xBF"

definition utf8_second3 :: "u8 \<Rightarrow> u8 \<Rightarrow> bool" where
  "utf8_second3 a b \<longleftrightarrow>
     (if a = 0xE0 then 0xA0 \<le> b \<and> b \<le> 0xBF
      else if a = 0xED then 0x80 \<le> b \<and> b \<le> 0x9F else utf8_cont b)"

definition utf8_second4 :: "u8 \<Rightarrow> u8 \<Rightarrow> bool" where
  "utf8_second4 a b \<longleftrightarrow>
     (if a = 0xF0 then 0x90 \<le> b \<and> b \<le> 0xBF
      else if a = 0xF4 then 0x80 \<le> b \<and> b \<le> 0x8F else utf8_cont b)"

fun utf8_valid :: "bytes \<Rightarrow> bool" where
  "utf8_valid [] = True"
| "utf8_valid (a # r) =
     (if a < 0x80 then utf8_valid r
      else (case r of
        [] \<Rightarrow> False
      | b # r2 \<Rightarrow>
          if 0xC2 \<le> a \<and> a \<le> 0xDF then utf8_cont b \<and> utf8_valid r2
          else (case r2 of
            [] \<Rightarrow> False
          | c # r3 \<Rightarrow>
              if 0xE0 \<le> a \<and> a \<le> 0xEF
              then utf8_second3 a b \<and> utf8_cont c \<and> utf8_valid r3
              else (case r3 of
                [] \<Rightarrow> False
              | d # r4 \<Rightarrow>
                  0xF0 \<le> a \<and> a \<le> 0xF4 \<and> utf8_second4 a b \<and> utf8_cont c \<and>
                  utf8_cont d \<and> utf8_valid r4))))"

text \<open>\<^verbatim>\<open>std::str::from_utf8\<close>.\<close>

definition from_utf8 :: "bytes \<Rightarrow> string option" where
  "from_utf8 bs = (if utf8_valid bs then Some (of_bytes bs) else None)"

text \<open>The invariant of the type \<^verbatim>\<open>String\<close>.\<close>

definition valid_string :: "string \<Rightarrow> bool" where
  "valid_string s \<longleftrightarrow> utf8_valid (as_bytes s)"

lemma from_utf8_as_bytes [simp]: "valid_string s \<Longrightarrow> from_utf8 (as_bytes s) = Some s"
  by (simp add: valid_string_def from_utf8_def)

lemma from_utf8_SomeD: "from_utf8 bs = Some s \<Longrightarrow> bs = as_bytes s \<and> valid_string s"
  by (auto simp: from_utf8_def valid_string_def split: if_splits)

subsection \<open>Splitting, trimming, searching\<close>

fun split_on :: "char \<Rightarrow> string \<Rightarrow> string list" where
  "split_on c [] = [[]]"
| "split_on c (x # xs) =
     (if x = c then [] # split_on c xs
      else (case split_on c xs of [] \<Rightarrow> [[x]] | p # ps \<Rightarrow> (x # p) # ps))"

lemma split_on_nonempty [simp]: "split_on c s \<noteq> []"
  by (induction s) (auto split: list.split)

lemma length_split_on: "length (split_on c s) = Suc (count_list s c)"
proof (induction s)
  case Nil
  then show ?case by simp
next
  case (Cons x s)
  then show ?case by (cases "split_on c s") auto
qed

lemma split_on_no_sep: "c \<notin> set s \<Longrightarrow> split_on c s = [s]"
  by (induction s) auto

lemma split_on_append:
  "c \<notin> set s \<Longrightarrow> split_on c (s @ c # t) = s # split_on c t"
  by (induction s) auto

lemma split_on_pieces: "p \<in> set (split_on c s) \<Longrightarrow> c \<notin> set p"
proof (induction s arbitrary: p)
  case Nil
  then show ?case by simp
next
  case (Cons x s)
  then show ?case by (cases "split_on c s") (auto split: if_splits)
qed

text \<open>
  The UTF-8 encodings of the characters with the Unicode property
  \<^verbatim>\<open>White_Space\<close>, which \<^verbatim>\<open>trim\<close> removes from both ends.
\<close>

definition white_space :: "string list" where
  "white_space =
     [[CHR 0x20], [CHR 0x09], [CHR 0x0A], [CHR 0x0B], [CHR 0x0C], [CHR 0x0D],
      [CHR 0xC2, CHR 0x85], [CHR 0xC2, CHR 0xA0], [CHR 0xE1, CHR 0x9A, CHR 0x80]] @
     map (\<lambda>b. [CHR 0xE2, CHR 0x80, b])
       [CHR 0x80, CHR 0x81, CHR 0x82, CHR 0x83, CHR 0x84, CHR 0x85, CHR 0x86, CHR 0x87,
        CHR 0x88, CHR 0x89, CHR 0x8A, CHR 0xA8, CHR 0xA9, CHR 0xAF] @
     [[CHR 0xE2, CHR 0x81, CHR 0x9F], [CHR 0xE3, CHR 0x80, CHR 0x80]]"

definition strip_one :: "string list \<Rightarrow> string \<Rightarrow> string option" where
  "strip_one ws s =
     (case find (\<lambda>w. w \<noteq> [] \<and> take (length w) s = w) ws of
        None \<Rightarrow> None
      | Some w \<Rightarrow> Some (drop (length w) s))"

lemma strip_one_shorter: "strip_one ws s = Some t \<Longrightarrow> length t < length s"
proof -
  assume "strip_one ws s = Some t"
  then obtain w where "w \<noteq> []" and "take (length w) s = w" and "t = drop (length w) s"
    by (auto simp: strip_one_def find_Some_iff split: option.splits)
  then show ?thesis by (cases s) auto
qed

function strip_all :: "string list \<Rightarrow> string \<Rightarrow> string" where
  "strip_all ws s = (case strip_one ws s of None \<Rightarrow> s | Some t \<Rightarrow> strip_all ws t)"
  by pat_completeness auto
termination
  by (relation "measure (\<lambda>(ws, s). length s)") (auto dest: strip_one_shorter)

declare strip_all.simps [simp del]

definition trim :: "string \<Rightarrow> string" where
  "trim s = rev (strip_all (map rev white_space) (rev (strip_all white_space s)))"

lemma strip_all_fixed: "strip_one ws (strip_all ws s) = None"
proof (induction ws s rule: strip_all.induct)
  case (1 ws s)
  then show ?case by (cases "strip_one ws s") (auto simp: strip_all.simps [of ws s])
qed

lemma strip_all_stop: "strip_one ws s = None \<Longrightarrow> strip_all ws s = s"
  by (simp add: strip_all.simps)

lemma suffix_strip_all: "suffix (strip_all ws s) s"
proof (induction ws s rule: strip_all.induct)
  case (1 ws s)
  show ?case
  proof (cases "strip_one ws s")
    case None
    then show ?thesis by (simp add: strip_all.simps [of ws s])
  next
    case (Some t)
    then have "suffix (strip_all ws t) t" by (rule 1)
    moreover have "suffix t s"
      using Some by (auto simp: strip_one_def suffix_drop split: option.splits)
    ultimately have "suffix (strip_all ws t) s" by (rule suffix_order.trans)
    then show ?thesis using Some by (simp add: strip_all.simps [of ws s])
  qed
qed

text \<open>\<^verbatim>\<open>str::rfind(char)\<close> as the text before and after the last occurrence.\<close>

fun rsplit_once :: "char \<Rightarrow> string \<Rightarrow> (string \<times> string) option" where
  "rsplit_once c [] = None"
| "rsplit_once c (x # xs) =
     (case rsplit_once c xs of
        Some (a, b) \<Rightarrow> Some (x # a, b)
      | None \<Rightarrow> if x = c then Some ([], xs) else None)"

lemma rsplit_once_None: "rsplit_once c s = None \<longleftrightarrow> c \<notin> set s"
  by (induction s) (auto split: option.splits)

lemma rsplit_once_Some: "rsplit_once c s = Some (a, b) \<Longrightarrow> s = a @ c # b \<and> c \<notin> set b"
  by (induction s arbitrary: a) (auto split: option.splits if_splits simp: rsplit_once_None)

lemma rsplit_once_append: "c \<notin> set b \<Longrightarrow> rsplit_once c (a @ c # b) = Some (a, b)"
proof (induction a)
  case Nil
  then have "rsplit_once c b = None" by (simp add: rsplit_once_None)
  then show ?case by simp
qed simp

text \<open>\<^verbatim>\<open>str::replace\<close>: every non-overlapping occurrence, from the left.\<close>

function replace :: "string \<Rightarrow> string \<Rightarrow> string \<Rightarrow> string" where
  "replace pat new s =
     (if pat = [] \<or> s = [] then s
      else if take (length pat) s = pat then new @ replace pat new (drop (length pat) s)
      else hd s # replace pat new (tl s))"
  by pat_completeness auto
termination
  by (relation "measure (\<lambda>(pat, new, s). length s)") auto

declare replace.simps [simp del]

section \<open>Integers from text\<close>

definition to_digit :: "nat \<Rightarrow> char \<Rightarrow> nat option" where
  "to_digit radix c =
     (let n = of_char c :: nat;
          d = (if 48 \<le> n \<and> n \<le> 57 then n - 48
               else if 97 \<le> n \<and> n \<le> 122 then n - 87
               else if 65 \<le> n \<and> n \<le> 90 then n - 55 else radix)
      in if d < radix then Some d else None)"

definition digits_value :: "nat \<Rightarrow> string \<Rightarrow> nat" where
  "digits_value radix ds = foldl (\<lambda>acc c. acc * radix + the (to_digit radix c)) 0 ds"

text \<open>
  \<^verbatim>\<open>str::parse\<close> of an unsigned integer type: an optional plus sign, at least one
  digit, nothing else, and no overflow of the type's largest value.
\<close>

definition parse_uint :: "nat \<Rightarrow> string \<Rightarrow> nat option" where
  "parse_uint largest s =
     (let ds = (if s \<noteq> [] \<and> hd s = CHR ''+'' then tl s else s)
      in if ds \<noteq> [] \<and> list_all (\<lambda>c. to_digit 10 c \<noteq> None) ds \<and> digits_value 10 ds \<le> largest
         then Some (digits_value 10 ds) else None)"

definition parse_u16 :: "string \<Rightarrow> u16 option" where
  "parse_u16 s = map_option word_of_nat (parse_uint 65535 s)"

definition parse_usize :: "string \<Rightarrow> usize option" where
  "parse_usize s = map_option word_of_nat (parse_uint (2 ^ 64 - 1) s)"

lemma parse_uint_le: "parse_uint m s = Some n \<Longrightarrow> n \<le> m"
  by (auto simp: parse_uint_def Let_def split: if_splits)

section \<open>Network addresses\<close>

text \<open>
  \<^verbatim>\<open>IpAddr\<close> and \<^verbatim>\<open>SocketAddr\<close>. An IPv6 socket address also carries the flow
  label and the scope id.
\<close>

datatype ip_addr = IpV4 u32 | IpV6 u128

datatype socket_addr = V4 u32 u16 | V6 u128 u16 u32 u32

fun sa_ip :: "socket_addr \<Rightarrow> ip_addr" where
  "sa_ip (V4 a _) = IpV4 a"
| "sa_ip (V6 a _ _ _) = IpV6 a"

fun sa_port :: "socket_addr \<Rightarrow> u16" where
  "sa_port (V4 _ p) = p"
| "sa_port (V6 _ p _ _) = p"

fun set_port :: "u16 \<Rightarrow> socket_addr \<Rightarrow> socket_addr" where
  "set_port p (V4 a _) = V4 a p"
| "set_port p (V6 a _ f s) = V6 a p f s"

fun socket_addr_new :: "ip_addr \<Rightarrow> u16 \<Rightarrow> socket_addr" where
  "socket_addr_new (IpV4 a) p = V4 a p"
| "socket_addr_new (IpV6 a) p = V6 a p 0 0"

fun is_ipv6 :: "socket_addr \<Rightarrow> bool" where
  "is_ipv6 (V4 _ _) = False"
| "is_ipv6 (V6 _ _ _ _) = True"

abbreviation is_ipv4 :: "socket_addr \<Rightarrow> bool" where
  "is_ipv4 a \<equiv> \<not> is_ipv6 a"

fun is_unspecified :: "ip_addr \<Rightarrow> bool" where
  "is_unspecified (IpV4 a) \<longleftrightarrow> a = 0"
| "is_unspecified (IpV6 a) \<longleftrightarrow> a = 0"

fun is_loopback :: "ip_addr \<Rightarrow> bool" where
  "is_loopback (IpV4 a) \<longleftrightarrow> drop_bit 24 a = 127"
| "is_loopback (IpV6 a) \<longleftrightarrow> a = 1"

definition localhost_v4 :: u32 where
  "localhost_v4 = 0x7F000001"

lemma is_loopback_localhost [simp]: "is_loopback (IpV4 localhost_v4)"
  by (simp add: localhost_v4_def)

lemma sa_port_set_port [simp]: "sa_port (set_port p a) = p"
  by (cases a) auto

subsection \<open>The address parser of core::net\<close>

type_synonym 'a parser = "string \<Rightarrow> ('a \<times> string) option"

definition read_given_char :: "char \<Rightarrow> unit parser" where
  "read_given_char c s = (case s of [] \<Rightarrow> None | x # xs \<Rightarrow> if x = c then Some ((), xs) else None)"

definition read_number :: "nat \<Rightarrow> nat option \<Rightarrow> bool \<Rightarrow> nat \<Rightarrow> nat parser" where
  "read_number radix max_digits allow_zero_prefix largest s =
     (let ds = takeWhile (\<lambda>c. to_digit radix c \<noteq> None) s;
          rest = dropWhile (\<lambda>c. to_digit radix c \<noteq> None) s
      in if ds = [] \<or> (case max_digits of None \<Rightarrow> False | Some m \<Rightarrow> m < length ds)
            \<or> (\<not> allow_zero_prefix \<and> hd ds = CHR ''0'' \<and> 1 < length ds)
            \<or> largest < digits_value radix ds
         then None else Some (digits_value radix ds, rest))"

definition read_separator :: "char \<Rightarrow> bool \<Rightarrow> 'a parser \<Rightarrow> 'a parser" where
  "read_separator c first p s =
     (if first then p s
      else (case read_given_char c s of None \<Rightarrow> None | Some (_, r) \<Rightarrow> p r))"

fun read_octets :: "nat \<Rightarrow> bool \<Rightarrow> nat \<Rightarrow> nat parser" where
  "read_octets 0 first acc s = Some (acc, s)"
| "read_octets (Suc k) first acc s =
     (case read_separator CHR ''.'' first (read_number 10 (Some 3) False 255) s of
        None \<Rightarrow> None
      | Some (n, r) \<Rightarrow> read_octets k False (acc * 256 + n) r)"

definition read_ipv4_addr :: "u32 parser" where
  "read_ipv4_addr s =
     (case read_octets 4 True 0 s of None \<Rightarrow> None | Some (n, r) \<Rightarrow> Some (word_of_nat n, r))"

fun read_groups :: "nat \<Rightarrow> bool \<Rightarrow> string \<Rightarrow> nat list \<times> bool \<times> string" where
  "read_groups 0 first s = ([], False, s)"
| "read_groups (Suc k) first s =
     (case (if 0 < k then read_separator CHR '':'' first read_ipv4_addr s else None) of
        Some (ip, r) \<Rightarrow> ([unat ip div 65536, unat ip mod 65536], True, r)
      | None \<Rightarrow>
          (case read_separator CHR '':'' first (read_number 16 (Some 4) True 65535) s of
             None \<Rightarrow> ([], False, s)
           | Some (g, r) \<Rightarrow>
               (case read_groups k False r of (gs, v4, r') \<Rightarrow> (g # gs, v4, r'))))"

definition groups_value :: "nat list \<Rightarrow> u128" where
  "groups_value gs = word_of_nat (foldl (\<lambda>acc g. acc * 65536 + g) 0 gs)"

definition read_ipv6_addr :: "u128 parser" where
  "read_ipv6_addr s =
     (case read_groups 8 True s of
        (head, head_v4, r) \<Rightarrow>
          if length head = 8 then Some (groups_value head, r)
          else if head_v4 then None
          else (case read_given_char CHR '':'' r of
                  None \<Rightarrow> None
                | Some (_, r1) \<Rightarrow>
                    (case read_given_char CHR '':'' r1 of
                       None \<Rightarrow> None
                     | Some (_, r2) \<Rightarrow>
                         (case read_groups (8 - (length head + 1)) True r2 of
                            (tail, _, r3) \<Rightarrow>
                              Some (groups_value
                                (head @ replicate (8 - length head - length tail) 0 @ tail), r3)))))"

definition read_port :: "u16 parser" where
  "read_port s =
     (case read_given_char CHR '':'' s of
        None \<Rightarrow> None
      | Some (_, r) \<Rightarrow>
          (case read_number 10 None True 65535 r of
             None \<Rightarrow> None
           | Some (n, r') \<Rightarrow> Some (word_of_nat n, r')))"

definition read_scope_id :: "u32 parser" where
  "read_scope_id s =
     (case read_given_char CHR ''%'' s of
        None \<Rightarrow> None
      | Some (_, r) \<Rightarrow>
          (case read_number 10 None True (2 ^ 32 - 1) r of
             None \<Rightarrow> None
           | Some (n, r') \<Rightarrow> Some (word_of_nat n, r')))"

definition read_socket_addr_v4 :: "socket_addr parser" where
  "read_socket_addr_v4 s =
     (case read_ipv4_addr s of
        None \<Rightarrow> None
      | Some (ip, r) \<Rightarrow>
          (case read_port r of None \<Rightarrow> None | Some (p, r') \<Rightarrow> Some (V4 ip p, r')))"

definition read_socket_addr_v6 :: "socket_addr parser" where
  "read_socket_addr_v6 s =
     (case read_given_char CHR ''['' s of
        None \<Rightarrow> None
      | Some (_, r) \<Rightarrow>
          (case read_ipv6_addr r of
             None \<Rightarrow> None
           | Some (ip, r1) \<Rightarrow>
               (case (case read_scope_id r1 of None \<Rightarrow> (0, r1) | Some x \<Rightarrow> x) of
                  (scope, r2) \<Rightarrow>
                    (case read_given_char CHR '']'' r2 of
                       None \<Rightarrow> None
                     | Some (_, r3) \<Rightarrow>
                         (case read_port r3 of
                            None \<Rightarrow> None
                          | Some (p, r4) \<Rightarrow> Some (V6 ip p 0 scope, r4))))))"

definition parse_with :: "'a parser \<Rightarrow> string \<Rightarrow> 'a option" where
  "parse_with p s = (case p s of Some (x, []) \<Rightarrow> Some x | _ \<Rightarrow> None)"

text \<open>\<^verbatim>\<open>str::parse::<SocketAddr>()\<close> and \<^verbatim>\<open>str::parse::<IpAddr>()\<close>.\<close>

definition parse_socket_addr :: "string \<Rightarrow> socket_addr option" where
  "parse_socket_addr =
     parse_with (\<lambda>s. case read_socket_addr_v4 s of Some x \<Rightarrow> Some x | None \<Rightarrow> read_socket_addr_v6 s)"

definition parse_ip_addr :: "string \<Rightarrow> ip_addr option" where
  "parse_ip_addr =
     parse_with (\<lambda>s. case read_ipv4_addr s of
        Some (a, r) \<Rightarrow> Some (IpV4 a, r)
      | None \<Rightarrow> (case read_ipv6_addr s of Some (a, r) \<Rightarrow> Some (IpV6 a, r) | None \<Rightarrow> None))"

subsection \<open>Printing addresses\<close>

definition digit_char :: "nat \<Rightarrow> char" where
  "digit_char d = char_of (if d < 10 then 48 + d else 87 + d)"

function show_digits :: "nat \<Rightarrow> nat \<Rightarrow> string" where
  "show_digits radix n =
     (if radix < 2 \<or> n < radix then [digit_char n]
      else show_digits radix (n div radix) @ [digit_char (n mod radix)])"
  by pat_completeness auto
termination
  by (relation "measure snd") (auto simp: div_less_dividend)

declare show_digits.simps [simp del]

definition display_ipv4 :: "u32 \<Rightarrow> string" where
  "display_ipv4 a =
     show_digits 10 (unat (drop_bit 24 a)) @ ''.'' @
     show_digits 10 (unat (drop_bit 16 a) mod 256) @ ''.'' @
     show_digits 10 (unat (drop_bit 8 a) mod 256) @ ''.'' @
     show_digits 10 (unat a mod 256)"

definition ipv6_segments :: "u128 \<Rightarrow> nat list" where
  "ipv6_segments a = map (\<lambda>i. unat (drop_bit (112 - 16 * i) a) mod 65536) [0..<8]"

text \<open>
  The longest run of zero segments, the first of them on a tie, as start and length:
  the run that \<^verbatim>\<open>Ipv6Addr\<close> prints as two colons when it is longer than one.
\<close>

fun zero_runs :: "nat \<Rightarrow> nat \<times> nat \<Rightarrow> nat \<times> nat \<Rightarrow> nat list \<Rightarrow> nat \<times> nat" where
  "zero_runs i current best [] = best"
| "zero_runs i current best (g # gs) =
     (if g = 0 then
        (let c = (if snd current = 0 then (i, 1) else (fst current, snd current + 1))
         in zero_runs (Suc i) c (if snd best < snd c then c else best) gs)
      else zero_runs (Suc i) (0, 0) best gs)"

fun display_segments :: "nat list \<Rightarrow> string" where
  "display_segments [] = []"
| "display_segments [g] = show_digits 16 g"
| "display_segments (g # h # gs) = show_digits 16 g @ '':'' @ display_segments (h # gs)"

definition display_ipv6 :: "u128 \<Rightarrow> string" where
  "display_ipv6 a =
     (let gs = ipv6_segments a in
      if take 6 gs = [0, 0, 0, 0, 0, 0xFFFF]
      then ''::ffff:'' @ display_ipv4 (word_of_nat (gs ! 6 * 65536 + gs ! 7))
      else (case zero_runs 0 (0, 0) (0, 0) gs of
              (start, len) \<Rightarrow>
                if 1 < len
                then display_segments (take start gs) @ ''::'' @ display_segments (drop (start + len) gs)
                else display_segments gs))"

fun display_socket_addr :: "socket_addr \<Rightarrow> string" where
  "display_socket_addr (V4 a p) = display_ipv4 a @ '':'' @ show_digits 10 (unat p)"
| "display_socket_addr (V6 a p _ scope) =
     ''['' @ display_ipv6 a @ (if scope = 0 then [] else ''%'' @ show_digits 10 (unat scope)) @
     '']:'' @ show_digits 10 (unat p)"

lemmas addr_parser_defs =
  parse_socket_addr_def parse_ip_addr_def parse_with_def read_socket_addr_v4_def
  read_socket_addr_v6_def read_port_def read_scope_id_def read_ipv4_addr_def
  read_ipv6_addr_def read_separator_def read_number_def read_given_char_def
  digits_value_def to_digit_def groups_value_def

end
