(* ===== verification/Net_Types.thy ===== *)
theory Net_Types
  imports Rust_Std
begin

text \<open>
  The data types of \<^verbatim>\<open>src/src/lib.rs\<close> that the components exchange: tunnel
  modes and upstreams, tunnel configurations, the destination a tunnel stream carries,
  and the constants of the wire and buffer sizes.
\<close>

definition UDP_PACKET_SIZE :: nat where
  "UDP_PACKET_SIZE = 1500"

definition STREAM_IO_BUFFER_SIZE :: nat where
  "STREAM_IO_BUFFER_SIZE = 16384"

datatype tunnel_mode = TIn | TOut

datatype upstream_type = Tcp | Udp

record upstream =
  upstream_addr :: "socket_addr option"
  upstream_kind :: upstream_type

record tunnel_config =
  tc_mode :: tunnel_mode
  local_server_addr :: "socket_addr option"
  tc_upstream :: upstream

datatype tunnel = NetworkBased tunnel_config | ChannelBased upstream_type

text \<open>\<^verbatim>\<open>TunnelTarget\<close>: the destination of one tunnelled stream.\<close>

datatype tunnel_target = Addr socket_addr | Domain string u16

fun tt_port :: "tunnel_target \<Rightarrow> u16" where
  "tt_port (Addr a) = sa_port a"
| "tt_port (Domain _ p) = p"

fun as_socketaddr :: "tunnel_target \<Rightarrow> socket_addr option" where
  "as_socketaddr (Addr a) = Some a"
| "as_socketaddr (Domain _ _) = None"

text \<open>
  \<^verbatim>\<open>socket_addr_with_unspecified_ip_port\<close>: the wildcard address of the requested family
  with port zero.
\<close>

fun socket_addr_with_unspecified_ip_port :: "bool \<Rightarrow> socket_addr" where
  "socket_addr_with_unspecified_ip_port True = V6 0 0 0 0"
| "socket_addr_with_unspecified_ip_port False = V4 0 0"

end
