(* ===== verification/Tunnel_Message.thy ===== *)
theory Tunnel_Message
  imports Net_Types
begin

text \<open>
  \<^verbatim>\<open>src/src/tunnel_message.rs\<close>: the control messages of the login stream with
  their length-prefixed framing (\<open>send_to\<close>, \<open>recv_from\<close>) and the raw framing of
  UDP datagrams (\<open>send_raw_to\<close>, \<open>recv_raw_from\<close>).
  The serialisation itself is the \<^verbatim>\<open>bincode\<close> crate: it is the argument \<open>b\<close>
  of the definitions, and \<open>bincode_laws\<close> is what the code relies on.
\<close>

definition MAX_TUNNEL_MESSAGE_SIZE :: nat where
  "MAX_TUNNEL_MESSAGE_SIZE = 64 * 1024"

record server_capabilities =
  ipv6_supported :: bool

record login_info =
  li_password :: string
  li_tunnel :: tunnel
  li_tcp_timeout_ms :: u64
  li_udp_timeout_ms :: u64

datatype tunnel_message =
    ReqLogin login_info
  | ReqHeartbeat u64
  | RespHeartbeat u64
  | RespFailure string
  | RespSuccess server_capabilities

text \<open>
  \<^verbatim>\<open>bincode::serde::encode_to_vec\<close> and \<^verbatim>\<open>decode_from_slice\<close> with the
  standard configuration: both may fail, and decoding also returns how many bytes it used.
  Documented: decoding inverts encoding.
\<close>

record bincode =
  encode_to_vec :: "tunnel_message \<Rightarrow> bytes option"
  decode_from_slice :: "bytes \<Rightarrow> (tunnel_message \<times> nat) option"

definition bincode_laws :: "bincode \<Rightarrow> bool" where
  "bincode_laws b \<longleftrightarrow>
     (\<forall>m bs. encode_to_vec b m = Some bs \<longrightarrow> decode_from_slice b bs = Some (m, length bs))"

section \<open>Control messages\<close>

datatype recv_error =
    ReadFailed read_error
  | MessageTooLarge nat
  | DeserializeFailed

definition recv_from :: "bincode \<Rightarrow> instream \<Rightarrow> recv_error + tunnel_message \<times> instream" where
  "recv_from b reader =
     try_then (map_err ReadFailed (read_exact 4 reader)) (\<lambda>(hd_bytes, reader1).
       let msg_len = unat (from_be_bytes hd_bytes :: u32)
       in if MAX_TUNNEL_MESSAGE_SIZE < msg_len then Inl (MessageTooLarge msg_len)
          else try_then (map_err ReadFailed (read_exact msg_len reader1)) (\<lambda>(msg, reader2).
            case decode_from_slice b msg of
              None \<Rightarrow> Inl DeserializeFailed
            | Some (tun_msg, _) \<Rightarrow> Inr (tun_msg, reader2)))"

datatype send_error = SerializeFailed | WriteFailed

definition send_to :: "bincode \<Rightarrow> sink \<Rightarrow> tunnel_message \<Rightarrow> (send_error + unit) \<times> sink" where
  "send_to b writer m =
     (case encode_to_vec b m of
        None \<Rightarrow> (Inl SerializeFailed, writer)
      | Some msg \<Rightarrow>
          (case write_all (to_be_bytes (word_of_nat (length msg) :: u32)) writer of
             (False, k) \<Rightarrow> (Inl WriteFailed, k)
           | (True, k) \<Rightarrow>
               (case write_all msg k of
                  (False, k') \<Rightarrow> (Inl WriteFailed, k')
                | (True, k') \<Rightarrow> (Inr (), k'))))"

text \<open>\<^verbatim>\<open>send_failure\<close>: the failure message; the flush and the pause that follow change no state.\<close>

definition send_failure :: "bincode \<Rightarrow> sink \<Rightarrow> string \<Rightarrow> (send_error + unit) \<times> sink" where
  "send_failure b quic_send msg = send_to b quic_send (RespFailure msg)"

section \<open>Raw datagrams\<close>

text \<open>
  \<^verbatim>\<open>recv_raw_from\<close> fills the front of the caller's buffer and returns the length.
\<close>

definition recv_raw_from :: "instream \<Rightarrow> bytes \<Rightarrow> recv_error + u16 \<times> bytes \<times> instream" where
  "recv_raw_from reader data =
     try_then (map_err ReadFailed (read_exact 2 reader)) (\<lambda>(hd_bytes, reader1).
       let msg_len = unat (from_be_bytes hd_bytes :: u16)
       in if length data < msg_len then Inl (MessageTooLarge msg_len)
          else try_then (map_err ReadFailed (read_exact msg_len reader1)) (\<lambda>(msg, reader2).
            Inr (word_of_nat msg_len, msg @ drop msg_len data, reader2)))"

definition send_raw_to :: "sink \<Rightarrow> bytes \<Rightarrow> bool \<times> sink" where
  "send_raw_to writer data =
     (case write_all (to_be_bytes (word_of_nat (length data) :: u16)) writer of
        (False, k) \<Rightarrow> (False, k)
      | (True, k) \<Rightarrow> write_all data k)"

section \<open>The control framing\<close>

definition message_frame :: "bytes \<Rightarrow> bytes" where
  "message_frame msg = to_be_bytes (word_of_nat (length msg) :: u32) @ msg"

lemma send_to_frame:
  "encode_to_vec b m = Some msg \<Longrightarrow> budget k = None \<Longrightarrow>
     send_to b k m = (Inr (), k\<lparr>written := written k @ message_frame msg\<rparr>)"
  by (simp add: send_to_def message_frame_def)

lemma recv_from_frame:
  assumes "length msg \<le> MAX_TUNNEL_MESSAGE_SIZE"
  shows "recv_from b \<lparr>avail = message_frame msg @ rest, tail_of = t\<rparr> =
    (case decode_from_slice b msg of
       None \<Rightarrow> Inl DeserializeFailed
     | Some (m, _) \<Rightarrow> Inr (m, \<lparr>avail = rest, tail_of = t\<rparr>))"
proof -
  have "unat (word_of_nat (length msg) :: u32) = length msg"
    using assms by (simp add: unat_of_nat MAX_TUNNEL_MESSAGE_SIZE_def)
  then show ?thesis using assms
    read_exact_append [of "to_be_bytes (word_of_nat (length msg) :: u32)" 4 "msg @ rest" t]
    by (simp add: recv_from_def message_frame_def Let_def)
qed

lemma recv_from_encoded:
  assumes "bincode_laws b" and "encode_to_vec b m = Some msg"
    and "length msg \<le> MAX_TUNNEL_MESSAGE_SIZE"
  shows "recv_from b \<lparr>avail = message_frame msg @ rest, tail_of = t\<rparr> =
    Inr (m, \<lparr>avail = rest, tail_of = t\<rparr>)"
  using assms recv_from_frame [OF assms(3)] by (simp add: bincode_laws_def)

lemma recv_from_InrD:
  assumes "recv_from b s = Inr (m, s')"
  obtains h msg n where "avail s = h @ msg @ avail s'" and "length h = 4"
    and "unat (from_be_bytes h :: u32) = length msg" and "length msg \<le> MAX_TUNNEL_MESSAGE_SIZE"
    and "decode_from_slice b msg = Some (m, n)" and "tail_of s' = tail_of s"
proof -
  from assms obtain h s1 msg n where h: "read_exact 4 s = Inr (h, s1)"
    and le: "unat (from_be_bytes h :: u32) \<le> MAX_TUNNEL_MESSAGE_SIZE"
    and msg: "read_exact (unat (from_be_bytes h :: u32)) s1 = Inr (msg, s')"
    and dec: "decode_from_slice b msg = Some (m, n)"
    by (cases "read_exact 4 s"; cases "read_exact (unat (from_be_bytes (fst (projr (read_exact 4 s))) :: u32)) (snd (projr (read_exact 4 s)))")
      (auto simp: recv_from_def Let_def split: if_splits option.splits)
  from read_exact_InrD [OF h] read_exact_InrD [OF msg] show thesis
    by (intro that [of h msg n]) (use le dec in auto)
qed

lemma recv_from_shorter: "recv_from b s = Inr (m, s') \<Longrightarrow> length (avail s') + 4 \<le> length (avail s)"
  by (erule recv_from_InrD) simp

lemma recv_from_stop:
  "length (avail s) < 4 \<Longrightarrow> recv_from b s = Inl (ReadFailed (tail_error (tail_of s)))"
  by (simp add: recv_from_def read_exact_short)

section \<open>The datagram framing\<close>

definition raw_frame :: "bytes \<Rightarrow> bytes" where
  "raw_frame data = to_be_bytes (word_of_nat (length data) :: u16) @ data"

lemma send_raw_frame:
  "budget k = None \<Longrightarrow> send_raw_to k data = (True, k\<lparr>written := written k @ raw_frame data\<rparr>)"
  by (simp add: send_raw_to_def raw_frame_def)

lemma recv_raw_frame:
  assumes "length data \<le> 65535"
  shows "recv_raw_from \<lparr>avail = raw_frame data @ rest, tail_of = t\<rparr> buf =
    (if length buf < length data then Inl (MessageTooLarge (length data))
     else Inr (word_of_nat (length data), data @ drop (length data) buf,
       \<lparr>avail = rest, tail_of = t\<rparr>))"
proof -
  have "unat (word_of_nat (length data) :: u16) = length data"
    using assms by (simp add: unat_of_nat)
  then show ?thesis
    using read_exact_append [of "to_be_bytes (word_of_nat (length data) :: u16)" 2 "data @ rest" t]
    by (simp add: recv_raw_from_def raw_frame_def Let_def)
qed

lemma recv_raw_InrD:
  assumes "recv_raw_from s buf = Inr (n, buf', s')"
  obtains h msg where "avail s = h @ msg @ avail s'" and "length h = 2" and "unat n = length msg"
    and "length msg \<le> length buf" and "buf' = msg @ drop (length msg) buf" and "tail_of s' = tail_of s"
proof -
  obtain h s1 where h: "read_exact 2 s = Inr (h, s1)"
    using assms by (cases "read_exact 2 s") (auto simp: recv_raw_from_def)
  let ?n = "unat (from_be_bytes h :: u16)"
  obtain msg where le: "?n \<le> length buf" and msg: "read_exact ?n s1 = Inr (msg, s')"
    and n: "n = word_of_nat ?n" and buf: "buf' = msg @ drop ?n buf"
    using assms h by (cases "read_exact ?n s1") (auto simp: recv_raw_from_def Let_def split: if_splits)
  from read_exact_InrD [OF h] read_exact_InrD [OF msg] show thesis
    by (intro that [of h msg]) (use le n buf in auto)
qed

lemma recv_raw_shorter:
  "recv_raw_from s buf = Inr (n, buf', s') \<Longrightarrow>
     length (avail s') + 2 \<le> length (avail s) \<and> length buf' = length buf"
  by (erule recv_raw_InrD) simp

text \<open>The datagram a receiver with a buffer of \<open>UDP_PACKET_SIZE\<close> bytes takes off the stream.\<close>

definition decode_raw :: "bytes \<Rightarrow> (bytes \<times> bytes) option" where
  "decode_raw bs =
     (case recv_raw_from \<lparr>avail = bs, tail_of = Closed\<rparr> (replicate UDP_PACKET_SIZE 0) of
        Inl _ \<Rightarrow> None
      | Inr (n, buf, s) \<Rightarrow> Some (take (unat n) buf, avail s))"

lemma decode_raw_frame:
  "length data \<le> UDP_PACKET_SIZE \<Longrightarrow> decode_raw (raw_frame data @ rest) = Some (data, rest)"
  by (simp add: decode_raw_def recv_raw_frame UDP_PACKET_SIZE_def unat_of_nat)

interpretation raw_wire: wire_format raw_frame decode_raw "\<lambda>d. length d \<le> UDP_PACKET_SIZE"
  by unfold_locales (rule decode_raw_frame)

section \<open>Properties\<close>

text \<open>
  A serialiser that satisfies the laws: it knows the heartbeat messages and refuses the
  others, as an encoder may.
\<close>

fun ping_encode :: "tunnel_message \<Rightarrow> bytes option" where
  "ping_encode (ReqHeartbeat n) = Some (1 # to_be_bytes n)"
| "ping_encode (RespHeartbeat n) = Some (2 # to_be_bytes n)"
| "ping_encode _ = None"

fun ping_decode :: "bytes \<Rightarrow> (tunnel_message \<times> nat) option" where
  "ping_decode [] = None"
| "ping_decode (c # bs) =
     (if length bs < 8 then None
      else if c = 1 then Some (ReqHeartbeat (from_be_bytes (take 8 bs)), 9)
      else if c = 2 then Some (RespHeartbeat (from_be_bytes (take 8 bs)), 9)
      else None)"

definition ping_bincode :: bincode where
  "ping_bincode = \<lparr>encode_to_vec = ping_encode, decode_from_slice = ping_decode\<rparr>"

lemma ping_bincode_laws: "bincode_laws ping_bincode"
  unfolding bincode_laws_def ping_bincode_def
proof (intro allI impI, simp)
  fix m bs
  assume "ping_encode m = Some bs"
  then show "ping_decode bs = Some (m, length bs)" by (cases m) auto
qed

text \<open>
  C17. A control message that serialises to at most 64 KiB arrives: \<open>send_to\<close> on a
  working stream followed by the peer's \<open>recv_from\<close> gives the same message and leaves
  the following bytes alone.
\<close>

theorem message_roundtrip:
  assumes "bincode_laws b" and "encode_to_vec b m = Some msg"
    and "length msg \<le> MAX_TUNNEL_MESSAGE_SIZE" and "budget k = None"
  shows "\<exists>frame. send_to b k m = (Inr (), k\<lparr>written := written k @ frame\<rparr>) \<and>
    (\<forall>rest t. recv_from b \<lparr>avail = frame @ rest, tail_of = t\<rparr> =
       Inr (m, \<lparr>avail = rest, tail_of = t\<rparr>))"
  using send_to_frame [OF assms(2,4)] recv_from_encoded [OF assms(1-3)]
  by (intro exI [of _ "message_frame msg"]) simp

theorem message_roundtrip_witness:
  "\<exists>frame. send_to ping_bincode open_sink (ReqHeartbeat 7) =
      (Inr (), open_sink\<lparr>written := written open_sink @ frame\<rparr>) \<and>
    (\<forall>rest t. recv_from ping_bincode \<lparr>avail = frame @ rest, tail_of = t\<rparr> =
       Inr (ReqHeartbeat 7, \<lparr>avail = rest, tail_of = t\<rparr>))"
  by (rule message_roundtrip [OF ping_bincode_laws, where msg = "1 # to_be_bytes (7 :: u64)"])
    (simp_all add: ping_bincode_def MAX_TUNNEL_MESSAGE_SIZE_def open_sink_def)

text \<open>
  The size limit of a control message holds whatever a peer sends: a length above
  64 KiB is refused as soon as the four length bytes are there, before any of the body is
  read, and an accepted message takes at most 64 KiB and four bytes off the stream.
\<close>

lemma message_size_limit:
  "(recv_from b s = Inl (MessageTooLarge n) \<longleftrightarrow>
      4 \<le> length (avail s) \<and> n = unat (from_be_bytes (take 4 (avail s)) :: u32) \<and>
      MAX_TUNNEL_MESSAGE_SIZE < n) \<and>
   (case recv_from b s of
      Inl _ \<Rightarrow> True
    | Inr (m, s') \<Rightarrow> length (avail s') < length (avail s) \<and>
        length (avail s) \<le> length (avail s') + MAX_TUNNEL_MESSAGE_SIZE + 4)"
proof
  show "recv_from b s = Inl (MessageTooLarge n) \<longleftrightarrow>
      4 \<le> length (avail s) \<and> n = unat (from_be_bytes (take 4 (avail s)) :: u32) \<and>
      MAX_TUNNEL_MESSAGE_SIZE < n"
    by (auto simp: recv_from_def read_exact_def Let_def split: if_splits option.splits)
  show "case recv_from b s of
      Inl _ \<Rightarrow> True
    | Inr (m, s') \<Rightarrow> length (avail s') < length (avail s) \<and>
        length (avail s) \<le> length (avail s') + MAX_TUNNEL_MESSAGE_SIZE + 4"
    by (auto split: sum.splits elim!: recv_from_InrD)
qed

fun send_all_raw :: "sink \<Rightarrow> bytes list \<Rightarrow> sink" where
  "send_all_raw k [] = k"
| "send_all_raw k (d # ds) = send_all_raw (snd (send_raw_to k d)) ds"

lemma send_all_raw_written:
  "budget k = None \<Longrightarrow>
     written (send_all_raw k ds) = written k @ concat (map raw_frame ds)"
  by (induction ds arbitrary: k) (simp_all add: send_raw_frame)

text \<open>
  Datagram boundaries survive the stream: datagrams of at most
  \<open>UDP_PACKET_SIZE\<close> bytes (empty ones included) sent one after the other on one stream
  are received as the same sequence of datagrams, with nothing left over.
\<close>

lemma datagram_sequence:
  assumes "list_all (\<lambda>d. length d \<le> UDP_PACKET_SIZE) ds"
  shows "decode_n decode_raw (length ds) (written (send_all_raw open_sink ds)) = Some (ds, [])"
  using raw_wire.decode_sequence [OF assms, of "[]"] send_all_raw_written [of open_sink ds]
  by (simp add: open_sink_def)

lemma datagram_sequence_witness:
  "decode_n decode_raw (length [[1, 2], [], [3 :: u8]])
     (written (send_all_raw open_sink [[1, 2], [], [3]])) = Some ([[1, 2], [], [3]], [])"
  by (rule datagram_sequence) (simp add: UDP_PACKET_SIZE_def)

text \<open>
  Datagrams the framing cannot carry. One longer than the receiver's buffer (and below
  64 KiB) makes \<open>recv_raw_from\<close> fail; from 65536 bytes on the 16-bit length wraps, and
  the receiver takes only the first \<open>length data mod 65536\<close> bytes as the datagram and
  goes on parsing the rest as frames.
\<close>

lemma datagram_oversize:
  assumes "length buf < 65536"
  shows "(length buf < length data \<and> length data < 65536 \<longrightarrow>
      recv_raw_from \<lparr>avail = raw_frame data @ rest, tail_of = t\<rparr> buf =
        Inl (MessageTooLarge (length data))) \<and>
    (65536 \<le> length data \<and> length data mod 65536 \<le> length buf \<longrightarrow>
      (\<exists>buf'. recv_raw_from \<lparr>avail = raw_frame data @ rest, tail_of = t\<rparr> buf =
        Inr (word_of_nat (length data), take (length data mod 65536) data @ buf',
          \<lparr>avail = drop (length data mod 65536) data @ rest, tail_of = t\<rparr>)))"
proof -
  let ?n = "length data mod 65536"
  let ?d = "take ?n data" and ?r = "drop ?n data @ rest"
  have l: "length ?d = ?n" by (simp add: min_absorb2)
  have w: "(word_of_nat (length data) :: u16) = word_of_nat ?n"
    by (simp add: word_unat_eq_iff unat_of_nat)
  have f: "raw_frame data @ rest = raw_frame ?d @ ?r"
    by (simp only: raw_frame_def w l append_assoc [symmetric] append_take_drop_id)
       (simp only: append_assoc append_take_drop_id)
  have "length ?d \<le> 65535" using l by simp
  from recv_raw_frame [OF this, of ?r t buf] show ?thesis
    unfolding f [symmetric] l w [symmetric] by (auto simp: raw_frame_def)
qed

lemma datagram_oversize_witness:
  "recv_raw_from \<lparr>avail = raw_frame [1, 2] @ [], tail_of = Closed\<rparr> [0] = Inl (MessageTooLarge 2) \<and>
   (\<exists>buf'. recv_raw_from \<lparr>avail = raw_frame (replicate 65537 9) @ [], tail_of = Closed\<rparr> [0] =
      Inr (word_of_nat 65537, take 1 (replicate 65537 9) @ buf',
        \<lparr>avail = drop 1 (replicate 65537 9) @ [], tail_of = Closed\<rparr>))"
  using datagram_oversize [of "[0]" "[1, 2]" "[]" Closed]
    datagram_oversize [of "[0]" "replicate 65537 9" "[]" Closed]
  by (simp del: take_replicate drop_replicate)

end
