(* ===== verification/Servers.thy ===== *)
theory Servers
  imports Net_Types
begin

text \<open>
  \<^verbatim>\<open>src/src/tcp/tcp_server.rs\<close> and \<^verbatim>\<open>src/src/udp/udp_server.rs\<close>: the local
  listeners of a tunnel. Each hands its accepted connections or datagrams to a bounded
  channel whose single receiver a tunnel takes and gives back. The channel is part of the
  state; a receiver is known by its channel's number. The accept loop and the socket loop go
  through phases, one per point at which they wait: the flags of the state are read when a
  connection or datagram arrives, and the send that follows completes at a later moment, so
  the holder of the receiver, a shutdown or another sender may act in between.
\<close>

definition CHANNEL_CAPACITY :: nat where
  "CHANNEL_CAPACITY = 4"

type_synonym receiver = nat

datatype take_error = AlreadyTaken

section \<open>The TCP listener\<close>

record 's stream_request =
  req_stream :: 's
  req_target :: "tunnel_target option"

datatype 's stream_message = Request "'s stream_request" | Quit

text \<open>
  Where the accept loop waits: for a connection, for the send of one, for the send of the
  final \<open>Quit\<close>, or nowhere since it ended.
\<close>

datatype 's accept_phase = Accepting | Forwarding 's | SendingQuit | AcceptEnded

record 's tcp_server =
  ts_addr :: socket_addr
  tcp_receiver :: "receiver option"
  ts_active :: bool
  terminated :: bool
  ts_queue :: "'s stream_message list"
  ts_rx_open :: bool
  ts_phase :: "'s accept_phase"

text \<open>\<^verbatim>\<open>bind_and_start\<close>, given the local address the socket was bound to.\<close>

definition tcp_bind_and_start :: "socket_addr option \<Rightarrow> 's tcp_server option" where
  "tcp_bind_and_start bound =
     (case bound of
        None \<Rightarrow> None
      | Some addr \<Rightarrow>
          Some \<lparr>ts_addr = addr, tcp_receiver = Some 0, ts_active = False, terminated = False,
                ts_queue = [], ts_rx_open = True, ts_phase = Accepting\<rparr>)"

definition tcp_take_receiver :: "'s tcp_server \<Rightarrow> (take_error + receiver) \<times> 's tcp_server" where
  "tcp_take_receiver s =
     (case tcp_receiver s of
        Some r \<Rightarrow> (Inr r, s\<lparr>ts_active := True, tcp_receiver := None\<rparr>)
      | None \<Rightarrow> (Inl AlreadyTaken, s\<lparr>ts_active := False\<rparr>))"

definition tcp_put_receiver :: "receiver \<Rightarrow> 's tcp_server \<Rightarrow> 's tcp_server" where
  "tcp_put_receiver r s = s\<lparr>ts_active := False, tcp_receiver := Some r\<rparr>"

text \<open>
  \<^verbatim>\<open>shutdown\<close> raises the flag and wakes the accept loop with a connection of its own;
  it fails when that connection cannot be made.
\<close>

definition tcp_shutdown :: "bool \<Rightarrow> 's tcp_server \<Rightarrow> bool \<times> 's tcp_server" where
  "tcp_shutdown connects s = (connects, s\<lparr>terminated := True\<rparr>)"

text \<open>
  A connection is accepted: the two flags are read under the lock, which is released before
  anything is sent. An accept that fails is only logged.
\<close>

definition accept_connection :: "'s \<Rightarrow> 's tcp_server \<Rightarrow> 's tcp_server" where
  "accept_connection stream s =
     (if terminated s then s\<lparr>ts_phase := SendingQuit\<rparr>
      else if \<not> ts_active s then s
      else s\<lparr>ts_phase := Forwarding stream\<rparr>)"

text \<open>
  The send of a request completes: the receiver is gone and the loop ends, or there is room
  in the channel, or the channel is still full after the timeout and the connection is
  dropped.
\<close>

definition finish_send :: "'s \<Rightarrow> 's tcp_server \<Rightarrow> 's tcp_server" where
  "finish_send stream s =
     (if \<not> ts_rx_open s then s\<lparr>ts_phase := AcceptEnded\<rparr>
      else if length (ts_queue s) < CHANNEL_CAPACITY
      then s\<lparr>ts_queue := ts_queue s @ [Request \<lparr>req_stream = stream, req_target = None\<rparr>],
             ts_phase := Accepting\<rparr>
      else s\<lparr>ts_phase := Accepting\<rparr>)"

text \<open>
  The send of the final \<open>Quit\<close>, which has no timeout; \<open>None\<close>: the channel is full and the
  loop goes on waiting.
\<close>

definition send_quit :: "'s tcp_server \<Rightarrow> 's tcp_server option" where
  "send_quit s =
     (if \<not> ts_rx_open s then Some (s\<lparr>ts_phase := AcceptEnded\<rparr>)
      else if length (ts_queue s) < CHANNEL_CAPACITY
      then Some (s\<lparr>ts_queue := ts_queue s @ [Quit], ts_phase := AcceptEnded\<rparr>)
      else None)"

text \<open>
  A \<open>Quit\<close> sent through a sender that \<^verbatim>\<open>clone_sender\<close> gave out; \<open>None\<close>: the channel is
  full and that sender waits.
\<close>

definition quit_through_clone :: "'s tcp_server \<Rightarrow> 's tcp_server option" where
  "quit_through_clone s =
     (if \<not> ts_rx_open s then Some s
      else if length (ts_queue s) < CHANNEL_CAPACITY
      then Some (s\<lparr>ts_queue := ts_queue s @ [Quit]\<rparr>)
      else None)"

section \<open>The UDP listener\<close>

record udp_packet =
  payload :: bytes
  local_addr :: socket_addr
  peer_addr :: "tunnel_target option"

datatype udp_message = Packet udp_packet | UQuit

record udp_server =
  us_addr :: socket_addr
  us_active :: bool
  udp_receiver :: "receiver option"
  out_queue :: "udp_message list"
  us_rx_open :: bool
  in_queue :: "udp_message list"
  us_running :: bool
  us_forwarding :: "udp_packet option"
  sent_out :: "(socket_addr \<times> bytes) list"

definition udp_bind_and_start :: "socket_addr option \<Rightarrow> udp_server option" where
  "udp_bind_and_start bound =
     (case bound of
        None \<Rightarrow> None
      | Some addr \<Rightarrow>
          Some \<lparr>us_addr = addr, us_active = False, udp_receiver = Some 0, out_queue = [],
                us_rx_open = True, in_queue = [], us_running = True,
                us_forwarding = None, sent_out = []\<rparr>)"

definition udp_take_receiver :: "udp_server \<Rightarrow> (take_error + receiver) \<times> udp_server" where
  "udp_take_receiver s =
     (case udp_receiver s of
        Some r \<Rightarrow> (Inr r, s\<lparr>us_active := True, udp_receiver := None\<rparr>)
      | None \<Rightarrow> (Inl AlreadyTaken, s\<lparr>us_active := False\<rparr>))"

definition udp_put_receiver :: "receiver \<Rightarrow> udp_server \<Rightarrow> udp_server" where
  "udp_put_receiver r s = s\<lparr>us_active := False, udp_receiver := Some r\<rparr>"

definition set_active :: "bool \<Rightarrow> udp_server \<Rightarrow> udp_server" where
  "set_active a s = s\<lparr>us_active := a\<rparr>"

text \<open>
  \<^verbatim>\<open>shutdown\<close> sends \<open>Quit\<close> into the inbound channel and fails when the socket loop, which
  has its receiver, is over; \<open>None\<close>: the channel is full and the caller waits.
\<close>

definition udp_shutdown :: "udp_server \<Rightarrow> (bool \<times> udp_server) option" where
  "udp_shutdown s =
     (if \<not> us_running s then Some (False, s)
      else if length (in_queue s) < CHANNEL_CAPACITY
      then Some (True, s\<lparr>in_queue := in_queue s @ [UQuit]\<rparr>)
      else None)"

text \<open>
  What the socket loop waits for: a datagram (cut to the buffer), a failed receive, the next
  message of the inbound channel, the end of all its senders, or, while a datagram is being
  handed over, the end of that send. The flag of \<open>InMessage\<close> is whether the socket accepted
  the datagram.
\<close>

datatype udp_event =
    Datagram bytes socket_addr
  | RecvFailed
  | InMessage bool
  | SendersGone
  | SendDone

text \<open>
  The send of a datagram completes: the receiver is gone and the loop stops, or there is
  room, or the channel is still full after the timeout and the datagram is dropped.
\<close>

definition udp_forward :: "udp_packet \<Rightarrow> udp_server \<Rightarrow> udp_server" where
  "udp_forward p s =
     (if \<not> us_rx_open s then s\<lparr>us_running := False, us_forwarding := None\<rparr>
      else if length (out_queue s) < CHANNEL_CAPACITY
      then s\<lparr>out_queue := out_queue s @ [Packet p], us_forwarding := None\<rparr>
      else s\<lparr>us_forwarding := None\<rparr>)"

definition udp_select :: "udp_event \<Rightarrow> udp_server \<Rightarrow> udp_server" where
  "udp_select ev s =
     (case ev of
        Datagram data from \<Rightarrow>
          if \<not> us_active s then s
          else s\<lparr>us_forwarding :=
                 Some \<lparr>payload = take UDP_PACKET_SIZE data, local_addr = from, peer_addr = None\<rparr>\<rparr>
      | RecvFailed \<Rightarrow> s
      | InMessage ok \<Rightarrow>
          (case in_queue s of
             [] \<Rightarrow> s
           | Packet p # q \<Rightarrow>
               (if ok then s\<lparr>in_queue := q, sent_out := sent_out s @ [(local_addr p, payload p)]\<rparr>
                else s\<lparr>in_queue := q\<rparr>)
           | UQuit # q \<Rightarrow> s\<lparr>in_queue := q, us_running := False\<rparr>)
      | SendersGone \<Rightarrow> if in_queue s = [] then s\<lparr>us_running := False\<rparr> else s
      | SendDone \<Rightarrow> s)"

text \<open>
  One event at the socket loop: nothing happens after its end; while it hands a datagram
  over it is not at its \<^verbatim>\<open>select!\<close> and only the end of that send moves it on.
\<close>

definition udp_iteration :: "udp_event \<Rightarrow> udp_server \<Rightarrow> udp_server" where
  "udp_iteration ev s =
     (if \<not> us_running s then s
      else case us_forwarding s of
        Some p \<Rightarrow> if ev = SendDone then udp_forward p s else s
      | None \<Rightarrow> udp_select ev s)"

section \<open>The contract of a single receiver\<close>

text \<open>
  What both listeners promise to the tunnels that share them: the receiver is handed out to
  one holder at a time, and the listener forwards traffic only while it is handed out.
\<close>

locale exclusive_receiver =
  fixes take_rx :: "'s \<Rightarrow> (take_error + receiver) \<times> 's"
    and put_rx :: "receiver \<Rightarrow> 's \<Rightarrow> 's"
    and slot :: "'s \<Rightarrow> receiver option"
    and forwarding :: "'s \<Rightarrow> bool"
  assumes take_some: "slot s = Some r \<Longrightarrow>
      fst (take_rx s) = Inr r \<and> slot (snd (take_rx s)) = None \<and> forwarding (snd (take_rx s))"
    and take_none: "slot s = None \<Longrightarrow>
      fst (take_rx s) = Inl AlreadyTaken \<and> slot (snd (take_rx s)) = None \<and>
      \<not> forwarding (snd (take_rx s))"
    and put_slot: "slot (put_rx r s) = Some r \<and> \<not> forwarding (put_rx r s)"
begin

definition idle_when_home :: "'s \<Rightarrow> bool" where
  "idle_when_home s \<longleftrightarrow> (slot s \<noteq> None \<longrightarrow> \<not> forwarding s)"

lemma idle_take: "idle_when_home s \<Longrightarrow> idle_when_home (snd (take_rx s))"
  using take_none [of s] by (cases "slot s") (simp_all add: idle_when_home_def take_some)

lemma idle_put: "idle_when_home (put_rx r s)"
  by (simp add: idle_when_home_def put_slot)

lemma take_exclusive:
  assumes "fst (take_rx s) = Inr r"
  shows "fst (take_rx (snd (take_rx s))) = Inl AlreadyTaken"
proof (rule conjunct1 [OF take_none])
  show "slot (snd (take_rx s)) = None"
    by (cases "slot s") (simp_all add: take_some take_none)
qed

lemma take_put_take: "fst (take_rx (put_rx r s)) = Inr r"
  using put_slot take_some by blast

lemma second_take_stops_forwarding:
  assumes "fst (take_rx s) = Inr r"
  shows "forwarding (snd (take_rx s)) \<and> \<not> forwarding (snd (take_rx (snd (take_rx s))))"
proof (cases "slot s")
  case None
  then show ?thesis using assms take_none [of s] by simp
next
  case (Some r')
  then show ?thesis using take_some [of s r'] take_none [of "snd (take_rx s)"] by simp
qed

end

interpretation tcp_rx: exclusive_receiver tcp_take_receiver tcp_put_receiver tcp_receiver ts_active
  by unfold_locales (auto simp: tcp_take_receiver_def tcp_put_receiver_def)

interpretation udp_rx: exclusive_receiver udp_take_receiver udp_put_receiver udp_receiver us_active
  by unfold_locales (auto simp: udp_take_receiver_def udp_put_receiver_def)

section \<open>The TCP listener as a state machine\<close>

text \<open>
  The history of a listener: the accepted connections with the flags (shut down, active)
  that were read for each, the messages the holders of the receiver took from the channel,
  the \<open>Quit\<close>s sent through cloned senders, and the sends that gave up at a full channel.
\<close>

record 's tcp_log =
  tl_accepted :: "('s \<times> bool \<times> bool) list"
  tl_received :: "'s stream_message list"
  tl_quits :: nat
  tl_timeouts :: nat

fun request_streams :: "'s stream_message list \<Rightarrow> 's list" where
  "request_streams [] = []"
| "request_streams (Request r # ms) = req_stream r # request_streams ms"
| "request_streams (Quit # ms) = request_streams ms"

fun being_sent :: "'s accept_phase \<Rightarrow> 's list" where
  "being_sent (Forwarding stream) = [stream]"
| "being_sent _ = []"

definition admitted :: "('s \<times> bool \<times> bool) list \<Rightarrow> 's list" where
  "admitted log = map fst (filter (\<lambda>(stream, down, active). \<not> down \<and> active) log)"

definition quit_count :: "'s stream_message list \<Rightarrow> nat" where
  "quit_count ms = length (filter (\<lambda>m. m = Quit) ms)"

text \<open>
  The interleaving of the accept loop with everyone else: tunnels that take, use, give back
  or drop the receiver, sessions that are told to quit, and \<^verbatim>\<open>shutdown\<close>. A dropped receiver
  closes the channel for good, and what it holds is lost.
\<close>

inductive tcp_server_step ::
    "'s tcp_server \<times> 's tcp_log \<Rightarrow> 's tcp_server \<times> 's tcp_log \<Rightarrow> bool" where
  accepts: "ts_phase s = Accepting \<Longrightarrow>
    tcp_server_step (s, l) (accept_connection stream s,
      l\<lparr>tl_accepted := tl_accepted l @ [(stream, terminated s, ts_active s)]\<rparr>)"
| sends: "ts_phase s = Forwarding stream \<Longrightarrow>
    tcp_server_step (s, l) (finish_send stream s,
      if ts_rx_open s \<and> CHANNEL_CAPACITY \<le> length (ts_queue s)
      then l\<lparr>tl_timeouts := Suc (tl_timeouts l)\<rparr> else l)"
| sends_quit: "ts_phase s = SendingQuit \<Longrightarrow> send_quit s = Some s' \<Longrightarrow>
    tcp_server_step (s, l) (s', l)"
| told_to_quit: "quit_through_clone s = Some s' \<Longrightarrow>
    tcp_server_step (s, l) (s', l\<lparr>tl_quits := Suc (tl_quits l)\<rparr>)"
| take_rx: "tcp_server_step (s, l) (snd (tcp_take_receiver s), l)"
| put_rx: "tcp_receiver s = None \<Longrightarrow> ts_rx_open s \<Longrightarrow>
    tcp_server_step (s, l) (tcp_put_receiver 0 s, l)"
| consume: "tcp_receiver s = None \<Longrightarrow> ts_queue s = m # q \<Longrightarrow>
    tcp_server_step (s, l) (s\<lparr>ts_queue := q\<rparr>, l\<lparr>tl_received := tl_received l @ [m]\<rparr>)"
| drop_rx: "tcp_receiver s = None \<Longrightarrow>
    tcp_server_step (s, l) (s\<lparr>ts_rx_open := False, ts_queue := []\<rparr>, l)"
| stop: "tcp_server_step (s, l) (snd (tcp_shutdown ok s), l)"

definition no_history :: "'s tcp_log" where
  "no_history = \<lparr>tl_accepted = [], tl_received = [], tl_quits = 0, tl_timeouts = 0\<rparr>"

fun tcp_server_init :: "'s tcp_server \<times> 's tcp_log \<Rightarrow> bool" where
  "tcp_server_init (s, l) \<longleftrightarrow> (\<exists>a. tcp_bind_and_start a = Some s) \<and> l = no_history"

definition phase_inv :: "'s tcp_server \<Rightarrow> bool" where
  "phase_inv s \<longleftrightarrow> length (ts_queue s) \<le> CHANNEL_CAPACITY \<and>
     (tcp_receiver s \<noteq> None \<longrightarrow> \<not> ts_active s \<and> ts_rx_open s) \<and>
     (ts_phase s = SendingQuit \<longrightarrow> terminated s) \<and>
     (ts_phase s = AcceptEnded \<longrightarrow> terminated s \<or> \<not> ts_rx_open s) \<and>
     (\<not> ts_rx_open s \<longrightarrow> ts_queue s = [])"

text \<open>What was let in so far and is not lost, and the \<open>Quit\<close>s among the messages.\<close>

definition kept_streams :: "'s tcp_server \<Rightarrow> 's tcp_log \<Rightarrow> 's list" where
  "kept_streams s l = request_streams (tl_received l @ ts_queue s) @ being_sent (ts_phase s)"

definition log_inv :: "'s tcp_server \<Rightarrow> 's tcp_log \<Rightarrow> bool" where
  "log_inv s l \<longleftrightarrow> subseq (kept_streams s l) (admitted (tl_accepted l)) \<and>
     (ts_rx_open s \<and> tl_timeouts l = 0 \<longrightarrow> kept_streams s l = admitted (tl_accepted l)) \<and>
     (ts_rx_open s \<longrightarrow> quit_count (tl_received l @ ts_queue s) =
        tl_quits l + (if ts_phase s = AcceptEnded then 1 else 0)) \<and>
     quit_count (tl_received l @ ts_queue s) \<le> tl_quits l + (if ts_phase s = AcceptEnded then 1 else 0)"

fun tcp_server_inv :: "'s tcp_server \<times> 's tcp_log \<Rightarrow> bool" where
  "tcp_server_inv (s, l) \<longleftrightarrow> phase_inv s \<and> log_inv s l"

lemma request_streams_append [simp]: "request_streams (xs @ ys) = request_streams xs @ request_streams ys"
  by (induction xs rule: request_streams.induct) simp_all

lemma quit_count_simps [simp]:
  "quit_count [] = 0" "quit_count (xs @ ys) = quit_count xs + quit_count ys"
  "quit_count (Quit # ms) = Suc (quit_count ms)" "quit_count (Request r # ms) = quit_count ms"
  by (simp_all add: quit_count_def)

lemma admitted_snoc [simp]:
  "admitted (log @ [(stream, down, active)]) =
     admitted log @ (if \<not> down \<and> active then [stream] else [])"
  by (simp add: admitted_def)

lemma subseq_without: "subseq (xs @ ys @ zs) ws \<Longrightarrow> subseq (xs @ zs) ws"
  by (rule subseq_order.trans [of _ "xs @ ys @ zs"]) (simp_all add: subseq_append' list_emb_append2)

lemma subseq_with:
  assumes "subseq (xs @ ys) zs" shows "subseq (xs @ ys @ [a]) (zs @ [a])"
  using assms subseq_append [of "xs @ ys" "[a]" zs] by simp

lemma phase_inv_step:
  "tcp_server_step x y \<Longrightarrow> phase_inv (fst x) \<Longrightarrow> phase_inv (fst y)"
  by (induction rule: tcp_server_step.induct)
    (auto simp: phase_inv_def accept_connection_def finish_send_def send_quit_def
       quit_through_clone_def tcp_take_receiver_def tcp_put_receiver_def tcp_shutdown_def
       split: if_split_asm option.splits)

lemma log_inv_step:
  "tcp_server_step x y \<Longrightarrow> phase_inv (fst x) \<Longrightarrow> log_inv (fst x) (snd x) \<Longrightarrow>
   log_inv (fst y) (snd y)"
proof (induction rule: tcp_server_step.induct)
  case (accepts s l stream)
  then show ?case
    by (auto simp: log_inv_def kept_streams_def accept_connection_def subseq_with)
next
  case (sends s stream l)
  then have "subseq ((request_streams (tl_received l) @ request_streams (ts_queue s)) @ [stream] @ [])
      (admitted (tl_accepted l))"
    by (simp add: log_inv_def kept_streams_def)
  from subseq_without [OF this] sends show ?case
    by (auto simp: log_inv_def kept_streams_def phase_inv_def finish_send_def)
next
  case (consume s m q l)
  then show ?case by (cases m) (simp_all add: log_inv_def kept_streams_def)
next
  case (drop_rx s l)
  then have "subseq (request_streams (tl_received l) @ request_streams (ts_queue s) @ being_sent (ts_phase s))
      (admitted (tl_accepted l))"
    by (simp add: log_inv_def kept_streams_def)
  from subseq_without [OF this] drop_rx show ?case by (simp add: log_inv_def kept_streams_def)
qed (auto simp: log_inv_def kept_streams_def send_quit_def quit_through_clone_def tcp_take_receiver_def
   tcp_put_receiver_def tcp_shutdown_def split: if_split_asm option.splits)

lemma tcp_server_inv_step: "tcp_server_step x y \<Longrightarrow> tcp_server_inv x \<Longrightarrow> tcp_server_inv y"
  using phase_inv_step [of x y] log_inv_step [of x y] by (cases x; cases y) simp

lemma tcp_server_inv_init:
  assumes "tcp_server_init x"
  shows "tcp_server_inv x"
proof (cases x)
  case (Pair s l)
  with assms obtain a where "tcp_bind_and_start a = Some s" and l: "l = no_history" by auto
  then have "phase_inv s" "log_inv s l"
    by (auto simp: tcp_bind_and_start_def phase_inv_def log_inv_def kept_streams_def no_history_def
        admitted_def split: option.splits)
  with Pair show ?thesis by simp
qed

interpretation tcp_srv: invariant_system tcp_server_init tcp_server_step tcp_server_inv
  by (rule invariant_system.intro [OF tcp_server_inv_init tcp_server_inv_step])

section \<open>Properties\<close>

text \<open>
  The receiver of a listener has one holder at a time, on both listeners: after a
  successful \<open>take_receiver\<close> the next one fails, and once it is put back it can be taken
  again and is the same one.
\<close>

lemma receiver_exclusive:
  "(fst (tcp_take_receiver s) = Inr r \<longrightarrow>
      fst (tcp_take_receiver (snd (tcp_take_receiver s))) = Inl AlreadyTaken) \<and>
   fst (tcp_take_receiver (tcp_put_receiver r s)) = Inr r \<and>
   (fst (udp_take_receiver u) = Inr r \<longrightarrow>
      fst (udp_take_receiver (snd (udp_take_receiver u))) = Inl AlreadyTaken) \<and>
   fst (udp_take_receiver (udp_put_receiver r u)) = Inr r"
  using tcp_rx.take_exclusive tcp_rx.take_put_take udp_rx.take_exclusive udp_rx.take_put_take
  by blast

definition example_tcp :: "nat tcp_server" where
  "example_tcp = the (tcp_bind_and_start (Some (V4 localhost_v4 8080)))"

definition example_udp :: udp_server where
  "example_udp = the (udp_bind_and_start (Some (V4 localhost_v4 8080)))"

lemmas example_server_defs = example_tcp_def example_udp_def tcp_bind_and_start_def
  udp_bind_and_start_def tcp_take_receiver_def udp_take_receiver_def

lemma receiver_exclusive_witness:
  "fst (tcp_take_receiver example_tcp) = Inr 0 \<and>
   fst (tcp_take_receiver (snd (tcp_take_receiver example_tcp))) = Inl AlreadyTaken \<and>
   fst (udp_take_receiver example_udp) = Inr 0 \<and>
   fst (udp_take_receiver (snd (udp_take_receiver example_udp))) = Inl AlreadyTaken"
proof -
  have "fst (tcp_take_receiver example_tcp) = Inr 0" "fst (udp_take_receiver example_udp) = Inr 0"
    by (simp_all add: example_server_defs)
  with receiver_exclusive [of example_tcp 0 example_udp] show ?thesis by blast
qed

text \<open>
  A failed \<open>take_receiver\<close> disturbs the current holder: it leaves the listener
  inactive, so a connection that would have been forwarded to the holder (who still has an
  open receiver and room in the channel) is accepted and dropped from then on.
\<close>

lemma second_take_drops_connections:
  assumes "tcp_receiver s = Some r" and "\<not> terminated s" and "ts_rx_open s"
    and "length (ts_queue s) < CHANNEL_CAPACITY"
  defines "held \<equiv> snd (tcp_take_receiver s)"
  defines "disturbed \<equiv> snd (tcp_take_receiver held)"
  shows "ts_queue (finish_send stream (accept_connection stream held)) =
      ts_queue held @ [Request \<lparr>req_stream = stream, req_target = None\<rparr>] \<and>
    fst (tcp_take_receiver held) = Inl AlreadyTaken \<and> ts_rx_open disturbed \<and>
    accept_connection stream disturbed = disturbed"
  using assms(1-4)
  by (simp add: held_def disturbed_def tcp_take_receiver_def accept_connection_def finish_send_def)

lemma second_take_drops_connections_witness:
  "accept_connection 7 (snd (tcp_take_receiver (snd (tcp_take_receiver example_tcp)))) =
     snd (tcp_take_receiver (snd (tcp_take_receiver example_tcp)))"
  using second_take_drops_connections [of example_tcp 0 7]
  by (simp add: example_server_defs CHANNEL_CAPACITY_def)

text \<open>
  C28. The TCP listener in every state it reaches while tunnels take, use, give back and drop
  its receiver, sessions are told to quit through cloned senders and it is shut down, with a
  send of the accept loop completing any time after the flags were read: the channel never
  holds more than four messages; what the holders of the receiver took, what the channel holds and
  the connection being sent are, in this order, connections accepted while the flags said
  active and not shut down, each once and in the order of their arrival, and they are all of
  those as long as no send gave up at a full channel and the receiver was not dropped; a
  receiver that is not handed out belongs to an inactive listener with an open channel; the
  loop ends only after a shutdown or when the receiver was dropped, and, while the channel is
  open, the \<open>Quit\<close>s in it and taken from it are those sent through clones and exactly one
  more once the loop has ended.
\<close>

theorem accept_loop:
  assumes "reachable tcp_server_init tcp_server_step (s, l)"
  shows "length (ts_queue s) \<le> CHANNEL_CAPACITY \<and>
    subseq (request_streams (tl_received l @ ts_queue s) @ being_sent (ts_phase s))
      (admitted (tl_accepted l)) \<and>
    (ts_rx_open s \<and> tl_timeouts l = 0 \<longrightarrow>
       request_streams (tl_received l @ ts_queue s) @ being_sent (ts_phase s) = admitted (tl_accepted l)) \<and>
    (tcp_receiver s \<noteq> None \<longrightarrow> \<not> ts_active s \<and> ts_rx_open s) \<and>
    (ts_phase s = AcceptEnded \<longrightarrow> terminated s \<or> \<not> ts_rx_open s) \<and>
    (ts_rx_open s \<longrightarrow> quit_count (tl_received l @ ts_queue s) =
       tl_quits l + (if ts_phase s = AcceptEnded then 1 else 0))"
  using tcp_srv.reachable_inv [OF assms] by (simp add: phase_inv_def log_inv_def kept_streams_def)

text \<open>
  A listener whose holder gives the receiver back between the moment the flags were read and
  the end of the send: the connection is in the channel of an inactive listener.
\<close>

definition given_back_meanwhile :: "nat tcp_server \<times> nat tcp_log" where
  "given_back_meanwhile =
     (finish_send 5 (tcp_put_receiver 0 (accept_connection 5 (snd (tcp_take_receiver example_tcp)))),
      no_history\<lparr>tl_accepted := [(5, False, True)]\<rparr>)"

lemma given_back_reachable: "reachable tcp_server_init tcp_server_step given_back_meanwhile"
proof -
  let ?s1 = "snd (tcp_take_receiver example_tcp)"
  let ?l = "no_history\<lparr>tl_accepted := [(5, False, True)]\<rparr> :: nat tcp_log"
  have "reachable tcp_server_init tcp_server_step (example_tcp, no_history)"
    by (rule reach_init) (simp add: example_tcp_def tcp_bind_and_start_def,
        rule exI [of _ "Some (V4 localhost_v4 8080)"], simp)
  then have "reachable tcp_server_init tcp_server_step (?s1, no_history)"
    by (rule reach_step) (rule tcp_server_step.take_rx)
  then have "reachable tcp_server_init tcp_server_step (accept_connection 5 ?s1, ?l)"
    by (rule reach_step) (use tcp_server_step.accepts [of ?s1 no_history 5] in
      \<open>simp add: example_server_defs no_history_def\<close>)
  then have "reachable tcp_server_init tcp_server_step
      (tcp_put_receiver 0 (accept_connection 5 ?s1), ?l)"
    by (rule reach_step) (rule tcp_server_step.put_rx;
      simp add: accept_connection_def example_server_defs)
  then show ?thesis unfolding given_back_meanwhile_def
    by (rule reach_step) (use tcp_server_step.sends
      [of "tcp_put_receiver 0 (accept_connection 5 ?s1)" 5 ?l] in
      \<open>simp add: accept_connection_def tcp_put_receiver_def example_server_defs CHANNEL_CAPACITY_def\<close>)
qed

theorem accept_loop_witness:
  "reachable tcp_server_init tcp_server_step given_back_meanwhile \<and>
   request_streams (ts_queue (fst given_back_meanwhile)) = [5] \<and> \<not> ts_active (fst given_back_meanwhile)"
proof -
  have "ts_rx_open (fst given_back_meanwhile)" "tl_timeouts (snd given_back_meanwhile) = 0"
    "tl_received (snd given_back_meanwhile) = []" "tcp_receiver (fst given_back_meanwhile) \<noteq> None"
    "admitted (tl_accepted (snd given_back_meanwhile)) = [5]"
    "being_sent (ts_phase (fst given_back_meanwhile)) = []"
    by (simp_all add: given_back_meanwhile_def finish_send_def tcp_put_receiver_def
        accept_connection_def example_server_defs CHANNEL_CAPACITY_def no_history_def admitted_def)
  then show ?thesis
    using given_back_reachable
      accept_loop [of "fst given_back_meanwhile" "snd given_back_meanwhile"] by simp
qed

text \<open>
  The UDP socket loop answers in order: while it hands nothing over, packets queued for the
  socket are sent, each to its own address, in the order they were queued, and a \<open>Quit\<close>
  behind them stops the loop after the last one; while the listener is inactive, datagrams
  change nothing; an accepted one is cut to \<open>UDP_PACKET_SIZE\<close> bytes, is queued when the send
  ends with room in the channel, and until then no other event moves the loop.
\<close>

lemma udp_loop:
  assumes "us_running s" "us_forwarding s = None"
  shows "(in_queue s = map Packet ps @ UQuit # q \<longrightarrow>
      (let s' = (udp_iteration (InMessage True) ^^ Suc (length ps)) s
       in sent_out s' = sent_out s @ map (\<lambda>p. (local_addr p, payload p)) ps \<and>
          \<not> us_running s' \<and> in_queue s' = q)) \<and>
   (\<not> us_active s \<longrightarrow> udp_iteration (Datagram data from) s = s) \<and>
   (us_active s \<and> us_rx_open s \<and> length (out_queue s) < CHANNEL_CAPACITY \<longrightarrow>
      (\<exists>p. out_queue (udp_iteration SendDone (udp_iteration ev
             (udp_iteration (Datagram data from) s))) = out_queue s @ [Packet p] \<and>
        length (payload p) \<le> UDP_PACKET_SIZE \<and> prefix (payload p) data \<and> local_addr p = from) \<or>
      ev = SendDone)"
proof (intro conjI impI)
  show "let s' = (udp_iteration (InMessage True) ^^ Suc (length ps)) s
       in sent_out s' = sent_out s @ map (\<lambda>p. (local_addr p, payload p)) ps \<and>
          \<not> us_running s' \<and> in_queue s' = q"
    if "in_queue s = map Packet ps @ UQuit # q"
    using that assms
  proof (induction ps arbitrary: s)
    case Nil
    then show ?case by (simp add: udp_iteration_def udp_select_def)
  next
    case (Cons p ps)
    let ?t = "s\<lparr>in_queue := map Packet ps @ UQuit # q,
      sent_out := sent_out s @ [(local_addr p, payload p)]\<rparr>"
    have "udp_iteration (InMessage True) s = ?t"
      using Cons.prems by (simp add: udp_iteration_def udp_select_def)
    then show ?case using Cons.IH [of ?t] Cons.prems
      by (simp add: funpow_Suc_right del: funpow.simps)
  qed
qed (use assms in \<open>auto simp: udp_iteration_def udp_select_def udp_forward_def take_is_prefix\<close>)

lemma udp_loop_witness:
  "udp_iteration (Datagram [1, 2] (V4 0 53)) example_udp = example_udp"
  using udp_loop [of example_udp "[]" "[]" "[1, 2]" "V4 0 53" RecvFailed]
  by (simp add: example_server_defs)

end
