(* ===== verification/Config.thy ===== *)
theory Config
  imports Net_Types
begin

text \<open>
  Configuration: \<^verbatim>\<open>ClientConfig::create\<close> with its mapping and SNI parsers and the
  QUIC transport settings (\<^verbatim>\<open>src/src/lib.rs\<close>), and the command line layer of
  \<^verbatim>\<open>src/src/bin/rstun.rs\<close>. The number of CPUs, the host name classification of
  \<^verbatim>\<open>rustls\<close> and quinn's default transport settings are arguments.
\<close>

datatype config_error =
    NoMappings
  | SniIsIpLiteral string
  | SniInvalid string
  | MappingFormat
  | MappingMode
  | MappingAddr string
  | AnyLocalAddr
  | InvalidUpstream string

section \<open>Mappings\<close>

definition parse_addr :: "string \<Rightarrow> config_error + socket_addr option" where
  "parse_addr addr =
     (if addr = ''ANY'' then Inr None
      else (case parse_u16 addr of
        Some port \<Rightarrow> Inr (Some (V4 localhost_v4 port))
      | None \<Rightarrow>
          (case parse_socket_addr addr of
             Some a \<Rightarrow> Inr (Some a)
           | None \<Rightarrow> Inl (MappingAddr addr))))"

definition parse_mapping :: "upstream_type \<Rightarrow> string \<Rightarrow> config_error + tunnel_config" where
  "parse_mapping ut mapping =
     (let parts = split_on CHR ''^'' mapping in
      if length parts \<noteq> 3 then Inl MappingFormat
      else (let tunnel_mode = parts ! 0 in
        if tunnel_mode \<noteq> ''OUT'' \<and> tunnel_mode \<noteq> ''IN'' then Inl MappingMode
        else try_then (parse_addr (parts ! 1)) (\<lambda>local_addr.
          if local_addr = None then Inl AnyLocalAddr
          else try_then (parse_addr (parts ! 2)) (\<lambda>up.
            Inr \<lparr>tc_mode = (if tunnel_mode = ''IN'' then TIn else TOut),
                 local_server_addr = local_addr,
                 tc_upstream = \<lparr>upstream_addr = up, upstream_kind = ut\<rparr>\<rparr>))))"

fun push_mappings ::
    "upstream_type \<Rightarrow> string list \<Rightarrow> tunnel_config list \<Rightarrow> config_error + tunnel_config list" where
  "push_mappings ut [] v = Inr v"
| "push_mappings ut (m # ms) v =
     try_then (parse_mapping ut m) (\<lambda>c. push_mappings ut ms (v @ [c]))"

definition parse_addr_mappings ::
    "string \<Rightarrow> upstream_type \<Rightarrow> tunnel_config list \<Rightarrow> config_error + tunnel_config list" where
  "parse_addr_mappings mappings ut v =
     (if mappings = [] then Inr v else push_mappings ut (split_on CHR '','' mappings) v)"

section \<open>SNI names\<close>

text \<open>\<^verbatim>\<open>ServerName::try_from\<close>: a DNS name, an IP address, or neither.\<close>

datatype server_name = DnsName | IpAddress

fun push_sni :: "(string \<Rightarrow> server_name option) \<Rightarrow> string list \<Rightarrow> string list \<Rightarrow> config_error + string list" where
  "push_sni sn [] names = Inr names"
| "push_sni sn (raw # rest) names =
     (let name = trim raw in
      if name = [] then push_sni sn rest names
      else (case sn name of
        Some DnsName \<Rightarrow> push_sni sn rest (names @ [name])
      | Some IpAddress \<Rightarrow> Inl (SniIsIpLiteral name)
      | None \<Rightarrow> Inl (SniInvalid name)))"

definition parse_sni_names :: "(string \<Rightarrow> server_name option) \<Rightarrow> string \<Rightarrow> config_error + string list" where
  "parse_sni_names sn sni = push_sni sn (split_on CHR '','' sni) []"

section \<open>The client's configuration\<close>

record client_args =
  a_server_addr :: string
  a_password :: string
  a_tcp_mappings :: string
  a_udp_mappings :: string
  a_cert :: string
  a_workers :: usize
  a_wait_before_retry_ms :: u64
  a_quic_timeout_ms :: u64
  a_tcp_timeout_ms :: u64
  a_udp_timeout_ms :: u64
  a_heartbeat_interval_ms :: u64
  a_heartbeat_timeout_ms :: u64
  a_hop_interval_ms :: u64
  a_dot :: string
  a_dns :: string
  a_sni_names :: string
  a_zstd :: bool
  a_http :: bool
  a_zstd_level :: "32 word"
  a_zstd_window_log :: u32
  a_zstd_dict :: string
  a_zstd_pair_ttl_secs :: u64
  a_zstd_flush_interval_ms :: u64

record client_config =
  cert_path :: string
  server_addr :: string
  password :: string
  wait_before_retry_ms :: u64
  quic_timeout_ms :: u64
  tcp_timeout_ms :: u64
  udp_timeout_ms :: u64
  heartbeat_interval_ms :: u64
  heartbeat_timeout_ms :: u64
  hop_interval_ms :: u64
  tunnels :: "tunnel_config list"
  dot_servers :: "string list"
  dns_servers :: "string list"
  workers :: usize
  quic_receive_window :: u32
  stream_receive_window :: u32
  quic_send_window :: u64
  sni_names :: "string list"
  zstd :: bool
  http :: bool
  zstd_level :: "32 word"
  zstd_window_log :: u32
  zstd_dict :: string
  zstd_pair_ttl_secs :: u64
  zstd_flush_interval_ms :: u64

text \<open>The heartbeat settings after normalisation.\<close>

definition heartbeat_settings :: "u64 \<Rightarrow> u64 \<Rightarrow> u64 \<times> u64" where
  "heartbeat_settings interval timeout =
     (if interval = 0 \<and> timeout = 0 then (5000, 15000)
      else if interval = 0 \<or> timeout = 0 then (0, 0)
      else if timeout < interval then (interval, saturating_mul interval 2)
      else (interval, timeout))"

definition or_default :: "'a::len word \<Rightarrow> 'a word \<Rightarrow> 'a word" where
  "or_default d w = (if w = 0 then d else w)"

definition full_server_addr :: "string \<Rightarrow> string" where
  "full_server_addr a = (if CHR '':'' \<notin> set a then ''127.0.0.1:'' @ a else a)"

definition client_config_of ::
    "usize \<Rightarrow> client_args \<Rightarrow> u64 \<times> u64 \<Rightarrow> string list \<Rightarrow> tunnel_config list \<Rightarrow> client_config" where
  "client_config_of num_cpus a hb names ts =
     \<lparr>cert_path = a_cert a,
      server_addr = full_server_addr (a_server_addr a),
      password = a_password a,
      wait_before_retry_ms = a_wait_before_retry_ms a,
      quic_timeout_ms = or_default 30000 (a_quic_timeout_ms a),
      tcp_timeout_ms = or_default 30000 (a_tcp_timeout_ms a),
      udp_timeout_ms = or_default 5000 (a_udp_timeout_ms a),
      heartbeat_interval_ms = fst hb,
      heartbeat_timeout_ms = snd hb,
      hop_interval_ms =
      (if a_hop_interval_ms a \<noteq> 0 \<and> a_hop_interval_ms a < 5000 then 5000
      else a_hop_interval_ms a),
      tunnels = ts,
      dot_servers = split_on CHR '','' (a_dot a),
      dns_servers = split_on CHR '','' (a_dns a),
      workers = or_default num_cpus (a_workers a),
      quic_receive_window = 0, stream_receive_window = 0, quic_send_window = 0,
      sni_names = names,
      zstd = a_zstd a, http = a_http a,
      zstd_level = a_zstd_level a, zstd_window_log = a_zstd_window_log a,
      zstd_dict = a_zstd_dict a,
      zstd_pair_ttl_secs = or_default (5 * 3600) (a_zstd_pair_ttl_secs a),
      zstd_flush_interval_ms = or_default 150 (a_zstd_flush_interval_ms a)\<rparr>"

definition create ::
    "(string \<Rightarrow> server_name option) \<Rightarrow> usize \<Rightarrow> client_args \<Rightarrow> config_error + client_config" where
  "create sn num_cpus a =
     (if a_tcp_mappings a = [] \<and> a_udp_mappings a = [] then Inl NoMappings
      else try_then (parse_sni_names sn (a_sni_names a)) (\<lambda>names.
           try_then (parse_addr_mappings (a_tcp_mappings a) Tcp []) (\<lambda>tcp.
           try_then (parse_addr_mappings (a_udp_mappings a) Udp tcp) (\<lambda>ts.
             Inr (client_config_of num_cpus a
               (heartbeat_settings (a_heartbeat_interval_ms a) (a_heartbeat_timeout_ms a)) names ts)))))"

section \<open>Transport settings\<close>

datatype congestion_control = Bbr | Cubic | NewReno

record transport_config =
  tr_stream_receive_window :: u32
  tr_receive_window :: u32
  tr_send_window :: u64
  tr_max_concurrent_bidi_streams :: u32
  tr_max_idle_timeout :: "u32 option"
  tr_keep_alive_interval :: "u64 option"
  tr_congestion :: congestion_control

definition QUIC_STREAM_RECEIVE_WINDOW_BYTES :: u32 where
  "QUIC_STREAM_RECEIVE_WINDOW_BYTES = 32 * 1024 * 1024"

definition QUIC_RECEIVE_WINDOW_BYTES :: u32 where
  "QUIC_RECEIVE_WINDOW_BYTES = 64 * 1024 * 1024"

definition QUIC_SEND_WINDOW_BYTES :: u64 where
  "QUIC_SEND_WINDOW_BYTES = 64 * 1024 * 1024"

definition QUIC_MAX_CONCURRENT_BIDI_STREAMS :: u32 where
  "QUIC_MAX_CONCURRENT_BIDI_STREAMS = 1024"

text \<open>
  \<^verbatim>\<open>build_quic_transport_config\<close>, given quinn's default settings; times are in
  milliseconds. The idle timeout is the configured one cast to 32 bits.
\<close>

definition build_quic_transport_config ::
    "transport_config \<Rightarrow> u64 \<Rightarrow> u32 \<Rightarrow> u32 \<Rightarrow> u64 \<Rightarrow> transport_config" where
  "build_quic_transport_config dflt quic_timeout quic_rw stream_rw send_w =
     (let cfg = dflt
        \<lparr>tr_stream_receive_window :=
           (if 0 < stream_rw then stream_rw else QUIC_STREAM_RECEIVE_WINDOW_BYTES),
         tr_receive_window := (if 0 < quic_rw then quic_rw else QUIC_RECEIVE_WINDOW_BYTES),
         tr_send_window := (if 0 < send_w then send_w else QUIC_SEND_WINDOW_BYTES),
         tr_congestion := Bbr,
         tr_max_concurrent_bidi_streams := QUIC_MAX_CONCURRENT_BIDI_STREAMS\<rparr>
      in if 0 < quic_timeout
         then cfg\<lparr>tr_max_idle_timeout := Some (ucast quic_timeout),
                  tr_keep_alive_interval := Some (quic_timeout * 2 div 3)\<rparr>
         else cfg)"

section \<open>The server's command line\<close>

definition parse_upstreams :: "string \<Rightarrow> config_error + socket_addr option" where
  "parse_upstreams upstreams_str =
     (if upstreams_str = [] then Inr None
      else (let up = (if prefix ''0.0.0.0:'' upstreams_str
                      then replace ''0.0.0.0:'' ''127.0.0.1:'' upstreams_str else upstreams_str);
                up' = (if CHR '':'' \<notin> set up then ''127.0.0.1:'' @ upstreams_str else up)
            in case parse_socket_addr up' of
                 Some a \<Rightarrow> Inr (Some a)
               | None \<Rightarrow> Inl (InvalidUpstream upstreams_str)))"

record server_args =
  sa_addr :: string
  sa_tcp_upstream :: string
  sa_udp_upstream :: string
  sa_password :: string
  sa_cert :: string
  sa_key :: string
  sa_quic_timeout_ms :: u64
  sa_tcp_timeout_ms :: u64
  sa_udp_timeout_ms :: u64

record server_config =
  sc_addr :: string
  sc_password :: string
  sc_cert_path :: string
  sc_key_path :: string
  sc_quic_timeout_ms :: u64
  sc_tcp_timeout_ms :: u64
  sc_udp_timeout_ms :: u64
  sc_quic_receive_window :: u32
  sc_stream_receive_window :: u32
  sc_quic_send_window :: u64
  default_tcp_upstream :: "socket_addr option"
  default_udp_upstream :: "socket_addr option"

text \<open>\<^verbatim>\<open>run_server_async\<close> up to the configuration it starts the server with.\<close>

definition server_config_of :: "server_args \<Rightarrow> config_error + server_config" where
  "server_config_of a =
     (let addr = (if sa_addr a = [] then ''0.0.0.0:0'' else sa_addr a);
          addr' = (if CHR '':'' \<notin> set addr then ''127.0.0.1:'' @ addr else addr)
      in try_then (parse_upstreams (sa_tcp_upstream a)) (\<lambda>tcp.
         try_then (parse_upstreams (sa_udp_upstream a)) (\<lambda>udp.
           Inr \<lparr>sc_addr = addr', sc_password = sa_password a, sc_cert_path = sa_cert a,
                sc_key_path = sa_key a, sc_quic_timeout_ms = sa_quic_timeout_ms a,
                sc_tcp_timeout_ms = sa_tcp_timeout_ms a, sc_udp_timeout_ms = sa_udp_timeout_ms a,
                sc_quic_receive_window = 0, sc_stream_receive_window = 0, sc_quic_send_window = 0,
                default_tcp_upstream = tcp, default_udp_upstream = udp\<rparr>)))"

section \<open>Lemmas on the parsers\<close>

lemma push_mappings_Inr:
  "push_mappings ut ms v = Inr w \<longleftrightarrow>
     (\<exists>cs. w = v @ cs \<and> list_all2 (\<lambda>m c. parse_mapping ut m = Inr c) ms cs)"
proof (induction ms arbitrary: v)
  case Nil
  then show ?case by auto
next
  case (Cons m ms)
  then show ?case
    by (cases "parse_mapping ut m") (auto simp: list_all2_Cons1)
qed

lemma parse_mapping_InrD:
  "parse_mapping ut m = Inr c \<Longrightarrow>
     local_server_addr c \<noteq> None \<and> upstream_kind (tc_upstream c) = ut"
  by (auto simp: parse_mapping_def Let_def split: if_splits elim!: try_then_InrE)

lemma parse_addr_mappings_InrD:
  assumes "parse_addr_mappings s ut v = Inr w"
  obtains cs where "w = v @ cs" and "length cs = (if s = [] then 0 else Suc (count_list s CHR '',''))"
    and "\<And>c. c \<in> set cs \<Longrightarrow> local_server_addr c \<noteq> None \<and> upstream_kind (tc_upstream c) = ut"
proof (cases "s = []")
  case True
  then show ?thesis using assms that [of "[]"] by (simp add: parse_addr_mappings_def)
next
  case False
  then obtain cs where w: "w = v @ cs"
    and all: "list_all2 (\<lambda>m c. parse_mapping ut m = Inr c) (split_on CHR '','' s) cs"
    using assms by (auto simp: parse_addr_mappings_def push_mappings_Inr)
  have "length cs = Suc (count_list s CHR '','')"
    using list_all2_lengthD [OF all] by (simp add: length_split_on)
  moreover have "local_server_addr c \<noteq> None \<and> upstream_kind (tc_upstream c) = ut" if "c \<in> set cs" for c
  proof -
    from that obtain i where "i < length cs" and c: "c = cs ! i" by (auto simp: in_set_conv_nth)
    with all have "parse_mapping ut (split_on CHR '','' s ! i) = Inr c"
      by (simp add: list_all2_conv_all_nth)
    then show ?thesis by (rule parse_mapping_InrD)
  qed
  ultimately show ?thesis using that [OF w] False by simp
qed

fun join_with :: "char \<Rightarrow> string list \<Rightarrow> string" where
  "join_with c [] = []"
| "join_with c [s] = s"
| "join_with c (s # t # r) = s @ c # join_with c (t # r)"

lemma split_on_join:
  "ss \<noteq> [] \<Longrightarrow> list_all (\<lambda>s. c \<notin> set s) ss \<Longrightarrow> split_on c (join_with c ss) = ss"
  by (induction c ss rule: join_with.induct) (simp_all add: split_on_no_sep split_on_append)

definition render_mapping :: "string \<times> string \<times> string \<Rightarrow> string" where
  "render_mapping e = (case e of (mode, src, dst) \<Rightarrow> join_with CHR ''^'' [mode, src, dst])"

text \<open>The tunnel a well-formed mapping stands for.\<close>

definition entry_ok :: "string \<times> string \<times> string \<Rightarrow> bool" where
  "entry_ok e = (case e of (mode, src, dst) \<Rightarrow>
     mode \<in> {''OUT'', ''IN''} \<and> {CHR ''^'', CHR '',''} \<inter> set (src @ dst) = {} \<and>
     (\<exists>a. parse_addr src = Inr (Some a)) \<and> (\<exists>u. parse_addr dst = Inr u))"

definition entry_tunnel :: "upstream_type \<Rightarrow> string \<times> string \<times> string \<Rightarrow> tunnel_config" where
  "entry_tunnel ut e = (case e of (mode, src, dst) \<Rightarrow>
     \<lparr>tc_mode = (if mode = ''IN'' then TIn else TOut),
      local_server_addr = projr (parse_addr src),
      tc_upstream = \<lparr>upstream_addr = projr (parse_addr dst), upstream_kind = ut\<rparr>\<rparr>)"

lemma parse_mapping_render:
  assumes "entry_ok e"
  shows "parse_mapping ut (render_mapping e) = Inr (entry_tunnel ut e)" (is ?parse)
    and "CHR '','' \<notin> set (render_mapping e)" (is ?sep)
proof -
  obtain mode src dst where e: "e = (mode, src, dst)" by (cases e)
  obtain a u where a: "parse_addr src = Inr (Some a)" and u: "parse_addr dst = Inr u"
    and mode: "mode = ''OUT'' \<or> mode = ''IN''"
    and sep: "CHR ''^'' \<notin> set src" "CHR ''^'' \<notin> set dst" "CHR '','' \<notin> set src" "CHR '','' \<notin> set dst"
    using assms by (auto simp: entry_ok_def e)
  have "CHR ''^'' \<notin> set mode" using mode by auto
  then have "split_on CHR ''^'' (render_mapping e) = [mode, src, dst]"
    using sep split_on_join [of "[mode, src, dst]" "CHR ''^''"] by (simp add: render_mapping_def e)
  then show ?parse using mode a u
    by (auto simp: parse_mapping_def entry_tunnel_def e)
  show ?sep using mode sep by (auto simp: render_mapping_def e)
qed

lemma push_sni_InrD:
  "push_sni sn raws names = Inr out \<Longrightarrow>
     \<exists>new. out = names @ new \<and> (\<forall>n \<in> set new. n \<noteq> [] \<and> sn n = Some DnsName) \<and>
       new = filter (\<lambda>n. n \<noteq> []) (map trim raws)"
proof (induction raws arbitrary: names)
  case Nil
  then show ?case by simp
next
  case (Cons raw raws)
  show ?case
  proof (cases "trim raw = []")
    case True
    then show ?thesis using Cons.IH [of names] Cons.prems by (simp add: Let_def)
  next
    case False
    then have sn: "sn (trim raw) = Some DnsName"
      and "push_sni sn raws (names @ [trim raw]) = Inr out"
      using Cons.prems by (auto simp: Let_def split: option.splits server_name.splits)
    from Cons.IH [OF this(2)] obtain new where out: "out = (names @ [trim raw]) @ new"
      and dns: "\<forall>n \<in> set new. n \<noteq> [] \<and> sn n = Some DnsName"
      and new: "filter (\<lambda>n. n \<noteq> []) (map trim raws) = new"
      by blast
    show ?thesis
    proof (intro exI conjI)
      show "out = names @ trim raw # new" using out by simp
      show "\<forall>n \<in> set (trim raw # new). n \<noteq> [] \<and> sn n = Some DnsName" using dns sn False by simp
      show "trim raw # new = filter (\<lambda>n. n \<noteq> []) (map trim (raw # raws))"
        using new False by simp
    qed
  qed
qed

lemma heartbeat_settings_cases:
  "heartbeat_settings i t = (i', t') \<Longrightarrow> (i' = 0 \<longleftrightarrow> t' = 0) \<and> i' \<le> t'"
proof -
  assume h: "heartbeat_settings i t = (i', t')"
  have "unat i < 2 ^ LENGTH(64)" by (rule unsigned_less)
  then have "i \<le> saturating_mul i 2"
    by (simp add: word_le_nat_alt unat_saturating_mul)
  moreover have "i = 0 \<longleftrightarrow> saturating_mul i 2 = 0"
    by (simp add: word_unat_eq_iff [of _ 0] unat_saturating_mul min_def)
  ultimately show ?thesis using h
    by (auto simp: heartbeat_settings_def split: if_splits)
qed

section \<open>Properties\<close>

lemma push_rendered:
  "list_all entry_ok es \<Longrightarrow>
     push_mappings ut (map render_mapping es) v = Inr (v @ map (entry_tunnel ut) es)"
  by (induction es arbitrary: v) (simp_all add: parse_mapping_render(1))

text \<open>
  Every list of well-formed mappings is accepted and means what it says: for each
  \<open>MODE^SRC^DEST\<close> entry, in order, one tunnel is appended with that mode, the local
  address \<open>SRC\<close> and the upstream \<open>DEST\<close>, where a bare port is a loopback address and
  \<open>ANY\<close> leaves the upstream to the server.
\<close>

lemma mappings_accepted:
  assumes "es \<noteq> []" and "list_all entry_ok es"
  shows "parse_addr_mappings (join_with CHR '','' (map render_mapping es)) ut v =
    Inr (v @ map (entry_tunnel ut) es)"
proof -
  have "list_all (\<lambda>m. CHR '','' \<notin> set m) (map render_mapping es)"
    using assms(2) parse_mapping_render(2) by (auto simp: list_all_iff)
  then have split: "split_on CHR '','' (join_with CHR '','' (map render_mapping es)) = map render_mapping es"
    using assms(1) by (intro split_on_join) simp_all
  have "split_on CHR '','' [] \<noteq> map render_mapping es"
    using assms by (cases es) (auto simp: render_mapping_def entry_ok_def split: prod.splits)
  then have "join_with CHR '','' (map render_mapping es) \<noteq> []" using split by metis
  then show ?thesis
    by (simp add: parse_addr_mappings_def split push_rendered [OF assms(2)])
qed

lemmas parse_num_defs = parse_u16_def parse_uint_def digits_value_def to_digit_def

lemma example_entry: "entry_ok (''IN'', ''8080'', ''9090'') \<and> entry_ok (''OUT'', ''53'', ''ANY'')"
  by (simp add: entry_ok_def parse_addr_def parse_num_defs)

lemma mappings_accepted_witness:
  "parse_addr_mappings (join_with CHR '','' (map render_mapping
      [(''IN'', ''8080'', ''9090''), (''OUT'', ''53'', ''ANY'')])) Tcp [] =
    Inr ([] @ map (entry_tunnel Tcp) [(''IN'', ''8080'', ''9090''), (''OUT'', ''53'', ''ANY'')])"
  by (rule mappings_accepted) (use example_entry in simp_all)

lemma or_default_nonzero [simp]: "d \<noteq> 0 \<Longrightarrow> or_default d w \<noteq> 0"
  by (simp add: or_default_def)

lemma client_config_of_sel:
  "tunnels (client_config_of n a hb names ts) = ts"
  "sni_names (client_config_of n a hb names ts) = names"
  "heartbeat_interval_ms (client_config_of n a hb names ts) = fst hb"
  "heartbeat_timeout_ms (client_config_of n a hb names ts) = snd hb"
  "quic_timeout_ms (client_config_of n a hb names ts) = or_default 30000 (a_quic_timeout_ms a)"
  "tcp_timeout_ms (client_config_of n a hb names ts) = or_default 30000 (a_tcp_timeout_ms a)"
  "udp_timeout_ms (client_config_of n a hb names ts) = or_default 5000 (a_udp_timeout_ms a)"
  "hop_interval_ms (client_config_of n a hb names ts) =
     (if a_hop_interval_ms a \<noteq> 0 \<and> a_hop_interval_ms a < 5000 then 5000 else a_hop_interval_ms a)"
  "server_addr (client_config_of n a hb names ts) = full_server_addr (a_server_addr a)"
  "zstd_pair_ttl_secs (client_config_of n a hb names ts) = or_default (5 * 3600) (a_zstd_pair_ttl_secs a)"
  "zstd_flush_interval_ms (client_config_of n a hb names ts) = or_default 150 (a_zstd_flush_interval_ms a)"
  by (simp_all only: client_config_of_def client_config.select_convs)

lemma create_InrE:
  assumes "create sn num_cpus a = Inr c"
  obtains names tcp ts where "a_tcp_mappings a \<noteq> [] \<or> a_udp_mappings a \<noteq> []"
    and "parse_sni_names sn (a_sni_names a) = Inr names"
    and "parse_addr_mappings (a_tcp_mappings a) Tcp [] = Inr tcp"
    and "parse_addr_mappings (a_udp_mappings a) Udp tcp = Inr ts"
    and "c = client_config_of num_cpus a
      (heartbeat_settings (a_heartbeat_interval_ms a) (a_heartbeat_timeout_ms a)) names ts"
proof (cases "a_tcp_mappings a = [] \<and> a_udp_mappings a = []")
  case True
  then show ?thesis using assms by (simp add: create_def)
next
  case False
  then show ?thesis using assms that unfolding create_def
    by (auto elim!: try_then_InrE)
qed

text \<open>
  C30. What every configuration \<open>create\<close> returns satisfies. There is a tunnel, each has a
  local address; the QUIC, TCP and UDP timeouts, the pair lifetime and the flush interval
  are not zero; the heartbeat is either off (both values zero) or its timeout is at least
  its interval, and asking for zero in both values does not switch it off but selects 5 and
  15 seconds; endpoint migration is off or at most every five seconds; the server address
  has a port separator, where an address without one is taken for a port on the loopback
  interface; the SNI names are non-empty DNS names.
\<close>

theorem create_normalised:
  assumes "create sn num_cpus a = Inr c"
  shows "tunnels c \<noteq> [] \<and> (\<forall>t \<in> set (tunnels c). local_server_addr t \<noteq> None) \<and>
    quic_timeout_ms c \<noteq> 0 \<and> tcp_timeout_ms c \<noteq> 0 \<and> udp_timeout_ms c \<noteq> 0 \<and>
    zstd_pair_ttl_secs c \<noteq> 0 \<and> zstd_flush_interval_ms c \<noteq> 0 \<and>
    (heartbeat_interval_ms c = 0 \<longleftrightarrow> heartbeat_timeout_ms c = 0) \<and>
    heartbeat_interval_ms c \<le> heartbeat_timeout_ms c \<and>
    (a_heartbeat_interval_ms a = 0 \<and> a_heartbeat_timeout_ms a = 0 \<longrightarrow>
       heartbeat_interval_ms c = 5000 \<and> heartbeat_timeout_ms c = 15000) \<and>
    (hop_interval_ms c = 0 \<or> 5000 \<le> hop_interval_ms c) \<and>
    CHR '':'' \<in> set (server_addr c) \<and>
    (CHR '':'' \<notin> set (a_server_addr a) \<longrightarrow> server_addr c = ''127.0.0.1:'' @ a_server_addr a) \<and>
    (\<forall>n \<in> set (sni_names c). n \<noteq> [] \<and> sn n = Some DnsName)"
proof -
  let ?hb = "heartbeat_settings (a_heartbeat_interval_ms a) (a_heartbeat_timeout_ms a)"
  obtain hi ht where hb: "?hb = (hi, ht)" by fastforce
  obtain names tcp ts where m: "a_tcp_mappings a \<noteq> [] \<or> a_udp_mappings a \<noteq> []"
    and names: "parse_sni_names sn (a_sni_names a) = Inr names"
    and tcp: "parse_addr_mappings (a_tcp_mappings a) Tcp [] = Inr tcp"
    and udp: "parse_addr_mappings (a_udp_mappings a) Udp tcp = Inr ts"
    and c: "c = client_config_of num_cpus a ?hb names ts"
    using create_InrE [OF assms] by blast
  obtain cs where cs: "tcp = [] @ cs"
    "length cs = (if a_tcp_mappings a = [] then 0 else Suc (count_list (a_tcp_mappings a) CHR '',''))"
    "\<And>t. t \<in> set cs \<Longrightarrow> local_server_addr t \<noteq> None \<and> upstream_kind (tc_upstream t) = Tcp"
    using parse_addr_mappings_InrD [OF tcp] by blast
  obtain ds where ds: "ts = tcp @ ds"
    "length ds = (if a_udp_mappings a = [] then 0 else Suc (count_list (a_udp_mappings a) CHR '',''))"
    "\<And>t. t \<in> set ds \<Longrightarrow> local_server_addr t \<noteq> None \<and> upstream_kind (tc_upstream t) = Udp"
    using parse_addr_mappings_InrD [OF udp] by blast
  have "length ts \<noteq> 0" using cs(1,2) ds(1,2) m by auto
  then have "ts \<noteq> []" by simp
  moreover have "\<forall>t \<in> set ts. local_server_addr t \<noteq> None" using cs(1,3) ds(1,3) by auto
  moreover have "(hi = 0 \<longleftrightarrow> ht = 0) \<and> hi \<le> ht" by (rule heartbeat_settings_cases [OF hb])
  moreover have "a_heartbeat_interval_ms a = 0 \<and> a_heartbeat_timeout_ms a = 0 \<longrightarrow> hi = 5000 \<and> ht = 15000"
    using hb by (auto simp: heartbeat_settings_def)
  moreover have "\<forall>n \<in> set names. n \<noteq> [] \<and> sn n = Some DnsName"
    using push_sni_InrD [OF names [unfolded parse_sni_names_def]] by (metis append_Nil)
  moreover have "hop_interval_ms c = 0 \<or> 5000 \<le> hop_interval_ms c"
    unfolding c client_config_of_sel by (simp add: not_less)
  moreover have "CHR '':'' \<in> set (server_addr c)"
    "CHR '':'' \<notin> set (a_server_addr a) \<longrightarrow> server_addr c = ''127.0.0.1:'' @ a_server_addr a"
    unfolding c client_config_of_sel full_server_addr_def by simp_all
  moreover have eq: "tunnels c = ts" "sni_names c = names" "heartbeat_interval_ms c = hi"
      "heartbeat_timeout_ms c = ht"
    and "quic_timeout_ms c \<noteq> 0" "tcp_timeout_ms c \<noteq> 0" "udp_timeout_ms c \<noteq> 0"
      "zstd_pair_ttl_secs c \<noteq> 0" "zstd_flush_interval_ms c \<noteq> 0"
    unfolding c client_config_of_sel hb by simp_all
  ultimately show ?thesis unfolding eq by blast
qed

definition example_args :: client_args where
  "example_args =
     \<lparr>a_server_addr = ''3515'', a_password = ''pw'', a_tcp_mappings = ''OUT^8080^ANY'',
      a_udp_mappings = [], a_cert = [], a_workers = 0, a_wait_before_retry_ms = 5000,
      a_quic_timeout_ms = 0, a_tcp_timeout_ms = 0, a_udp_timeout_ms = 0,
      a_heartbeat_interval_ms = 0, a_heartbeat_timeout_ms = 0, a_hop_interval_ms = 10,
      a_dot = [], a_dns = [], a_sni_names = [], a_zstd = False, a_http = False,
      a_zstd_level = 9, a_zstd_window_log = 24, a_zstd_dict = [],
      a_zstd_pair_ttl_secs = 0, a_zstd_flush_interval_ms = 0\<rparr>"

lemma trim_Nil [simp]: "trim [] = []"
proof -
  have "strip_one ws [] = None" for ws
    using find_None_iff [of "\<lambda>w. w \<noteq> [] \<and> [] = w" ws] by (auto simp: strip_one_def)
  then show ?thesis by (simp add: trim_def strip_all_stop)
qed

lemma example_create:
  "\<exists>c. create (\<lambda>_. Some DnsName) 4 example_args = Inr c"
  by (simp add: create_def example_args_def parse_sni_names_def parse_addr_mappings_def
      parse_mapping_def parse_addr_def parse_num_defs)

theorem create_normalised_witness:
  "\<exists>c. create (\<lambda>_. Some DnsName) 4 example_args = Inr c \<and> tunnels c \<noteq> [] \<and>
     heartbeat_interval_ms c = 5000 \<and> hop_interval_ms c \<noteq> 10 \<and> server_addr c = ''127.0.0.1:3515''"
proof -
  from example_create obtain c where c: "create (\<lambda>_. Some DnsName) 4 example_args = Inr c" ..
  have "a_heartbeat_interval_ms example_args = 0" "a_heartbeat_timeout_ms example_args = 0"
    "a_server_addr example_args = ''3515''" "CHR '':'' \<notin> set ''3515''"
    by (simp_all add: example_args_def)
  moreover have "(10 :: u64) \<noteq> 0 \<and> \<not> 5000 \<le> (10 :: u64)" by simp
  ultimately show ?thesis using create_normalised [OF c] c by (intro exI [of _ c]) force
qed

text \<open>
  C33. The QUIC timers. The idle timeout is the configured one modulo \<open>2 ^ 32\<close>: below
  \<open>2 ^ 32\<close> milliseconds it is exact and the keep-alive interval is two thirds of it, so
  smaller than the idle timeout; at \<open>2 ^ 32\<close> the idle timeout becomes zero. The windows
  are the configured ones or the defaults, never zero.
\<close>

theorem transport_timers:
  fixes q :: u64 and dflt :: transport_config and rw srw :: u32 and sw :: u64
  defines "cfg \<equiv> \<lambda>q. build_quic_transport_config dflt q rw srw sw"
  shows "(0 < q \<longrightarrow> (\<exists>idle. tr_max_idle_timeout (cfg q) = Some idle \<and> unat idle = unat q mod 2 ^ 32)) \<and>
    (0 < q \<and> unat q < 2 ^ 32 \<longrightarrow> (\<exists>idle ka. tr_max_idle_timeout (cfg q) = Some idle \<and>
       tr_keep_alive_interval (cfg q) = Some ka \<and> unat ka = unat q * 2 div 3 \<and> unat ka < unat idle)) \<and>
    tr_max_idle_timeout (cfg (2 ^ 32)) = Some 0 \<and>
    tr_receive_window (cfg q) \<noteq> 0 \<and> tr_stream_receive_window (cfg q) \<noteq> 0 \<and> tr_send_window (cfg q) \<noteq> 0"
proof -
  have idle: "tr_max_idle_timeout (cfg q) = Some (ucast q)"
    and ka: "tr_keep_alive_interval (cfg q) = Some (q * 2 div 3)" if "0 < q" for q
    using that by (simp_all add: cfg_def build_quic_transport_config_def Let_def)
  have uc: "unat (ucast q :: u32) = unat q mod 2 ^ 32" for q :: u64
    by (simp add: unsigned_ucast_eq take_bit_eq_mod)
  have k: "unat (q * 2 div 3) = unat q * 2 div 3" if "unat q < 2 ^ 32"
  proof -
    have "unat (q * 2) = unat q * 2" using that by (simp add: unat_word_ariths)
    then show ?thesis by (simp add: unat_div)
  qed
  have w: "tr_receive_window (cfg q) \<noteq> 0" "tr_stream_receive_window (cfg q) \<noteq> 0"
    "tr_send_window (cfg q) \<noteq> 0" for q
    by (simp_all add: cfg_def build_quic_transport_config_def Let_def word_gt_0
        QUIC_RECEIVE_WINDOW_BYTES_def QUIC_STREAM_RECEIVE_WINDOW_BYTES_def QUIC_SEND_WINDOW_BYTES_def)
  have "tr_max_idle_timeout (cfg (2 ^ 32)) = Some 0" using idle [of "2 ^ 32"] by simp
  moreover have "\<exists>i. tr_max_idle_timeout (cfg q) = Some i \<and> unat i = unat q mod 2 ^ 32" if "0 < q"
    using idle [OF that] uc by blast
  moreover have "\<exists>i ka. tr_max_idle_timeout (cfg q) = Some i \<and> tr_keep_alive_interval (cfg q) = Some ka \<and>
      unat ka = unat q * 2 div 3 \<and> unat ka < unat i" if "0 < q" "unat q < 2 ^ 32"
  proof -
    have "0 < unat q" using that(1) by (simp add: word_less_nat_alt)
    then have "unat q * 2 div 3 < unat (ucast q :: u32)" unfolding uc using that(2) by simp
    then show ?thesis using idle [OF that(1)] ka [OF that(1)] k [OF that(2)] by simp
  qed
  ultimately show ?thesis using w by blast
qed

theorem transport_timers_witness:
  "\<exists>idle ka. tr_max_idle_timeout (build_quic_transport_config
      \<lparr>tr_stream_receive_window = 1, tr_receive_window = 1, tr_send_window = 1,
       tr_max_concurrent_bidi_streams = 100, tr_max_idle_timeout = Some 30000,
       tr_keep_alive_interval = None, tr_congestion = Cubic\<rparr> 30000 0 0 0) = Some idle \<and>
     tr_keep_alive_interval (build_quic_transport_config
      \<lparr>tr_stream_receive_window = 1, tr_receive_window = 1, tr_send_window = 1,
       tr_max_concurrent_bidi_streams = 100, tr_max_idle_timeout = Some 30000,
       tr_keep_alive_interval = None, tr_congestion = Cubic\<rparr> 30000 0 0 0) = Some ka \<and>
     unat ka = unat (30000 :: u64) * 2 div 3 \<and> unat ka < unat idle"
proof -
  have "0 < (30000 :: u64) \<and> unat (30000 :: u64) < 2 ^ 32" by simp
  then show ?thesis using transport_timers [of 30000] by blast
qed

end
