(* ===== verification/Stream_Util.thy ===== *)
theory Stream_Util
  imports Net_Types
begin

text \<open>
  \<^verbatim>\<open>src/src/util/stream_util.rs\<close>: the wire format of a stream's destination
  (\<open>encode_tunnel_target\<close> and its readers), one iteration of each copy direction
  (\<open>stream_to_quic\<close>, \<open>quic_to_stream\<close>) and the pair of relay tasks that
  \<open>start_flowing\<close> spawns with their two one-shot channels.
\<close>

section \<open>The destination of a stream on the wire\<close>

datatype transfer_error =
  InternalError | InvalidIPAddress | InvalidIPFamily | InvalidDomain | TimeoutError

datatype encode_error = InvalidDomainLength nat

definition encode_tunnel_target ::
    "tunnel_target option \<Rightarrow> bool \<Rightarrow> encode_error + bytes option" where
  "encode_tunnel_target target mark_none =
     (case target of
        Some (Addr (V4 ip port)) \<Rightarrow> Inr (Some (4 # to_be_bytes ip @ to_be_bytes port))
      | Some (Addr (V6 ip port _ _)) \<Rightarrow> Inr (Some (6 # to_be_bytes ip @ to_be_bytes port))
      | Some (Domain host port) \<Rightarrow>
          (let host_bytes = as_bytes host
           in if host_bytes = [] \<or> 255 < length host_bytes
              then Inl (InvalidDomainLength (length host_bytes))
              else Inr (Some (3 # word_of_nat (length host_bytes) # host_bytes @ to_be_bytes port)))
      | None \<Rightarrow> if mark_none then Inr (Some [0]) else Inr None)"

text \<open>\<^verbatim>\<open>write_tunnel_target\<close>: an encoding error, or a failed write, is returned.\<close>

definition write_tunnel_target ::
    "sink \<Rightarrow> tunnel_target option \<Rightarrow> bool \<Rightarrow> (encode_error option + unit) \<times> sink" where
  "write_tunnel_target quic_send target mark_none =
     (case encode_tunnel_target target mark_none of
        Inl e \<Rightarrow> (Inl (Some e), quic_send)
      | Inr None \<Rightarrow> (Inr (), quic_send)
      | Inr (Some buf) \<Rightarrow>
          (case write_all buf quic_send of
             (True, k) \<Rightarrow> (Inr (), k)
           | (False, k) \<Rightarrow> (Inl None, k)))"

text \<open>
  Every read of the parser is a \<^verbatim>\<open>read_exact\<close> under a timeout of its own.
\<close>

fun timed_error :: "read_error \<Rightarrow> transfer_error" where
  "timed_error Pending = TimeoutError"
| "timed_error UnexpectedEof = InternalError"

definition timed_read :: "nat \<Rightarrow> instream \<Rightarrow> transfer_error + bytes \<times> instream" where
  "timed_read n s = map_err timed_error (read_exact n s)"

definition read_target_family :: "instream \<Rightarrow> transfer_error + u8 \<times> instream" where
  "read_target_family s = try_then (timed_read 1 s) (\<lambda>(bs, s'). Inr (bs ! 0, s'))"

definition read_tunnel_target_body ::
    "u8 \<Rightarrow> instream \<Rightarrow> transfer_error + tunnel_target \<times> instream" where
  "read_tunnel_target_body family s =
     (if family = 4 then
        try_then (timed_read (4 + 2) s) (\<lambda>(buf, s').
          Inr (Addr (V4 (from_be_bytes (take 4 buf)) (from_be_bytes (drop 4 buf))), s'))
      else if family = 6 then
        try_then (timed_read (16 + 2) s) (\<lambda>(buf, s').
          Inr (Addr (V6 (from_be_bytes (take 16 buf)) (from_be_bytes (drop 16 buf)) 0 0), s'))
      else if family = 3 then
        try_then (timed_read 1 s) (\<lambda>(len, s1).
          let host_len = unat (len ! 0)
          in if host_len = 0 then Inl InvalidDomain
             else try_then (timed_read (host_len + 2) s1) (\<lambda>(buf, s2).
               case from_utf8 (take host_len buf) of
                 None \<Rightarrow> Inl InvalidDomain
               | Some host \<Rightarrow> Inr (Domain host (from_be_bytes (drop host_len buf)), s2)))
      else Inl InvalidIPFamily)"

definition read_tunnel_target :: "instream \<Rightarrow> transfer_error + tunnel_target \<times> instream" where
  "read_tunnel_target s =
     try_then (read_target_family s) (\<lambda>(family, s1). read_tunnel_target_body family s1)"

definition read_optional_tunnel_target ::
    "instream \<Rightarrow> transfer_error + tunnel_target option \<times> instream" where
  "read_optional_tunnel_target s =
     try_then (read_target_family s) (\<lambda>(family, s1).
       if family = 0 then Inr (None, s1)
       else try_then (read_tunnel_target_body family s1) (\<lambda>(t, s2). Inr (Some t, s2)))"

lemmas read_target_defs =
  read_tunnel_target_def read_tunnel_target_body_def read_target_family_def timed_read_def
  read_exact_def tail_error_def

section \<open>One iteration of each copy direction\<close>

text \<open>
  What one timed read of the source half gives: bytes (at most the buffer), the end of
  the stream, an error, or the elapsed timer. The result of an iteration carries the
  number of bytes it moved.
\<close>

datatype read_event = Data bytes | Eof | ReadErr | Elapsed

definition stream_to_quic ::
    "read_event \<Rightarrow> sink \<Rightarrow> u64 \<Rightarrow> (transfer_error + nat) \<times> sink \<times> u64" where
  "stream_to_quic ev quic_send transfer_bytes =
     (case ev of
        Elapsed \<Rightarrow> (Inl TimeoutError, quic_send, transfer_bytes)
      | ReadErr \<Rightarrow> (Inl InternalError, quic_send, transfer_bytes)
      | Eof \<Rightarrow> (if finished quic_send then (Inl InternalError, quic_send, transfer_bytes)
                else (Inr 0, quic_send\<lparr>finished := True\<rparr>, transfer_bytes))
      | Data bs \<Rightarrow>
          if bs = [] then
            (if finished quic_send then (Inl InternalError, quic_send, transfer_bytes)
             else (Inr 0, quic_send\<lparr>finished := True\<rparr>, transfer_bytes))
          else (case write_all bs quic_send of
                  (True, k) \<Rightarrow> (Inr (length bs), k, transfer_bytes + word_of_nat (length bs))
                | (False, k) \<Rightarrow> (Inl InternalError, k, transfer_bytes + word_of_nat (length bs))))"

text \<open>
  \<^verbatim>\<open>quic_to_stream\<close> tells the end of the QUIC stream (\<open>None\<close>, here
  \<open>Eof\<close>) from a read of no bytes, which moves nothing and does not shut the stream down.
\<close>

definition quic_to_stream ::
    "read_event \<Rightarrow> sink \<Rightarrow> u64 \<Rightarrow> (transfer_error + nat) \<times> sink \<times> u64" where
  "quic_to_stream ev stream_write transfer_bytes =
     (case ev of
        Elapsed \<Rightarrow> (Inl TimeoutError, stream_write, transfer_bytes)
      | ReadErr \<Rightarrow> (Inl InternalError, stream_write, transfer_bytes)
      | Eof \<Rightarrow> (if budget stream_write = Some 0
                then (Inl InternalError, stream_write, transfer_bytes)
                else (Inr 0, stream_write\<lparr>finished := True\<rparr>, transfer_bytes))
      | Data bs \<Rightarrow>
          (case write_all bs stream_write of
             (True, k) \<Rightarrow> (Inr (length bs), k, transfer_bytes + word_of_nat (length bs))
           | (False, k) \<Rightarrow> (Inl InternalError, k, transfer_bytes + word_of_nat (length bs))))"

section \<open>The two relay tasks of a stream\<close>

text \<open>
  A task loops, or waits for the other task's one-shot message after its own read timed
  out, or has ended. \<open>sent\<close> is its own one-shot sender having fired; a sender dropped by
  a task that ended wakes the receiver as well.
\<close>

datatype task_phase = Looping | Waiting | Ended

record relay_task =
  out :: sink
  transferred :: u64
  phase :: task_phase
  sent :: bool

definition relay_iteration ::
    "(read_event \<Rightarrow> sink \<Rightarrow> u64 \<Rightarrow> (transfer_error + nat) \<times> sink \<times> u64) \<Rightarrow>
     read_event \<Rightarrow> relay_task \<Rightarrow> relay_task" where
  "relay_iteration copy ev t =
     (case copy ev (out t) (transferred t) of
        (result, k, n) \<Rightarrow>
          (let t' = t\<lparr>out := k, transferred := n\<rparr>
           in case result of
                Inl TimeoutError \<Rightarrow> t'\<lparr>phase := Waiting, sent := True\<rparr>
              | Inl _ \<Rightarrow> t'\<lparr>phase := Ended, sent := True\<rparr>
              | Inr 0 \<Rightarrow> t'\<lparr>phase := Ended, sent := True\<rparr>
              | Inr (Suc _) \<Rightarrow> t'))"

text \<open>The whole life of one task on the reads it performs, until it stops looping.\<close>

fun relay_run ::
    "(read_event \<Rightarrow> sink \<Rightarrow> u64 \<Rightarrow> (transfer_error + nat) \<times> sink \<times> u64) \<Rightarrow>
     read_event list \<Rightarrow> relay_task \<Rightarrow> relay_task" where
  "relay_run copy [] t = t"
| "relay_run copy (ev # evs) t =
     (if phase t = Looping then relay_run copy evs (relay_iteration copy ev t) else t)"

text \<open>
  A task that waits ends once the other one has signalled or is gone; and what the peer of a
  QUIC stream gets in the end: the task that ended has dropped its send half, which finishes
  the stream if nothing else did.
\<close>

definition woken :: "bool \<Rightarrow> relay_task \<Rightarrow> relay_task" where
  "woken other t = (if phase t = Waiting \<and> other then t\<lparr>phase := Ended\<rparr> else t)"

definition quic_half :: "relay_task \<Rightarrow> sink" where
  "quic_half t = (if phase t = Ended then (out t)\<lparr>finished := True\<rparr> else out t)"

record flow =
  q2s :: relay_task
  s2q :: relay_task

definition new_relay :: "sink \<Rightarrow> relay_task" where
  "new_relay k = \<lparr>out = k, transferred = 0, phase = Looping, sent = False\<rparr>"

text \<open>
  \<^verbatim>\<open>start_flowing\<close>: nothing is spawned when the stream has no peer address.
\<close>

definition start_flowing :: "socket_addr option \<Rightarrow> sink \<Rightarrow> sink \<Rightarrow> flow option" where
  "start_flowing peer_addr stream_write quic_send =
     (case peer_addr of
        None \<Rightarrow> None
      | Some _ \<Rightarrow> Some \<lparr>q2s = new_relay stream_write, s2q = new_relay quic_send\<rparr>)"

inductive flow_step :: "flow \<Rightarrow> flow \<Rightarrow> bool" where
  q2s_iterate: "phase (q2s f) = Looping \<Longrightarrow>
     flow_step f (f\<lparr>q2s := relay_iteration quic_to_stream ev (q2s f)\<rparr>)"
| s2q_iterate: "phase (s2q f) = Looping \<Longrightarrow>
     flow_step f (f\<lparr>s2q := relay_iteration stream_to_quic ev (s2q f)\<rparr>)"
| q2s_wake: "phase (q2s f) = Waiting \<Longrightarrow> sent (s2q f) \<or> phase (s2q f) = Ended \<Longrightarrow>
     flow_step f (f\<lparr>q2s := (q2s f)\<lparr>phase := Ended\<rparr>\<rparr>)"
| s2q_wake: "phase (s2q f) = Waiting \<Longrightarrow> sent (q2s f) \<or> phase (q2s f) = Ended \<Longrightarrow>
     flow_step f (f\<lparr>s2q := (s2q f)\<lparr>phase := Ended\<rparr>\<rparr>)"

inductive_cases flow_stepE: "flow_step f g"

section \<open>The wire format\<close>

text \<open>What a decoded target keeps: the flow label and the scope of an IPv6 address are not sent.\<close>

fun wire_target :: "tunnel_target \<Rightarrow> tunnel_target" where
  "wire_target (Addr (V6 ip port _ _)) = Addr (V6 ip port 0 0)"
| "wire_target t = t"

fun sendable :: "tunnel_target \<Rightarrow> bool" where
  "sendable (Addr _) = True"
| "sendable (Domain host _) = (host \<noteq> [] \<and> length host \<le> 255 \<and> valid_string host)"

lemma timed_read_append [simp]:
  "length xs = n \<Longrightarrow> timed_read n \<lparr>avail = xs @ rest, tail_of = t\<rparr> =
     Inr (xs, \<lparr>avail = rest, tail_of = t\<rparr>)"
  by (simp add: timed_read_def)

lemma timed_read_short:
  "length (avail s) < n \<Longrightarrow> timed_read n s = Inl (timed_error (tail_error (tail_of s)))"
  by (simp add: timed_read_def read_exact_short)

lemma timed_read_InrD:
  "timed_read n s = Inr (xs, s') \<Longrightarrow>
     avail s = xs @ avail s' \<and> length xs = n \<and> tail_of s' = tail_of s"
  by (cases "read_exact n s") (auto simp: timed_read_def dest: read_exact_InrD)

lemma read_target_family_Cons [simp]:
  "read_target_family \<lparr>avail = b # rest, tail_of = t\<rparr> = Inr (b, \<lparr>avail = rest, tail_of = t\<rparr>)"
  using timed_read_append [of "[b]" 1 rest t] by (simp add: read_target_family_def)

lemma read_body_v4:
  "read_tunnel_target_body 4 \<lparr>avail = to_be_bytes ip @ to_be_bytes port @ rest, tail_of = t\<rparr> =
     Inr (Addr (V4 ip port), \<lparr>avail = rest, tail_of = t\<rparr>)"
  using timed_read_append [of "to_be_bytes ip @ to_be_bytes port" 6 rest t]
  by (simp add: read_tunnel_target_body_def length_to_be_bytes)

lemma read_body_v6:
  "read_tunnel_target_body 6 \<lparr>avail = to_be_bytes ip @ to_be_bytes port @ rest, tail_of = t\<rparr> =
     Inr (Addr (V6 ip port 0 0), \<lparr>avail = rest, tail_of = t\<rparr>)"
  using timed_read_append [of "to_be_bytes ip @ to_be_bytes port" 18 rest t]
  by (simp add: read_tunnel_target_body_def length_to_be_bytes)

lemma unat_byte_of_nat [simp]: "n \<le> 255 \<Longrightarrow> unat (word_of_nat n :: u8) = n"
  by (simp add: unat_of_nat)

lemma read_body_domain:
  assumes "sendable (Domain host port)"
  shows "read_tunnel_target_body 3
      \<lparr>avail = word_of_nat (length host) # as_bytes host @ to_be_bytes port @ rest, tail_of = t\<rparr> =
     Inr (Domain host port, \<lparr>avail = rest, tail_of = t\<rparr>)"
  using assms
    timed_read_append [of "[word_of_nat (length host)]" 1 "as_bytes host @ to_be_bytes port @ rest" t]
    timed_read_append [of "as_bytes host @ to_be_bytes port" "length host + 2" rest t]
  by (simp add: read_tunnel_target_body_def length_to_be_bytes Let_def)

definition target_frame :: "tunnel_target option \<Rightarrow> bytes" where
  "target_frame target =
     (case target of
        None \<Rightarrow> [0]
      | Some (Addr (V4 ip port)) \<Rightarrow> 4 # to_be_bytes ip @ to_be_bytes port
      | Some (Addr (V6 ip port _ _)) \<Rightarrow> 6 # to_be_bytes ip @ to_be_bytes port
      | Some (Domain host port) \<Rightarrow>
          3 # word_of_nat (length host) # as_bytes host @ to_be_bytes port)"

abbreviation sendable_opt :: "tunnel_target option \<Rightarrow> bool" where
  "sendable_opt target \<equiv> pred_option sendable target"

lemma encode_is_frame:
  "sendable_opt target \<Longrightarrow> encode_tunnel_target target True = Inr (Some (target_frame target))"
  by (auto simp: encode_tunnel_target_def target_frame_def Let_def
      split: option.splits tunnel_target.splits socket_addr.splits)

lemma encode_mark_none: "encode_tunnel_target (Some t) m = encode_tunnel_target (Some t) True"
  by (simp add: encode_tunnel_target_def)

lemma read_target_frame:
  "sendable x \<Longrightarrow> read_tunnel_target \<lparr>avail = target_frame (Some x) @ rest, tail_of = t\<rparr> =
     Inr (wire_target x, \<lparr>avail = rest, tail_of = t\<rparr>)"
  by (cases x rule: wire_target.cases)
    (simp_all add: target_frame_def read_tunnel_target_def read_body_v4 read_body_v6
      read_body_domain)

lemma read_optional_target_frame:
  "sendable_opt x \<Longrightarrow> read_optional_tunnel_target \<lparr>avail = target_frame x @ rest, tail_of = t\<rparr> =
     Inr (map_option wire_target x, \<lparr>avail = rest, tail_of = t\<rparr>)"
  by (cases x; cases "the x" rule: wire_target.cases)
    (simp_all add: target_frame_def read_optional_tunnel_target_def read_body_v4 read_body_v6
      read_body_domain)

definition decode_target :: "bytes \<Rightarrow> (tunnel_target option \<times> bytes) option" where
  "decode_target bs =
     (case read_optional_tunnel_target \<lparr>avail = bs, tail_of = Closed\<rparr> of
        Inl _ \<Rightarrow> None
      | Inr (t, s) \<Rightarrow> Some (t, avail s))"

interpretation target_wire: wire_format target_frame decode_target
  "\<lambda>x. sendable_opt x \<and> map_option wire_target x = x"
  by unfold_locales (simp add: decode_target_def read_optional_target_frame)

lemma read_body_InrD:
  assumes "read_tunnel_target_body family s = Inr (t, s')"
  shows "family # avail s = target_frame (Some t) @ avail s' \<and> tail_of s' = tail_of s \<and> sendable t"
proof -
  consider "family = 4" | "family = 6" | "family = 3"
    using assms by (auto simp: read_tunnel_target_body_def split: if_splits)
  then show ?thesis
  proof cases
    case 1
    then obtain buf where "timed_read 6 s = Inr (buf, s')"
      and "t = Addr (V4 (from_be_bytes (take 4 buf)) (from_be_bytes (drop 4 buf)))"
      using assms by (auto simp: read_tunnel_target_body_def elim!: try_then_InrE)
    with 1 show ?thesis by (auto simp: target_frame_def dest!: timed_read_InrD)
  next
    case 2
    then obtain buf where "timed_read 18 s = Inr (buf, s')"
      and "t = Addr (V6 (from_be_bytes (take 16 buf)) (from_be_bytes (drop 16 buf)) 0 0)"
      using assms by (auto simp: read_tunnel_target_body_def elim!: try_then_InrE)
    with 2 show ?thesis by (auto simp: target_frame_def dest!: timed_read_InrD)
  next
    case 3
    then obtain len s1 buf host where len: "timed_read 1 s = Inr (len, s1)"
      and nz: "unat (len ! 0) \<noteq> 0"
      and buf: "timed_read (unat (len ! 0) + 2) s1 = Inr (buf, s')"
      and host: "from_utf8 (take (unat (len ! 0)) buf) = Some host"
      and t: "t = Domain host (from_be_bytes (drop (unat (len ! 0)) buf))"
      using assms by (auto simp: read_tunnel_target_body_def Let_def elim!: try_then_InrE
          split: if_splits option.splits)
    let ?n = "unat (len ! 0)"
    from len have 1: "avail s = [len ! 0] @ avail s1" and t1: "tail_of s1 = tail_of s"
      by (auto dest!: timed_read_InrD simp: length_Suc_conv)
    from buf have 2: "avail s1 = buf @ avail s'" "length buf = ?n + 2" "tail_of s' = tail_of s1"
      by (auto dest: timed_read_InrD)
    from host have h: "take ?n buf = as_bytes host" "valid_string host"
      by (auto dest: from_utf8_SomeD)
    then have hl: "length host = ?n" using 2(2) by (metis length_as_bytes length_take min_absorb2 le_add1)
    define p where "p = drop ?n buf"
    have "buf = as_bytes host @ p" using h(1) by (metis append_take_drop_id p_def)
    then have "family # avail s = 3 # (len ! 0) # as_bytes host @ p @ avail s'"
      using 1 2(1) \<open>family = 3\<close> by simp
    moreover have "length p = 2" using 2(2) by (simp add: p_def)
    then have "to_be_bytes (from_be_bytes p :: u16) = p" by simp
    moreover have "(word_of_nat (length host) :: u8) = len ! 0" using hl by simp
    moreover have "length host \<le> 255" using unat_byte_less [of "len ! 0"] hl by linarith
    ultimately show ?thesis
      using t t1 2(3) h(2) hl nz by (auto simp: target_frame_def p_def [symmetric])
  qed
qed

lemma read_tunnel_target_InrD:
  assumes "read_tunnel_target s = Inr (t, s')"
  shows "avail s = target_frame (Some t) @ avail s' \<and> tail_of s' = tail_of s \<and> sendable t"
proof -
  from assms obtain family s1 where fam: "read_target_family s = Inr (family, s1)"
    and body: "read_tunnel_target_body family s1 = Inr (t, s')"
    by (auto simp: read_tunnel_target_def elim!: try_then_InrE)
  from fam have "avail s = family # avail s1" and "tail_of s1 = tail_of s"
    by (auto simp: read_target_family_def length_Suc_conv elim!: try_then_InrE
        dest!: timed_read_InrD)
  with read_body_InrD [OF body] show ?thesis by simp
qed

lemma timed_read_cases:
  obtains (short) "length (avail s) < n" and "timed_read n s = Inl (timed_error (tail_error (tail_of s)))"
  | (full) xs s' where "timed_read n s = Inr (xs, s')" and "length xs = n"
      and "tail_of s' = tail_of s" and "avail s = xs @ avail s'"
proof (cases "timed_read n s")
  case (Inl e)
  then have "length (avail s) < n"
    by (auto simp: timed_read_def read_exact_def split: if_splits)
  then show ?thesis using timed_read_short short by blast
next
  case (Inr r)
  then show ?thesis using full timed_read_InrD [of n s] by (cases r) blast
qed

lemma timed_error_tail [simp]:
  "timed_error (tail_error t) = (case t of Stalled \<Rightarrow> TimeoutError | Closed \<Rightarrow> InternalError)"
  by (cases t) (simp_all add: tail_error_def)

lemma timed_read_InlD:
  "timed_read n s = Inl e \<Longrightarrow>
     e = (case tail_of s of Stalled \<Rightarrow> TimeoutError | Closed \<Rightarrow> InternalError)"
  by (cases rule: timed_read_cases [of s n]) simp_all

lemma try_timed_read_InlE:
  assumes "try_then (timed_read n s) f = Inl e"
  obtains "e = (case tail_of s of Stalled \<Rightarrow> TimeoutError | Closed \<Rightarrow> InternalError)"
  | xs s' where "f (xs, s') = Inl e" and "tail_of s' = tail_of s"
  using assms by (cases "timed_read n s") (auto dest: timed_read_InlD timed_read_InrD)

lemma read_body_InlD:
  assumes "read_tunnel_target_body family s = Inl e"
  shows "e = (case tail_of s of Stalled \<Rightarrow> TimeoutError | Closed \<Rightarrow> InternalError) \<and> family \<in> {3, 4, 6}
    \<or> e = InvalidDomain \<and> family = 3 \<or> e = InvalidIPFamily \<and> family \<notin> {3, 4, 6}"
  using assms unfolding read_tunnel_target_body_def Let_def
  by (auto split: if_splits option.splits elim!: try_timed_read_InlE)

subsection \<open>Properties of the wire format\<close>

text \<open>
  C1. Every destination that can be sent (any address; any non-empty UTF-8 host name of at
  most 255 bytes) is encoded, and the peer's \<open>read_tunnel_target\<close> gives it back and
  leaves exactly the bytes that follow, whatever they are. Of an IPv6 address the flow
  label and the scope id come back as zero.
\<close>

theorem tunnel_target_roundtrip:
  assumes "sendable x"
  shows "\<exists>buf. encode_tunnel_target (Some x) mark_none = Inr (Some buf) \<and>
    (\<forall>rest t. read_tunnel_target \<lparr>avail = buf @ rest, tail_of = t\<rparr> =
       Inr (wire_target x, \<lparr>avail = rest, tail_of = t\<rparr>))"
  using assms read_target_frame [OF assms] encode_is_frame [of "Some x"] encode_mark_none [of x mark_none]
  by simp

theorem tunnel_target_roundtrip_witness:
  "\<exists>buf. encode_tunnel_target (Some (Domain ''example.com'' 443)) False = Inr (Some buf) \<and>
    (\<forall>rest t. read_tunnel_target \<lparr>avail = buf @ rest, tail_of = t\<rparr> =
       Inr (wire_target (Domain ''example.com'' 443), \<lparr>avail = rest, tail_of = t\<rparr>))"
  by (rule tunnel_target_roundtrip) (simp add: valid_string_def as_bytes_def)

text \<open>
  The optional form used by UDP streams: what \<open>write_tunnel_target\<close> with
  \<open>mark_none\<close> puts on a working stream, followed by any payload, is read back by
  \<open>read_optional_tunnel_target\<close> as the same option, and the payload is untouched.
\<close>

lemma optional_target_roundtrip:
  assumes "pred_option sendable x" and "budget k = None"
  shows "\<exists>buf. write_tunnel_target k x True = (Inr (), k\<lparr>written := written k @ buf\<rparr>) \<and>
    (\<forall>payload t. read_optional_tunnel_target \<lparr>avail = buf @ payload, tail_of = t\<rparr> =
       Inr (map_option wire_target x, \<lparr>avail = payload, tail_of = t\<rparr>))"
  using assms encode_is_frame [OF assms(1)] read_optional_target_frame [OF assms(1)]
  by (intro exI [of _ "target_frame x"]) (simp add: write_tunnel_target_def)

lemma optional_target_roundtrip_witness:
  "\<exists>buf. write_tunnel_target open_sink None True =
      (Inr (), open_sink\<lparr>written := written open_sink @ buf\<rparr>) \<and>
    (\<forall>payload t. read_optional_tunnel_target \<lparr>avail = buf @ payload, tail_of = t\<rparr> =
       Inr (map_option wire_target None, \<lparr>avail = payload, tail_of = t\<rparr>))"
  by (rule optional_target_roundtrip) (simp_all add: open_sink_def)

text \<open>
  C2. The reader accepts nothing but encodings: when \<open>read_tunnel_target\<close> succeeds, the
  bytes it consumed are exactly the encoding of the destination it returned (so the wire
  form is unique), and it consumed nothing beyond them.
\<close>

theorem read_target_canonical:
  assumes "read_tunnel_target s = Inr (x, s')"
  shows "\<exists>buf. encode_tunnel_target (Some x) mark_none = Inr (Some buf) \<and>
    avail s = buf @ avail s' \<and> tail_of s' = tail_of s \<and> wire_target x = x"
proof -
  have "avail s = target_frame (Some x) @ avail s'" "tail_of s' = tail_of s" "sendable x"
    using read_tunnel_target_InrD [OF assms] by auto
  moreover have "wire_target x = x"
    using assms read_target_frame [OF \<open>sendable x\<close>, of "avail s'" "tail_of s"] calculation(1)
    by (cases s) simp
  ultimately show ?thesis using encode_is_frame [of "Some x"] encode_mark_none [of x mark_none]
    by simp
qed

theorem read_target_canonical_witness:
  "\<exists>buf. encode_tunnel_target (Some (Addr (V4 localhost_v4 80))) False = Inr (Some buf) \<and>
    avail \<lparr>avail = [4, 127, 0, 0, 1, 0, 80, 9], tail_of = Closed\<rparr> =
      buf @ avail \<lparr>avail = [9], tail_of = Closed\<rparr> \<and>
    tail_of \<lparr>avail = [9], tail_of = Closed\<rparr> =
      tail_of \<lparr>avail = [4, 127, 0, 0, 1, 0, 80, 9], tail_of = Closed\<rparr> \<and>
    wire_target (Addr (V4 localhost_v4 80)) = Addr (V4 localhost_v4 80)"
  by (rule read_target_canonical [where s = "\<lparr>avail = [4, 127, 0, 0, 1, 0, 80, 9], tail_of = Closed\<rparr>"
        and s' = "\<lparr>avail = [9], tail_of = Closed\<rparr>"])
    (simp add: read_target_defs localhost_v4_def byte_simps)

text \<open>
  How reading a destination fails. A stream that goes silent gives
  \<open>TimeoutError\<close>, one that ends early \<open>InternalError\<close>; \<open>InvalidIPFamily\<close> is
  reported for an unknown family byte and nothing else, \<open>InvalidDomain\<close> only for the
  domain family; \<open>InvalidIPAddress\<close> is never reported.
\<close>

lemma read_target_errors:
  assumes "read_tunnel_target s = Inl e"
  shows "(e = TimeoutError \<longrightarrow> tail_of s = Stalled) \<and>
    (e = InternalError \<longrightarrow> tail_of s = Closed) \<and>
    (e = InvalidIPFamily \<longleftrightarrow> avail s \<noteq> [] \<and> hd (avail s) \<notin> {3, 4, 6}) \<and>
    (e = InvalidDomain \<longrightarrow> avail s \<noteq> [] \<and> hd (avail s) = 3) \<and>
    e \<noteq> InvalidIPAddress"
proof (cases rule: timed_read_cases [of s 1])
  case short
  then show ?thesis using assms
    by (cases "tail_of s") (auto simp: read_tunnel_target_def read_target_family_def)
next
  case (full xs s1)
  then have "avail s = xs ! 0 # avail s1" by (auto simp: length_Suc_conv)
  moreover have "read_tunnel_target_body (xs ! 0) s1 = Inl e"
    using assms full by (simp add: read_tunnel_target_def read_target_family_def)
  ultimately show ?thesis using read_body_InlD [of "xs ! 0" s1 e] full(3)
    by (cases "tail_of s") auto
qed

lemma read_target_errors_witness:
  "read_tunnel_target \<lparr>avail = [9, 127], tail_of = Stalled\<rparr> = Inl InvalidIPFamily \<and>
   avail \<lparr>avail = [9, 127], tail_of = Stalled\<rparr> \<noteq> [] \<and>
   hd (avail \<lparr>avail = [9, 127], tail_of = Stalled\<rparr>) \<notin> {3, 4, 6}"
proof -
  have "read_tunnel_target \<lparr>avail = [9, 127], tail_of = Stalled\<rparr> = Inl InvalidIPFamily"
    by (simp add: read_target_defs)
  with read_target_errors [OF this] show ?thesis by blast
qed

text \<open>
  \<open>encode_tunnel_target\<close> refuses exactly the empty host names and those longer than
  255 bytes, whose length would not fit the length byte; every frame it produces is
  between 1 and 259 bytes long.
\<close>

lemma encode_target_bounds:
  "((\<exists>e. encode_tunnel_target x m = Inl e) \<longleftrightarrow>
      (\<exists>host port. x = Some (Domain host port) \<and> (host = [] \<or> 255 < length host))) \<and>
   (case encode_tunnel_target x m of
      Inr (Some buf) \<Rightarrow> 1 \<le> length buf \<and> length buf \<le> 259
    | Inr None \<Rightarrow> x = None \<and> \<not> m
    | Inl e \<Rightarrow> True)"
  by (auto simp: encode_tunnel_target_def Let_def length_to_be_bytes
      split: option.splits tunnel_target.splits socket_addr.splits)

section \<open>The relay\<close>

text \<open>
  What a direction should deliver of the reads it performs: the data up to the first read
  that is not data, and how that read ends the task.
\<close>

fun relayed :: "read_event list \<Rightarrow> bytes" where
  "relayed (Data bs # evs) = (if bs = [] then [] else bs @ relayed evs)"
| "relayed _ = []"

fun relay_stop :: "read_event list \<Rightarrow> read_event option" where
  "relay_stop (Data bs # evs) = (if bs = [] then Some (Data []) else relay_stop evs)"
| "relay_stop (ev # evs) = Some ev"
| "relay_stop [] = None"

definition stop_phase :: "read_event option \<Rightarrow> task_phase" where
  "stop_phase r = (case r of None \<Rightarrow> Looping | Some Elapsed \<Rightarrow> Waiting | Some _ \<Rightarrow> Ended)"

text \<open>The contract both copy directions satisfy, on which the relay's lemmas rest.\<close>

locale copy_direction =
  fixes copy :: "read_event \<Rightarrow> sink \<Rightarrow> u64 \<Rightarrow> (transfer_error + nat) \<times> sink \<times> u64"
    and closes :: "read_event \<Rightarrow> bool"
  assumes copy_data: "bs \<noteq> [] \<Longrightarrow> copy (Data bs) k n =
      (let (ok, k') = write_all bs k
       in (if ok then Inr (length bs) else Inl InternalError, k', n + word_of_nat (length bs)))"
    and copy_other: "relayed [ev] = [] \<Longrightarrow> \<exists>r k'. copy ev k n = (r, k', n) \<and>
      written k' = written k \<and> budget k' = budget k \<and>
      (r = Inl TimeoutError \<longleftrightarrow> ev = Elapsed) \<and> (case r of Inr m \<Rightarrow> m = 0 | Inl _ \<Rightarrow> True) \<and>
      (budget k = None \<and> \<not> finished k \<longrightarrow> finished k' = closes ev)"
begin

lemma iterate_data:
  assumes "bs \<noteq> []"
  shows "relay_iteration copy (Data bs) t =
    (let (ok, k) = write_all bs (out t); t' = t\<lparr>out := k, transferred := transferred t + word_of_nat (length bs)\<rparr>
     in if ok then t' else t'\<lparr>phase := Ended, sent := True\<rparr>)"
  using assms
  by (cases bs; cases "write_all bs (out t)") (simp_all add: relay_iteration_def copy_data Let_def)

lemma iterate_other:
  assumes "relayed [ev] = []"
  obtains k where "relay_iteration copy ev t = t\<lparr>out := k, phase := stop_phase (Some ev), sent := True\<rparr>"
    and "written k = written (out t)" and "budget k = budget (out t)"
    and "budget (out t) = None \<and> \<not> finished (out t) \<longrightarrow> finished k = closes ev"
proof -
  obtain r k where r: "copy ev (out t) (transferred t) = (r, k, transferred t)"
    and k: "written k = written (out t)" "budget k = budget (out t)"
      "budget (out t) = None \<and> \<not> finished (out t) \<longrightarrow> finished k = closes ev"
    and e: "r = Inl TimeoutError \<longleftrightarrow> ev = Elapsed" "case r of Inr m \<Rightarrow> m = 0 | Inl _ \<Rightarrow> True"
    using copy_other [OF assms] by blast
  from assms have "ev \<noteq> Elapsed \<Longrightarrow> stop_phase (Some ev) = Ended"
    by (auto simp: stop_phase_def split: read_event.splits)
  with r e have "relay_iteration copy ev t = t\<lparr>out := k, phase := stop_phase (Some ev), sent := True\<rparr>"
    by (auto simp: relay_iteration_def Let_def stop_phase_def
        split: sum.splits transfer_error.splits nat.splits)
  from that [OF this k] show thesis .
qed

lemma relay_event_cases:
  obtains (data) bs where "ev = Data bs" and "bs \<noteq> []" | (other) "relayed [ev] = []"
proof (cases ev)
  case (Data bs)
  then show ?thesis using data other by (cases "bs = []") auto
qed (auto intro: other)

lemma relayed_other: "relayed [ev] = [] \<Longrightarrow> relayed (ev # evs) = [] \<and> relay_stop (ev # evs) = Some ev"
  by (cases ev) (auto split: if_splits)

lemma relay_run_stopped: "phase t \<noteq> Looping \<Longrightarrow> relay_run copy evs t = t"
  by (cases evs) auto

lemma run_reliable:
  fixes evs :: "read_event list" and t :: relay_task
  assumes "phase t = Looping" and "budget (out t) = None" and "\<not> finished (out t)"
  defines "t' \<equiv> relay_run copy evs t"
  shows "written (out t') = written (out t) @ relayed evs \<and>
    transferred t' = transferred t + word_of_nat (length (relayed evs)) \<and>
    phase t' = stop_phase (relay_stop evs) \<and>
    finished (out t') = (\<exists>ev. relay_stop evs = Some ev \<and> closes ev)"
  using assms(1-3) unfolding t'_def
proof (induction evs arbitrary: t)
  case Nil
  then show ?case by (simp add: stop_phase_def)
next
  case (Cons ev evs)
  show ?case
  proof (cases rule: relay_event_cases [of ev])
    case (data bs)
    let ?t = "t\<lparr>out := (out t)\<lparr>written := written (out t) @ bs\<rparr>,
      transferred := transferred t + word_of_nat (length bs)\<rparr>"
    have "relay_iteration copy ev t = ?t"
      using Cons.prems data by (simp add: iterate_data Let_def)
    moreover have "phase ?t = Looping \<and> budget (out ?t) = None \<and> \<not> finished (out ?t)"
      using Cons.prems by simp
    ultimately show ?thesis using Cons.IH [of ?t] Cons.prems data by simp
  next
    case other
    from iterate_other [OF this, of t] obtain k where
      k: "relay_iteration copy ev t = t\<lparr>out := k, phase := stop_phase (Some ev), sent := True\<rparr>"
        "written k = written (out t)" "finished k = closes ev"
      using Cons.prems by metis
    have "stop_phase (Some ev) \<noteq> Looping" by (simp add: stop_phase_def split: read_event.splits)
    then have "relay_run copy (ev # evs) t = t\<lparr>out := k, phase := stop_phase (Some ev), sent := True\<rparr>"
      using Cons.prems k(1) by (simp add: relay_run_stopped)
    then show ?thesis using k relayed_other [OF other, of evs] by simp
  qed
qed

lemma run_prefix:
  "\<exists>p. written (out (relay_run copy evs t)) = written (out t) @ p \<and> prefix p (relayed evs)"
proof (induction evs arbitrary: t)
  case Nil
  then show ?case by simp
next
  case (Cons ev evs)
  show ?case
  proof (cases "phase t = Looping")
    case True
    show ?thesis
    proof (cases rule: relay_event_cases [of ev])
      case (data bs)
      obtain ok k where w: "write_all bs (out t) = (ok, k)" by fastforce
      obtain p where p: "written k = written (out t) @ p" "prefix p bs" "ok \<longrightarrow> p = bs"
        using write_all_prefix [OF w] by blast
      show ?thesis
      proof (cases ok)
        case True
        then show ?thesis
          using Cons.IH [of "t\<lparr>out := k, transferred := transferred t + word_of_nat (length bs)\<rparr>"]
            \<open>phase t = Looping\<close> data w p by (auto simp: iterate_data Let_def)
      next
        case False
        then show ?thesis using \<open>phase t = Looping\<close> data w p
          by (auto simp: iterate_data Let_def relay_run_stopped intro: prefix_order.trans prefixI)
      qed
    next
      case other
      from iterate_other [OF this, of t] obtain k where
        k: "relay_iteration copy ev t = t\<lparr>out := k, phase := stop_phase (Some ev), sent := True\<rparr>"
          "written k = written (out t)" by metis
      have "stop_phase (Some ev) \<noteq> Looping" by (simp add: stop_phase_def split: read_event.splits)
      then show ?thesis using \<open>phase t = Looping\<close> k by (simp add: relay_run_stopped)
    qed
  next
    case False
    then show ?thesis by simp
  qed
qed

end

interpretation s2q_copy: copy_direction stream_to_quic "\<lambda>ev. ev = Eof \<or> ev = Data []"
proof (unfold_locales, goal_cases)
  case (1 bs k n)
  then show ?case by (simp add: stream_to_quic_def Let_def split: prod.splits bool.splits)
next
  case (2 ev k n)
  then show ?case by (cases ev) (auto simp: stream_to_quic_def split: if_splits)
qed

interpretation q2s_copy: copy_direction quic_to_stream "\<lambda>ev. ev = Eof"
proof (unfold_locales, goal_cases)
  case (1 bs k n)
  then show ?case by (simp add: quic_to_stream_def Let_def split: prod.splits bool.splits)
next
  case (2 ev k n)
  then show ?case
    by (cases ev) (auto simp: quic_to_stream_def write_all_def split: if_splits option.splits)
qed

text \<open>
  C3. A direction of the relay is transparent. On a write half that accepts everything,
  what the peer receives is exactly the data read up to the first read that is no data, in
  order; the byte counter (64 bits, wrapping) counts it; the task is still looping, waiting
  for the other one after a timeout, or has ended, as that last read says; and the write
  half is finished precisely when the source ended.
\<close>

theorem relay_transparent:
  "let t = relay_run stream_to_quic evs (new_relay open_sink);
       u = relay_run quic_to_stream evs (new_relay open_sink)
   in written (out t) = relayed evs \<and> transferred t = word_of_nat (length (relayed evs)) \<and>
      phase t = stop_phase (relay_stop evs) \<and>
      finished (out t) = (relay_stop evs \<in> {Some Eof, Some (Data [])}) \<and>
      written (out u) = relayed evs \<and> transferred u = word_of_nat (length (relayed evs)) \<and>
      phase u = stop_phase (relay_stop evs) \<and>
      finished (out u) = (relay_stop evs = Some Eof)"
  using s2q_copy.run_reliable [of "new_relay open_sink" evs]
    q2s_copy.run_reliable [of "new_relay open_sink" evs]
  by (auto simp: new_relay_def open_sink_def Let_def)

text \<open>
  Whether the QUIC stream of a direction ends for its peer: at every read that ends the task,
  also at one that failed, and after a timeout once the other task signalled.
\<close>

definition ends :: "bool \<Rightarrow> read_event list \<Rightarrow> bool" where
  "ends other evs =
     (case relay_stop evs of None \<Rightarrow> False | Some Elapsed \<Rightarrow> other | Some _ \<Rightarrow> True)"

lemma quic_half_run:
  fixes other :: bool and evs :: "read_event list"
  assumes "budget k = None" and "\<not> finished k"
  defines "q \<equiv> quic_half (woken other (relay_run stream_to_quic evs (new_relay k)))"
  shows "written q = written k @ relayed evs" and "finished q \<longleftrightarrow> ends other evs"
proof -
  let ?t = "relay_run stream_to_quic evs (new_relay k)"
  have t: "written (out ?t) = written k @ relayed evs" "phase ?t = stop_phase (relay_stop evs)"
    "finished (out ?t) = (relay_stop evs \<in> {Some Eof, Some (Data [])})"
    using s2q_copy.run_reliable [of "new_relay k" evs] assms by (auto simp: new_relay_def)
  then show "written q = written k @ relayed evs" by (simp add: q_def quic_half_def woken_def)
  show "finished q \<longleftrightarrow> ends other evs"
    using t(2,3) by (auto simp: q_def quic_half_def woken_def ends_def stop_phase_def
        split: option.splits read_event.splits)
qed

text \<open>
  Nothing is invented or reordered even when the write half breaks at any point: what
  the peer has received of a direction is always a prefix of the data that was read.
\<close>

lemma relay_prefix:
  "(\<exists>p. written (out (relay_run stream_to_quic evs (new_relay k))) = written k @ p \<and>
      prefix p (relayed evs)) \<and>
   (\<exists>p. written (out (relay_run quic_to_stream evs (new_relay k))) = written k @ p \<and>
      prefix p (relayed evs))"
  using s2q_copy.run_prefix [of evs "new_relay k"] q2s_copy.run_prefix [of evs "new_relay k"]
  by (simp add: new_relay_def)

subsection \<open>The pair of tasks\<close>

abbreviation flow_init :: "flow \<Rightarrow> bool" where
  "flow_init f \<equiv> \<exists>peer k q. start_flowing peer k q = Some f"

definition flow_inv :: "flow \<Rightarrow> bool" where
  "flow_inv f \<longleftrightarrow> (sent (q2s f) \<longleftrightarrow> phase (q2s f) \<noteq> Looping) \<and>
     (sent (s2q f) \<longleftrightarrow> phase (s2q f) \<noteq> Looping)"

lemma relay_iteration_sent:
  "phase t = Looping \<Longrightarrow> \<not> sent t \<Longrightarrow>
     sent (relay_iteration copy ev t) \<longleftrightarrow> phase (relay_iteration copy ev t) \<noteq> Looping"
  by (auto simp: relay_iteration_def Let_def
      split: prod.splits sum.splits transfer_error.splits nat.splits)

interpretation flows: invariant_system flow_init flow_step flow_inv
proof (unfold_locales, goal_cases)
  case (1 f)
  then show ?case
    by (auto simp: start_flowing_def flow_inv_def new_relay_def split: option.splits)
next
  case (2 f g)
  from 2(2,1) show ?case
    by (cases rule: flow_step.cases) (auto simp: flow_inv_def relay_iteration_sent)
qed

text \<open>Two concrete states: one direction timed out, then the other as well.\<close>

definition idle_relay :: relay_task where
  "idle_relay = \<lparr>out = open_sink, transferred = 0, phase = Waiting, sent = True\<rparr>"

definition half_idle_flow :: flow where
  "half_idle_flow = \<lparr>q2s = idle_relay, s2q = new_relay open_sink\<rparr>"

definition idle_flow :: flow where
  "idle_flow = \<lparr>q2s = idle_relay, s2q = idle_relay\<rparr>"

lemma idle_iteration:
  "relay_iteration stream_to_quic Elapsed (new_relay open_sink) = idle_relay"
  "relay_iteration quic_to_stream Elapsed (new_relay open_sink) = idle_relay"
  by (simp_all add: relay_iteration_def stream_to_quic_def quic_to_stream_def new_relay_def
      idle_relay_def)

lemma reachable_half_idle: "reachable flow_init flow_step half_idle_flow"
proof (rule reach_step)
  show "reachable flow_init flow_step \<lparr>q2s = new_relay open_sink, s2q = new_relay open_sink\<rparr>"
    by (rule reach_init) (auto simp: start_flowing_def intro!: exI [of _ "Some (V4 0 0)"])
  show "flow_step \<lparr>q2s = new_relay open_sink, s2q = new_relay open_sink\<rparr> half_idle_flow"
    using q2s_iterate [of "\<lparr>q2s = new_relay open_sink, s2q = new_relay open_sink\<rparr>" Elapsed]
    by (simp add: idle_iteration half_idle_flow_def) (simp add: new_relay_def)
qed

lemma reachable_idle: "reachable flow_init flow_step idle_flow"
proof (rule reach_step [OF reachable_half_idle])
  show "flow_step half_idle_flow idle_flow"
    using s2q_iterate [of half_idle_flow Elapsed]
    by (simp add: idle_iteration half_idle_flow_def idle_flow_def) (simp add: new_relay_def)
qed

text \<open>
  C24. The two tasks never deadlock on their one-shot channels: in every reachable state
  where neither loops any more, both tasks can run to their end.
\<close>

theorem flow_no_deadlock:
  assumes "reachable flow_init flow_step f"
    and "phase (q2s f) \<noteq> Looping" and "phase (s2q f) \<noteq> Looping"
  shows "\<exists>g. flow_step\<^sup>*\<^sup>* f g \<and> phase (q2s g) = Ended \<and> phase (s2q g) = Ended"
proof -
  have "sent (q2s f)" and "sent (s2q f)"
    using flows.reachable_inv [OF assms(1)] assms(2,3) by (auto simp: flow_inv_def)
  let ?g = "if phase (q2s f) = Waiting then f\<lparr>q2s := (q2s f)\<lparr>phase := Ended\<rparr>\<rparr> else f"
  have 1: "flow_step\<^sup>*\<^sup>* f ?g" and g: "phase (q2s ?g) = Ended" "sent (q2s ?g)"
    using q2s_wake [of f] \<open>sent (s2q f)\<close> \<open>sent (q2s f)\<close> assms(2)
    by (auto intro: task_phase.exhaust [of "phase (q2s f)"])
  let ?h = "if phase (s2q ?g) = Waiting then ?g\<lparr>s2q := (s2q ?g)\<lparr>phase := Ended\<rparr>\<rparr> else ?g"
  have "flow_step\<^sup>*\<^sup>* ?g ?h" using s2q_wake [of ?g] g by auto
  moreover have "phase (q2s ?h) = Ended" using g by simp
  moreover have "phase (s2q ?h) = Ended" using assms(3) by (cases "phase (s2q f)") auto
  ultimately show ?thesis using 1 by (meson rtranclp_trans)
qed

theorem flow_no_deadlock_witness:
  "\<exists>g. flow_step\<^sup>*\<^sup>* idle_flow g \<and> phase (q2s g) = Ended \<and> phase (s2q g) = Ended"
  by (rule flow_no_deadlock [OF reachable_idle]) (simp_all add: idle_flow_def idle_relay_def)

text \<open>
  A direction whose read timed out does not close the stream under the other one: as
  long as the other task loops, the waiting task stays, whatever step is taken.
\<close>

lemma timeout_waits_for_other:
  assumes "reachable flow_init flow_step f" and "flow_step f g"
  shows "(phase (q2s f) = Waiting \<and> phase (s2q f) = Looping \<longrightarrow> phase (q2s g) = Waiting) \<and>
    (phase (s2q f) = Waiting \<and> phase (q2s f) = Looping \<longrightarrow> phase (s2q g) = Waiting)"
  using flows.reachable_inv [OF assms(1)] assms(2)
  by (auto simp: flow_inv_def elim!: flow_stepE)

lemma timeout_waits_for_other_witness:
  "phase (q2s (half_idle_flow\<lparr>s2q := relay_iteration stream_to_quic (Data [7]) (s2q half_idle_flow)\<rparr>))
     = Waiting"
proof -
  have idle: "phase (q2s half_idle_flow) = Waiting" and busy: "phase (s2q half_idle_flow) = Looping"
    by (simp_all add: half_idle_flow_def idle_relay_def new_relay_def)
  from timeout_waits_for_other [OF reachable_half_idle s2q_iterate [OF busy, of "Data [7]"]] idle busy
  show ?thesis by blast
qed

end
