(* ===== verification/Codec_Http.thy ===== *)
theory Codec_Http
  imports Stream_Util
begin

text \<open>
  \<^verbatim>\<open>src/src/codec/http.rs\<close>: the reader that cuts a byte stream into complete
  HTTP/1.x messages for the compressor. The header parser (the crate
  \<^verbatim>\<open>httparse\<close>) is the parameter \<open>http_parser\<close> of the definitions; the
  scan for the end of the header, the choice of the body length, the buffer and the drain
  mode are the code's own.
\<close>

section \<open>Slices of std\<close>

text \<open>\<^verbatim>\<open>slice::windows\<close> and \<^verbatim>\<open>Iterator::position\<close>.\<close>

definition windows :: "nat \<Rightarrow> 'a list \<Rightarrow> 'a list list" where
  "windows n xs = map (\<lambda>i. take n (drop i xs)) [0..<Suc (length xs) - n]"

fun position :: "('a \<Rightarrow> bool) \<Rightarrow> 'a list \<Rightarrow> nat option" where
  "position p [] = None"
| "position p (x # xs) = (if p x then Some 0 else map_option Suc (position p xs))"

definition ascii_lower :: "char \<Rightarrow> char" where
  "ascii_lower c =
     (let n = of_char c :: nat in if 65 \<le> n \<and> n \<le> 90 then char_of (n + 32) else c)"

definition eq_ignore_ascii_case :: "string \<Rightarrow> string \<Rightarrow> bool" where
  "eq_ignore_ascii_case s t \<longleftrightarrow> map ascii_lower s = map ascii_lower t"

section \<open>The reader\<close>

text \<open>
  What \<^verbatim>\<open>httparse\<close> makes of a header block: the minor version and the header
  fields, a request for more bytes, or an error.
\<close>

datatype parse_status =
  Complete "u8 option" "(string \<times> bytes) list" | Partial | ParseError

record http_parser =
  parse_request :: "bytes \<Rightarrow> parse_status"
  parse_response :: "bytes \<Rightarrow> parse_status"

datatype http_error =
  HeaderTooLong | UnsupportedVersion "u8 option" | NotHttp | EofMidMessage
  | HttpReadTimeout | HttpReadFailed

datatype http_read_result = Message bytes | NeedMore

record http_reader =
  hr_buf :: bytes
  initialized :: bool
  drain_mode :: bool

definition MAX_HEADER_SIZE :: nat where
  "MAX_HEADER_SIZE = 64 * 1024"

definition http_reader_new :: http_reader where
  "http_reader_new = \<lparr>hr_buf = [], initialized = False, drain_mode = False\<rparr>"

definition crlf2 :: bytes where
  "crlf2 = [13, 10, 13, 10]"

definition find_header_end :: "bytes \<Rightarrow> nat option" where
  "find_header_end buf = map_option (\<lambda>pos. pos + 4) (position (\<lambda>w. w = crlf2) (windows 4 buf))"

definition content_length :: "(string \<times> bytes) list \<Rightarrow> usize option" where
  "content_length headers =
     (case find (\<lambda>h. eq_ignore_ascii_case (fst h) ''content-length'') headers of
        None \<Rightarrow> None
      | Some h \<Rightarrow> Option.bind (from_utf8 (snd h)) (\<lambda>s. parse_usize (trim s)))"

text \<open>
  The kind of message the header block starts, as the two parses of \<^verbatim>\<open>try_parse\<close>
  decide it: a request (\<open>Inr (Some True)\<close>), a response (\<open>Inr (Some False)\<close>), an
  incomplete block (\<open>Inr None\<close>) or an error.
\<close>

definition version_ok :: "u8 option \<Rightarrow> bool" where
  "version_ok v \<longleftrightarrow> v = Some 0 \<or> v = Some 1"

definition classify_header :: "http_parser \<Rightarrow> bytes \<Rightarrow> http_error + bool option" where
  "classify_header hp header_bytes =
     (case parse_request hp header_bytes of
        Complete version _ \<Rightarrow>
          if version_ok version then Inr (Some True) else Inl (UnsupportedVersion version)
      | Partial \<Rightarrow> Inr None
      | ParseError \<Rightarrow>
          (case parse_response hp header_bytes of
             Complete version _ \<Rightarrow>
               if version_ok version then Inr (Some False) else Inl (UnsupportedVersion version)
           | Partial \<Rightarrow> Inr None
           | ParseError \<Rightarrow> Inl NotHttp))"

fun parsed_headers :: "parse_status \<Rightarrow> (string \<times> bytes) list" where
  "parsed_headers (Complete _ headers) = headers"
| "parsed_headers _ = []"

text \<open>
  The end of the body is a \<^verbatim>\<open>usize\<close> addition, which wraps.
\<close>

definition body_end_of :: "nat \<Rightarrow> usize \<Rightarrow> nat" where
  "body_end_of body_start cl = unat (word_of_nat body_start + cl :: usize)"

definition try_parse ::
    "http_parser \<Rightarrow> http_reader \<Rightarrow> (http_error + bytes option) \<times> http_reader" where
  "try_parse hp r =
     (if hr_buf r = [] then (Inr None, r)
      else case find_header_end (hr_buf r) of
        None \<Rightarrow>
          if MAX_HEADER_SIZE < length (hr_buf r) then (Inl HeaderTooLong, r) else (Inr None, r)
      | Some header_end \<Rightarrow>
          (let header_bytes = take header_end (hr_buf r)
           in case classify_header hp header_bytes of
                Inl e \<Rightarrow> (Inl e, r)
              | Inr None \<Rightarrow> (Inr None, r)
              | Inr (Some is_request) \<Rightarrow>
                  (let r1 = r\<lparr>initialized := True\<rparr>;
                       headers = parsed_headers
                         (if is_request then parse_request hp header_bytes
                          else parse_response hp header_bytes)
                   in case content_length headers of
                        Some cl \<Rightarrow>
                          (let body_end = body_end_of header_end cl
                           in if length (hr_buf r) < body_end then (Inr None, r1)
                              else (Inr (Some (take body_end (hr_buf r))),
                                    r1\<lparr>hr_buf := drop body_end (hr_buf r)\<rparr>))
                      | None \<Rightarrow> (Inr (Some (hr_buf r)), r1\<lparr>drain_mode := True, hr_buf := []\<rparr>))))"

text \<open>
  \<^verbatim>\<open>read_message\<close> on the reads it will perform: \<open>None\<close> is a call that
  still waits when the listed reads are used up; the reads it did not need are returned.
  A read of no bytes is the end of the stream.
\<close>

fun http_read :: "read_event \<Rightarrow> http_error + bytes" where
  "http_read Elapsed = Inl HttpReadTimeout"
| "http_read ReadErr = Inl HttpReadFailed"
| "http_read Eof = Inr []"
| "http_read (Data bs) = Inr bs"

fun read_message ::
    "http_parser \<Rightarrow> read_event list \<Rightarrow> http_reader \<Rightarrow>
     (http_error + http_read_result) option \<times> read_event list \<times> http_reader" where
  "read_message hp [] r =
     (if drain_mode r then
        (if hr_buf r \<noteq> [] then (Some (Inr (Message (hr_buf r))), [], r\<lparr>hr_buf := []\<rparr>)
         else (None, [], r))
      else case try_parse hp r of
        (Inl e, r1) \<Rightarrow> (Some (Inl e), [], r1)
      | (Inr (Some msg), r1) \<Rightarrow> (Some (Inr (Message msg)), [], r1)
      | (Inr None, r1) \<Rightarrow> (None, [], r1))"
| "read_message hp (ev # evs) r =
     (if drain_mode r then
        (if hr_buf r \<noteq> [] then (Some (Inr (Message (hr_buf r))), ev # evs, r\<lparr>hr_buf := []\<rparr>)
         else case http_read ev of
                Inl e \<Rightarrow> (Some (Inl e), evs, r)
              | Inr tmp \<Rightarrow> (Some (Inr (Message tmp)), evs, r))
      else case try_parse hp r of
        (Inl e, r1) \<Rightarrow> (Some (Inl e), ev # evs, r1)
      | (Inr (Some msg), r1) \<Rightarrow> (Some (Inr (Message msg)), ev # evs, r1)
      | (Inr None, r1) \<Rightarrow>
          (case http_read ev of
             Inl e \<Rightarrow> (Some (Inl e), evs, r1)
           | Inr tmp \<Rightarrow>
               if tmp = [] then
                 (if hr_buf r1 = [] then (Some (Inr (Message [])), evs, r1)
                  else (Some (Inl EofMidMessage), evs, r1))
               else read_message hp evs (r1\<lparr>hr_buf := hr_buf r1 @ tmp\<rparr>)))"

section \<open>The end of the header\<close>

lemma position_Some_iff:
  "position p xs = Some n \<longleftrightarrow> n < length xs \<and> p (xs ! n) \<and> (\<forall>m<n. \<not> p (xs ! m))"
proof (induction xs arbitrary: n)
  case Nil
  then show ?case by simp
next
  case (Cons x xs)
  show ?case
  proof (cases n)
    case 0
    then show ?thesis by (cases "position p xs") auto
  next
    case (Suc k)
    then show ?thesis using Cons.IH [of k] by (auto simp: less_Suc_eq_0_disj)
  qed
qed

lemma position_None_iff: "position p xs = None \<longleftrightarrow> (\<forall>x\<in>set xs. \<not> p x)"
  by (induction xs) auto

text \<open>The header ends at \<open>n\<close>: the four bytes before it are the empty line.\<close>

definition header_ends :: "bytes \<Rightarrow> nat \<Rightarrow> bool" where
  "header_ends buf n \<longleftrightarrow> (\<exists>h. take n buf = h @ crlf2 \<and> length h + 4 = n)"

lemma header_ends_window:
  "header_ends buf (m + 4) \<longleftrightarrow> m < Suc (length buf) - 4 \<and> take 4 (drop m buf) = crlf2"
proof
  assume "header_ends buf (m + 4)"
  then obtain h where h: "take (m + 4) buf = h @ crlf2" "length h = m"
    by (auto simp: header_ends_def)
  then have "length (take (m + 4) buf) = m + 4" by (simp add: crlf2_def)
  then have "m + 4 \<le> length buf" by simp
  moreover have "take 4 (drop m buf) = drop m (take (m + 4) buf)" by (simp add: take_drop add.commute)
  ultimately show "m < Suc (length buf) - 4 \<and> take 4 (drop m buf) = crlf2" using h by simp
next
  assume "m < Suc (length buf) - 4 \<and> take 4 (drop m buf) = crlf2"
  then have "take (m + 4) buf = take m buf @ crlf2" "length (take m buf) + 4 = m + 4"
    by (auto simp: take_add)
  then show "header_ends buf (m + 4)" unfolding header_ends_def by blast
qed

lemma header_ends_ge: "header_ends buf n \<Longrightarrow> 4 \<le> n \<and> n \<le> length buf"
  by (auto simp: header_ends_def crlf2_def dest: arg_cong [where f = length])

lemma find_header_end_Some:
  "find_header_end buf = Some n \<longleftrightarrow> header_ends buf n \<and> (\<forall>m<n. \<not> header_ends buf m)"
proof (cases "4 \<le> n")
  case False
  then show ?thesis using header_ends_ge [of buf n] by (auto simp: find_header_end_def)
next
  case True
  then obtain k where n: "n = k + 4" by (metis le_add_diff_inverse2)
  have "find_header_end buf = Some n \<longleftrightarrow> position (\<lambda>w. w = crlf2) (windows 4 buf) = Some k"
    by (auto simp: find_header_end_def n)
  also have "\<dots> \<longleftrightarrow> header_ends buf (k + 4) \<and> (\<forall>m<k. \<not> header_ends buf (m + 4))"
    by (auto simp: position_Some_iff windows_def header_ends_window)
  also have "\<dots> \<longleftrightarrow> header_ends buf n \<and> (\<forall>m<n. \<not> header_ends buf m)"
  proof -
    have "(\<forall>m<k. \<not> header_ends buf (m + 4)) = (\<forall>m<n. \<not> header_ends buf m)"
    proof
      assume l: "\<forall>m<k. \<not> header_ends buf (m + 4)"
      show "\<forall>m<n. \<not> header_ends buf m"
      proof (intro allI impI notI)
        fix m assume "m < n" and h: "header_ends buf m"
        with header_ends_ge [OF h] n have "m - 4 < k" "m - 4 + 4 = m" by auto
        with l h show False by metis
      qed
    qed (simp add: n)
    then show ?thesis by (simp add: n)
  qed
  finally show ?thesis .
qed

lemma find_header_end_None:
  "find_header_end buf = None \<longleftrightarrow> (\<forall>n. \<not> header_ends buf n)"
proof
  assume none: "find_header_end buf = None"
  show "\<forall>n. \<not> header_ends buf n"
  proof (rule ccontr)
    assume "\<not> (\<forall>n. \<not> header_ends buf n)"
    then have "header_ends buf (LEAST n. header_ends buf n)" by (metis LeastI)
    moreover have "\<forall>m<(LEAST n. header_ends buf n). \<not> header_ends buf m"
      by (blast dest: not_less_Least)
    ultimately have "find_header_end buf = Some (LEAST n. header_ends buf n)"
      unfolding find_header_end_Some by blast
    with none show False by simp
  qed
next
  assume "\<forall>n. \<not> header_ends buf n"
  then show "find_header_end buf = None"
    by (metis find_header_end_Some not_None_eq)
qed

lemma header_ends_append: "n \<le> length xs \<Longrightarrow> header_ends (xs @ ys) n = header_ends xs n"
  by (simp add: header_ends_def)

text \<open>Bytes that arrive later never move the end of a header that was found.\<close>

lemma find_header_end_prefix:
  assumes "find_header_end hdr = Some (length hdr)"
  shows "find_header_end (hdr @ xs) = Some (length hdr)"
    and "\<And>p. strict_prefix p hdr \<Longrightarrow> find_header_end p = None"
proof -
  have h: "header_ends hdr (length hdr)" "\<And>m. m < length hdr \<Longrightarrow> \<not> header_ends hdr m"
    using assms by (simp_all add: find_header_end_Some)
  then show "find_header_end (hdr @ xs) = Some (length hdr)"
    by (simp add: find_header_end_Some header_ends_append)
  fix p assume "strict_prefix p hdr"
  then obtain z zs where hdr: "hdr = p @ z # zs" by (rule strict_prefixE')
  show "find_header_end p = None"
    unfolding find_header_end_None
  proof (intro allI notI)
    fix n assume n: "header_ends p n"
    then have "n \<le> length p" using header_ends_ge by blast
    then show False using h(2) [of n] n by (simp add: hdr header_ends_append)
  qed
qed

section \<open>Framing\<close>

text \<open>
  A message whose length is known: the header block \<open>hdr\<close> is complete and within the
  limit, it is a request or a response of version 1.0 or 1.1, and it announces the
  \<open>body\<close> in its content length.
\<close>

definition framed :: "http_parser \<Rightarrow> bytes \<Rightarrow> bytes \<Rightarrow> bool" where
  "framed hp hdr body \<longleftrightarrow>
     find_header_end hdr = Some (length hdr) \<and> length hdr \<le> MAX_HEADER_SIZE \<and>
     length hdr + length body < 2 ^ 64 \<and>
     (\<exists>req. classify_header hp hdr = Inr (Some req) \<and>
        content_length (parsed_headers (if req then parse_request hp hdr
          else parse_response hp hdr)) = Some (word_of_nat (length body)))"

lemma framed_nonempty: "framed hp hdr body \<Longrightarrow> hdr \<noteq> []"
  by (auto simp: framed_def find_header_end_def windows_def)

lemma body_end_of_nat:
  assumes "n + k < 2 ^ 64"
  shows "body_end_of n (word_of_nat k) = n + k"
proof -
  have "body_end_of n (word_of_nat k) = unat (word_of_nat (n + k) :: usize)"
    by (simp add: body_end_of_def)
  also have "\<dots> = n + k" using assms by (simp add: unat_of_nat del: of_nat_add)
  finally show ?thesis .
qed

lemma try_parse_incomplete:
  assumes "framed hp hdr body" and "strict_prefix (hr_buf r) (hdr @ body)"
  shows "\<exists>i. try_parse hp r = (Inr None, r\<lparr>initialized := i\<rparr>)"
proof (cases "strict_prefix (hr_buf r) hdr")
  case True
  then have "find_header_end (hr_buf r) = None"
    using assms(1) find_header_end_prefix(2) [of hdr "hr_buf r"] by (simp add: framed_def)
  moreover have "length (hr_buf r) \<le> MAX_HEADER_SIZE"
    using True assms(1) prefix_length_le [of "hr_buf r" hdr] by (auto simp: framed_def strict_prefix_def)
  ultimately have "try_parse hp r = (Inr None, r\<lparr>initialized := initialized r\<rparr>)"
    by (simp add: try_parse_def)
  then show ?thesis by blast
next
  case False
  with assms(2) have "prefix hdr (hr_buf r)"
    by (metis prefix_def prefix_order.nless_le prefix_order.dual_order.strict_implies_order
        prefix_same_cases)
  then obtain q where q: "hr_buf r = hdr @ q" by (rule prefixE)
  with assms(2) have "length q < length body"
    using prefix_length_less [of "hr_buf r" "hdr @ body"] by simp
  moreover have "hdr \<noteq> []" using assms(1) by (rule framed_nonempty)
  ultimately have "try_parse hp r = (Inr None, r\<lparr>initialized := True\<rparr>)"
    using assms(1) q find_header_end_prefix(1) [of hdr q]
    by (auto simp: framed_def try_parse_def Let_def body_end_of_nat)
  then show ?thesis by blast
qed

lemma try_parse_complete:
  assumes "framed hp hdr body" and "hr_buf r = hdr @ body @ xs"
  shows "try_parse hp r =
    (Inr (Some (hdr @ body)), r\<lparr>initialized := True, hr_buf := xs\<rparr>)"
proof -
  have "hdr \<noteq> []" using assms(1) by (rule framed_nonempty)
  then show ?thesis
    using assms find_header_end_prefix(1) [of hdr "body @ xs"]
    by (auto simp: framed_def try_parse_def Let_def body_end_of_nat)
qed

lemma read_message_complete:
  assumes "framed hp hdr body" and "hr_buf r = hdr @ body @ xs" and "\<not> drain_mode r"
  shows "read_message hp evs r =
    (Some (Inr (Message (hdr @ body))), evs, r\<lparr>initialized := True, hr_buf := xs\<rparr>)"
  using assms(3) try_parse_complete [OF assms(1,2)] by (cases evs) simp_all

text \<open>
  However the network cuts the input into reads, and whatever part of it the reader
  has already buffered, a message with a content length comes out as exactly its header
  and its body; what follows it stays, in order, in the buffer and in the unread input,
  and the reader keeps parsing.
\<close>

lemma http_message_framed:
  assumes "framed hp hdr body" and "\<not> drain_mode r"
    and "hr_buf r @ concat chunks = hdr @ body @ xs" and "[] \<notin> set chunks"
  shows "\<exists>k r'. read_message hp (map Data chunks @ later) r =
           (Some (Inr (Message (hdr @ body))), map Data (drop k chunks) @ later, r') \<and>
         hr_buf r' @ concat (drop k chunks) = xs \<and> \<not> drain_mode r'"
  using assms(2-)
proof (induction chunks arbitrary: r)
  case Nil
  then have "read_message hp later r =
      (Some (Inr (Message (hdr @ body))), later, r\<lparr>initialized := True, hr_buf := xs\<rparr>)"
    using read_message_complete [OF assms(1)] by simp
  with Nil show ?case by simp
next
  case (Cons c cs)
  show ?case
  proof (cases "length (hdr @ body) \<le> length (hr_buf r)")
    case True
    with Cons.prems(2) obtain ys where ys: "hr_buf r = hdr @ body @ ys"
      by (metis append.assoc append_eq_append_conv_if append_take_drop_id)
    have "read_message hp (map Data (c # cs) @ later) r =
        (Some (Inr (Message (hdr @ body))), map Data (drop 0 (c # cs)) @ later,
         r\<lparr>initialized := True, hr_buf := ys\<rparr>)"
      unfolding drop_0 by (rule read_message_complete [OF assms(1) ys Cons.prems(1)])
    moreover have "ys @ concat (c # cs) = xs" using ys Cons.prems(2) by simp
    ultimately show ?thesis using Cons.prems(1)
      by (intro exI [of _ 0] exI [of _ "r\<lparr>initialized := True, hr_buf := ys\<rparr>"]) simp
  next
    case False
    have "prefix (hr_buf r) (hdr @ body)"
      using False Cons.prems(2) by (metis append.assoc nle_le prefixI prefix_length_prefix)
    then have "strict_prefix (hr_buf r) (hdr @ body)"
      using False by (auto simp: strict_prefix_def)
    then obtain i where i: "try_parse hp r = (Inr None, r\<lparr>initialized := i\<rparr>)"
      using try_parse_incomplete [OF assms(1)] by blast
    let ?r = "r\<lparr>initialized := i, hr_buf := hr_buf r @ c\<rparr>"
    have "c \<noteq> []" using Cons.prems(3) by auto
    then have step: "read_message hp (map Data (c # cs) @ later) r =
        read_message hp (map Data cs @ later) ?r"
      using i Cons.prems(1) by simp
    obtain k r' where k: "read_message hp (map Data cs @ later) ?r =
           (Some (Inr (Message (hdr @ body))), map Data (drop k cs) @ later, r')"
      "hr_buf r' @ concat (drop k cs) = xs" "\<not> drain_mode r'"
      using Cons.IH [of ?r] Cons.prems by auto
    then show ?thesis
      unfolding step by (intro exI [of _ "Suc k"] exI [of _ r']) simp
  qed
qed

section \<open>Conservation and progress\<close>

definition arrived :: "read_event list \<Rightarrow> bytes" where
  "arrived evs = concat (map (\<lambda>ev. case ev of Data bs \<Rightarrow> bs | _ \<Rightarrow> []) evs)"

lemma arrived_simps [simp]:
  "arrived [] = []" "arrived (Data bs # evs) = bs @ arrived evs" "arrived (Eof # evs) = arrived evs"
  "arrived (ReadErr # evs) = arrived evs" "arrived (Elapsed # evs) = arrived evs"
  "arrived (evs @ evs') = arrived evs @ arrived evs'"
  by (simp_all add: arrived_def)

text \<open>The message of a result, with the empty message for every other outcome.\<close>

fun message_of :: "(http_error + http_read_result) option \<Rightarrow> bytes" where
  "message_of (Some (Inr (Message m))) = m"
| "message_of _ = []"

lemma try_parse_conserves:
  "try_parse hp r = (res, r') \<Longrightarrow>
     hr_buf r = (case res of Inr (Some m) \<Rightarrow> m | _ \<Rightarrow> []) @ hr_buf r'"
  by (auto simp: try_parse_def Let_def split: if_splits option.splits sum.splits)

lemma try_parse_NoneD:
  "try_parse hp r = (Inr None, r') \<Longrightarrow> hr_buf r' = hr_buf r \<and> drain_mode r' = drain_mode r"
  by (auto simp: try_parse_def Let_def split: if_splits option.splits sum.splits)

lemma http_read_arrived: "http_read ev = Inr tmp \<Longrightarrow> arrived [ev] = tmp"
  by (cases ev) (simp_all add: arrived_def)

lemma http_read_error: "http_read ev = Inl e \<Longrightarrow> arrived [ev] = []"
  by (cases ev) (simp_all add: arrived_def)

lemma read_message_conserves:
  "read_message hp evs r = (res, evs', r') \<Longrightarrow>
     \<exists>used. evs = used @ evs' \<and> hr_buf r @ arrived used = message_of res @ hr_buf r'"
proof (induction hp evs r rule: read_message.induct)
  case (1 hp r)
  show ?case
  proof (cases "drain_mode r")
    case True
    with 1 show ?thesis by (auto split: if_splits)
  next
    case False
    obtain p r1 where p: "try_parse hp r = (p, r1)" by fastforce
    with False 1 try_parse_conserves [OF p] show ?thesis
      by (auto split: sum.splits option.splits)
  qed
next
  case (2 hp ev evs r)
  show ?case
  proof (cases "drain_mode r")
    case True
    show ?thesis
    proof (cases "hr_buf r = []")
      case e: True
      show ?thesis
      proof (cases "http_read ev")
        case (Inl x)
        with True e 2(2) http_read_error [OF Inl] show ?thesis
          by (intro exI [of _ "[ev]"]) auto
      next
        case (Inr tmp)
        with True e 2(2) http_read_arrived [OF Inr] show ?thesis
          by (intro exI [of _ "[ev]"]) auto
      qed
    next
      case False
      with True 2(2) show ?thesis by (intro exI [of _ "[]"]) auto
    qed
  next
    case nd: False
    obtain p r1 where p: "try_parse hp r = (p, r1)" by fastforce
    show ?thesis
    proof (cases "p = Inr None")
      case False
      with nd 2(2) p try_parse_conserves [OF p] show ?thesis
        by (intro exI [of _ "[]"]) (auto split: sum.splits option.splits)
    next
      case True
      with p have r1: "hr_buf r1 = hr_buf r" using try_parse_NoneD by blast
      show ?thesis
      proof (cases "http_read ev")
        case (Inl x)
        with nd True p r1 2(2) http_read_error [OF Inl] show ?thesis
          by (intro exI [of _ "[ev]"]) auto
      next
        case (Inr tmp)
        show ?thesis
        proof (cases "tmp = []")
          case t: True
          with Inr nd True p r1 2(2) http_read_arrived [OF Inr] show ?thesis
            by (intro exI [of _ "[ev]"]) (auto split: if_splits)
        next
          case t: False
          then have "read_message hp evs (r1\<lparr>hr_buf := hr_buf r1 @ tmp\<rparr>) = (res, evs', r')"
            using Inr nd True p 2(2) by simp
          then obtain used where "evs = used @ evs'"
            "hr_buf r @ tmp @ arrived used = message_of res @ hr_buf r'"
            using 2(1) [OF nd p [symmetric] True refl Inr t] r1 by auto
          then show ?thesis using http_read_arrived [OF Inr] arrived_simps(6) [of "[ev]" used]
            by (intro exI [of _ "ev # used"]) simp
        qed
      qed
    qed
  qed
qed

text \<open>A read that ends the call whatever the buffer holds.\<close>

definition ends_call :: "read_event \<Rightarrow> bool" where
  "ends_call ev \<longleftrightarrow> arrived [ev] = []"

lemma read_message_returns:
  "\<exists>ev\<in>set evs. ends_call ev \<Longrightarrow> fst (read_message hp evs r) \<noteq> None"
proof (induction hp evs r rule: read_message.induct)
  case (1 hp r)
  then show ?case by simp
next
  case (2 hp ev evs r)
  obtain p r1 where p: "try_parse hp r = (p, r1)" by fastforce
  have "fst (read_message hp evs (r1\<lparr>hr_buf := hr_buf r1 @ tmp\<rparr>)) \<noteq> None"
    if "p = Inr None" "\<not> drain_mode r" "http_read ev = Inr tmp" "tmp \<noteq> []" for tmp
  proof -
    have "\<not> ends_call ev" using that http_read_arrived by (auto simp: ends_call_def)
    with 2(2) have "\<exists>ev\<in>set evs. ends_call ev" by simp
    then show ?thesis using 2(1) [OF that(2) p [symmetric] that(1) refl that(3,4)] by blast
  qed
  then show ?case using p by (auto split: sum.splits option.splits)
qed

lemma read_message_never_NeedMore: "fst (read_message hp evs r) \<noteq> Some (Inr NeedMore)"
  by (induction hp evs r rule: read_message.induct)
    (auto split: sum.splits option.splits prod.splits)

section \<open>Properties\<close>

definition sample_header :: bytes where
  "sample_header =
     as_bytes ''PUT / HTTP/1.1'' @ [13, 10] @ as_bytes ''Content-Length: 2'' @ [13, 10, 13, 10]"

definition sample_parser :: http_parser where
  "sample_parser =
     \<lparr>parse_request = (\<lambda>bs. if bs = sample_header
        then Complete (Some 1) [(''Content-Length'', as_bytes ''2'')] else ParseError),
      parse_response = (\<lambda>_. ParseError)\<rparr>"

lemma sample_header_bytes:
  "sample_header = [80, 85, 84, 32, 47, 32, 72, 84, 84, 80, 47, 49, 46, 49, 13, 10,
     67, 111, 110, 116, 101, 110, 116, 45, 76, 101, 110, 103, 116, 104, 58, 32, 50, 13, 10, 13, 10]"
  by (simp add: sample_header_def as_bytes_def)

lemma sample_header_end: "find_header_end sample_header = Some (length sample_header)"
  by (simp add: sample_header_bytes find_header_end_def windows_def crlf2_def upt_rec)

lemma sample_content_length:
  "content_length [(''Content-Length'', as_bytes ''2'')] = Some 2"
proof -
  have name: "eq_ignore_ascii_case ''Content-Length'' ''content-length''"
    by (simp add: eq_ignore_ascii_case_def ascii_lower_def char_of_def bit_Suc_0_iff)
  have "from_utf8 (as_bytes ''2'') = Some ''2''"
    by (simp add: from_utf8_def as_bytes_def of_bytes_def char_of_def bit_Suc_0_iff)
  moreover have "trim ''2'' = ''2''"
    by (simp add: trim_def strip_all_stop strip_one_def white_space_def)
  moreover have "parse_usize ''2'' = Some 2"
    by (simp add: parse_usize_def parse_uint_def to_digit_def digits_value_def)
  ultimately show ?thesis by (simp add: content_length_def name)
qed

lemma sample_framed: "framed sample_parser sample_header [104, 105]"
proof -
  have "length sample_header = 37" by (simp add: sample_header_bytes)
  moreover have "classify_header sample_parser sample_header = Inr (Some True)"
    by (simp add: classify_header_def sample_parser_def version_ok_def)
  moreover have "parse_request sample_parser sample_header =
      Complete (Some 1) [(''Content-Length'', as_bytes ''2'')]"
    by (simp add: sample_parser_def)
  ultimately show ?thesis
    using sample_header_end sample_content_length by (auto simp: framed_def MAX_HEADER_SIZE_def)
qed

text \<open>
  The scan of \<^verbatim>\<open>find_header_end\<close> over all windows of four bytes finds exactly
  the first place at which the bytes before it end in an empty line, and finds nothing
  only when there is no such place.
\<close>

lemma find_header_end_first:
  "find_header_end buf =
     (if \<exists>n. header_ends buf n then Some (LEAST n. header_ends buf n) else None)"
proof (cases "\<exists>n. header_ends buf n")
  case True
  then have "header_ends buf (LEAST n. header_ends buf n)" by (metis LeastI)
  moreover have "\<forall>m<(LEAST n. header_ends buf n). \<not> header_ends buf m"
    by (blast dest: not_less_Least)
  ultimately have "find_header_end buf = Some (LEAST n. header_ends buf n)"
    unfolding find_header_end_Some by blast
  with True show ?thesis by presburger
next
  case False
  then show ?thesis by (metis find_header_end_None)
qed

lemma http_message_framed_witness:
  "\<exists>k r'. read_message sample_parser
            (map Data [take 20 sample_header, drop 20 sample_header @ [104], [105, 71]] @ [Eof])
            http_reader_new =
          (Some (Inr (Message (sample_header @ [104, 105]))),
           map Data (drop k [take 20 sample_header, drop 20 sample_header @ [104], [105, 71]]) @ [Eof],
           r') \<and>
        hr_buf r' @ concat (drop k [take 20 sample_header, drop 20 sample_header @ [104], [105, 71]]) =
          [71] \<and> \<not> drain_mode r'"
  by (rule http_message_framed [OF sample_framed])
    (simp_all add: http_reader_new_def sample_header_bytes)

text \<open>
  C32. A call of \<^verbatim>\<open>read_message\<close> that gets a read which is an error, an elapsed
  timer or the end of the stream returns, without looping on; it never answers
  \<open>NeedMore\<close>; and it neither loses, repeats nor reorders a byte: what was buffered
  followed by what was read is the returned message followed by what is buffered now.
\<close>

theorem read_message_total:
  assumes "\<exists>ev\<in>set evs. ends_call ev"
  shows "\<exists>res used evs' r'. read_message hp evs r = (Some res, evs', r') \<and> res \<noteq> Inr NeedMore \<and>
           evs = used @ evs' \<and> hr_buf r @ arrived used = message_of (Some res) @ hr_buf r'"
proof -
  obtain o' evs' r' where eq: "read_message hp evs r = (o', evs', r')" by (rule prod_cases3)
  moreover obtain res where "o' = Some res"
    using read_message_returns [OF assms, of hp r] eq by auto
  moreover have "res \<noteq> Inr NeedMore"
    using read_message_never_NeedMore [of hp evs r] eq calculation(2) by simp
  moreover obtain used where "evs = used @ evs' \<and> hr_buf r @ arrived used = message_of o' @ hr_buf r'"
    using read_message_conserves [OF eq] by blast
  ultimately show ?thesis by blast
qed

theorem read_message_total_witness:
  "\<exists>res used evs' r'. read_message sample_parser [Data [80, 85], Eof] http_reader_new =
       (Some res, evs', r') \<and> res \<noteq> Inr NeedMore \<and>
     [Data [80, 85], Eof] = used @ evs' \<and>
     hr_buf http_reader_new @ arrived used = message_of (Some res) @ hr_buf r'"
  by (rule read_message_total) (simp add: ends_call_def)

end
