(* ===== verification/Codec_Lru.thy ===== *)
theory Codec_Lru
  imports Prelude
begin

text \<open>
  \<^verbatim>\<open>src/src/codec/lru.rs\<close>: the encoder and decoder pairs of the compression
  layer and the table they are checked out of and back into. The compressor (crate
  \<^verbatim>\<open>zstd\<close>) is the parameter \<open>zstd_lib\<close> and the expiring cache (crate
  \<^verbatim>\<open>moka\<close>) the parameter \<open>moka\<close>. Pairs are shared by reference
  (\<^verbatim>\<open>Arc\<close>), so they live in a store and the table holds their references.
\<close>

section \<open>The libraries\<close>

text \<open>
  An operation on an encoder or a decoder returns whether it succeeded and the new state;
  a constructor that fails returns \<open>None\<close>. \<open>enc_take\<close> and \<open>dec_take\<close> are
  \<^verbatim>\<open>std::mem::take(x.get_mut())\<close>: they empty the internal output buffer.
\<close>

record ('e, 'd, 'ed, 'dd) zstd_lib =
  enc_dictionary :: "bytes \<Rightarrow> 32 word \<Rightarrow> 'ed"
  dec_dictionary :: "bytes \<Rightarrow> 'dd"
  enc_new :: "32 word \<Rightarrow> 'e option"
  enc_with_prepared_dictionary :: "'ed \<Rightarrow> 'e option"
  enc_long_distance_matching :: "bool \<Rightarrow> 'e \<Rightarrow> 'e option"
  enc_window_log :: "u32 \<Rightarrow> 'e \<Rightarrow> 'e option"
  dec_new :: "'d option"
  dec_with_prepared_dictionary :: "'dd \<Rightarrow> 'd option"
  dec_window_log_max :: "u32 \<Rightarrow> 'd \<Rightarrow> 'd option"
  enc_write_all :: "bytes \<Rightarrow> 'e \<Rightarrow> bool \<times> 'e"
  enc_flush :: "'e \<Rightarrow> bool \<times> 'e"
  enc_take :: "'e \<Rightarrow> bytes \<times> 'e"
  dec_write_all :: "bytes \<Rightarrow> 'd \<Rightarrow> bool \<times> 'd"
  dec_flush :: "'d \<Rightarrow> bool \<times> 'd"
  dec_take :: "'d \<Rightarrow> bytes \<times> 'd"

record 'c moka =
  c_build :: "u64 \<Rightarrow> u64 \<Rightarrow> 'c"
  c_iter :: "'c \<Rightarrow> (u128 \<times> nat) list"
  c_remove :: "u128 \<Rightarrow> 'c \<Rightarrow> nat option \<times> 'c"
  c_insert :: "u128 \<Rightarrow> nat \<Rightarrow> 'c \<Rightarrow> 'c"
  c_entry_count :: "'c \<Rightarrow> u64"

text \<open>
  What the cache documents, with \<open>\<alpha>\<close> its live entries: a built cache is empty; an
  entry may expire or be evicted at any operation, so each operation leaves at most the
  entries it should; a removal returns the live entry or nothing; an iteration shows live
  entries.
\<close>

definition moka_laws :: "'c moka \<Rightarrow> ('c \<Rightarrow> u128 \<rightharpoonup> nat) \<Rightarrow> bool" where
  "moka_laws M \<alpha> \<longleftrightarrow>
     (\<forall>cap ttl. \<alpha> (c_build M cap ttl) = Map.empty) \<and>
     (\<forall>k c v c'. c_remove M k c = (v, c') \<longrightarrow>
        (v = None \<or> v = \<alpha> c k) \<and> \<alpha> c' \<subseteq>\<^sub>m (\<alpha> c)(k := None)) \<and>
     (\<forall>k p c. \<alpha> (c_insert M k p c) \<subseteq>\<^sub>m (\<alpha> c)(k \<mapsto> p)) \<and>
     (\<forall>c k p. (k, p) \<in> set (c_iter M c) \<longrightarrow> \<alpha> c k = Some p)"

section \<open>Pairs\<close>

record ('ed, 'dd) codec_dict =
  cd_enc :: "'ed option"
  cd_dec :: "'dd option"

definition codec_dict_none :: "('ed, 'dd) codec_dict" where
  "codec_dict_none = \<lparr>cd_enc = None, cd_dec = None\<rparr>"

definition codec_dict_is_empty :: "('ed, 'dd) codec_dict \<Rightarrow> bool" where
  "codec_dict_is_empty dict \<longleftrightarrow> cd_enc dict = None"

definition codec_dict_from_bytes ::
    "('e, 'd, 'ed, 'dd) zstd_lib \<Rightarrow> bytes \<Rightarrow> 32 word \<Rightarrow> ('ed, 'dd) codec_dict" where
  "codec_dict_from_bytes Z dict level =
     (if dict = [] then codec_dict_none
      else \<lparr>cd_enc = Some (enc_dictionary Z dict level), cd_dec = Some (dec_dictionary Z dict)\<rparr>)"

definition make_encoder ::
    "('e, 'd, 'ed, 'dd) zstd_lib \<Rightarrow> ('ed, 'dd) codec_dict \<Rightarrow> 32 word \<Rightarrow> u32 \<Rightarrow> 'e option" where
  "make_encoder Z dict level window_log =
     Option.bind (case cd_enc dict of
         Some ed \<Rightarrow> enc_with_prepared_dictionary Z ed
       | None \<Rightarrow> enc_new Z level)
       (\<lambda>enc. Option.bind (enc_long_distance_matching Z True enc)
         (\<lambda>enc'. if window_log \<noteq> 0 then enc_window_log Z window_log enc' else Some enc'))"

definition make_decoder ::
    "('e, 'd, 'ed, 'dd) zstd_lib \<Rightarrow> ('ed, 'dd) codec_dict \<Rightarrow> u32 \<Rightarrow> 'd option" where
  "make_decoder Z dict window_log =
     Option.bind (case cd_dec dict of
         Some dd \<Rightarrow> dec_with_prepared_dictionary Z dd
       | None \<Rightarrow> dec_new Z)
       (\<lambda>dec. if window_log \<noteq> 0 then dec_window_log_max Z window_log dec else Some dec)"

record ('e, 'd, 'ed, 'dd) codec_pair =
  cp_encoder :: 'e
  cp_decoder :: 'd
  errored :: bool
  cp_dict :: "('ed, 'dd) codec_dict"
  cp_level :: "32 word"
  cp_window_log :: u32

definition codec_pair_new ::
    "('e, 'd, 'ed, 'dd) zstd_lib \<Rightarrow> ('ed, 'dd) codec_dict \<Rightarrow> 32 word \<Rightarrow> u32 \<Rightarrow>
     ('e, 'd, 'ed, 'dd) codec_pair option" where
  "codec_pair_new Z dict level window_log =
     Option.bind (make_encoder Z dict level window_log) (\<lambda>enc.
       Option.bind (make_decoder Z dict window_log) (\<lambda>dec.
         Some \<lparr>cp_encoder = enc, cp_decoder = dec, errored = False, cp_dict = dict,
               cp_level = level, cp_window_log = window_log\<rparr>))"

section \<open>The table\<close>

text \<open>
  \<open>pairs\<close> is the store of the pairs allocated so far; a reference is an index into it.
\<close>

record ('e, 'd, 'ed, 'dd, 'c) codec_lru =
  lru_cache :: 'c
  lru_dict :: "('ed, 'dd) codec_dict"
  lru_level :: "32 word"
  lru_window_log :: u32
  pairs :: "('e, 'd, 'ed, 'dd) codec_pair list"

definition codec_lru_new ::
    "'c moka \<Rightarrow> u64 \<Rightarrow> ('ed, 'dd) codec_dict \<Rightarrow> 32 word \<Rightarrow> u32 \<Rightarrow> u64 \<Rightarrow>
     ('e, 'd, 'ed, 'dd, 'c) codec_lru" where
  "codec_lru_new M capacity dict level window_log ttl_secs =
     \<lparr>lru_cache = c_build M capacity ttl_secs, lru_dict = dict, lru_level = level,
      lru_window_log = window_log, pairs = []\<rparr>"

definition is_errored :: "('e, 'd, 'ed, 'dd, 'c) codec_lru \<Rightarrow> nat \<Rightarrow> bool" where
  "is_errored lru p = errored (pairs lru ! p)"

definition update_pair ::
    "nat \<Rightarrow> (('e, 'd, 'ed, 'dd) codec_pair \<Rightarrow> ('e, 'd, 'ed, 'dd) codec_pair) \<Rightarrow>
     ('e, 'd, 'ed, 'dd, 'c) codec_lru \<Rightarrow> ('e, 'd, 'ed, 'dd, 'c) codec_lru" where
  "update_pair p f lru = lru\<lparr>pairs := (pairs lru)[p := f (pairs lru ! p)]\<rparr>"

definition mark_errored ::
    "nat \<Rightarrow> ('e, 'd, 'ed, 'dd, 'c) codec_lru \<Rightarrow> ('e, 'd, 'ed, 'dd, 'c) codec_lru" where
  "mark_errored p lru = update_pair p (\<lambda>cp. cp\<lparr>errored := True\<rparr>) lru"

definition reset_encoder ::
    "('e, 'd, 'ed, 'dd) zstd_lib \<Rightarrow> nat \<Rightarrow> ('e, 'd, 'ed, 'dd, 'c) codec_lru \<Rightarrow>
     bool \<times> ('e, 'd, 'ed, 'dd, 'c) codec_lru" where
  "reset_encoder Z p lru =
     (let cp = pairs lru ! p
      in case make_encoder Z (cp_dict cp) (cp_level cp) (cp_window_log cp) of
           None \<Rightarrow> (False, lru)
         | Some enc \<Rightarrow> (True, update_pair p (\<lambda>cp. cp\<lparr>cp_encoder := enc\<rparr>) lru))"

definition reset_decoder ::
    "('e, 'd, 'ed, 'dd) zstd_lib \<Rightarrow> nat \<Rightarrow> ('e, 'd, 'ed, 'dd, 'c) codec_lru \<Rightarrow>
     bool \<times> ('e, 'd, 'ed, 'dd, 'c) codec_lru" where
  "reset_decoder Z p lru =
     (let cp = pairs lru ! p
      in case make_decoder Z (cp_dict cp) (cp_window_log cp) of
           None \<Rightarrow> (False, lru)
         | Some dec \<Rightarrow> (True, update_pair p (\<lambda>cp. cp\<lparr>cp_decoder := dec\<rparr>) lru))"

text \<open>A new pair in the store; the cache does not know it yet.\<close>

definition fresh_pair ::
    "('e, 'd, 'ed, 'dd) zstd_lib \<Rightarrow> ('e, 'd, 'ed, 'dd, 'c) codec_lru \<Rightarrow>
     nat option \<times> ('e, 'd, 'ed, 'dd, 'c) codec_lru" where
  "fresh_pair Z lru =
     (case codec_pair_new Z (lru_dict lru) (lru_level lru) (lru_window_log lru) of
        None \<Rightarrow> (None, lru)
      | Some cp \<Rightarrow> (Some (length (pairs lru)), lru\<lparr>pairs := pairs lru @ [cp]\<rparr>))"

text \<open>
  \<^verbatim>\<open>checkout\<close>: the scan for a healthy pair and the removal are two separate
  operations on the shared cache, between which other streams may run.
  \<open>rid\<close> is what \<open>rand_id\<close> returns.
\<close>

definition checkout_scan :: "'c moka \<Rightarrow> ('e, 'd, 'ed, 'dd, 'c) codec_lru \<Rightarrow> u128 option" where
  "checkout_scan M lru =
     map_option fst (find (\<lambda>(pid, p). \<not> is_errored lru p) (c_iter M (lru_cache lru)))"

definition checkout_fresh ::
    "('e, 'd, 'ed, 'dd) zstd_lib \<Rightarrow> u128 \<Rightarrow> ('e, 'd, 'ed, 'dd, 'c) codec_lru \<Rightarrow>
     (u128 \<times> nat) option \<times> ('e, 'd, 'ed, 'dd, 'c) codec_lru" where
  "checkout_fresh Z rid lru =
     (case fresh_pair Z lru of (p, lru') \<Rightarrow> (map_option (\<lambda>p. (rid, p)) p, lru'))"

definition checkout_take ::
    "('e, 'd, 'ed, 'dd) zstd_lib \<Rightarrow> 'c moka \<Rightarrow> u128 \<Rightarrow> u128 option \<Rightarrow>
     ('e, 'd, 'ed, 'dd, 'c) codec_lru \<Rightarrow>
     (u128 \<times> nat) option \<times> ('e, 'd, 'ed, 'dd, 'c) codec_lru" where
  "checkout_take Z M rid reuse_id lru =
     (case reuse_id of
        None \<Rightarrow> checkout_fresh Z rid lru
      | Some pid \<Rightarrow>
          (case c_remove M pid (lru_cache lru) of
             (None, c) \<Rightarrow> checkout_fresh Z rid (lru\<lparr>lru_cache := c\<rparr>)
           | (Some p, c) \<Rightarrow>
               if \<not> is_errored lru p then (Some (pid, p), lru\<lparr>lru_cache := c\<rparr>)
               else checkout_fresh Z rid (lru\<lparr>lru_cache := c\<rparr>)))"

definition checkout ::
    "('e, 'd, 'ed, 'dd) zstd_lib \<Rightarrow> 'c moka \<Rightarrow> u128 \<Rightarrow> ('e, 'd, 'ed, 'dd, 'c) codec_lru \<Rightarrow>
     (u128 \<times> nat) option \<times> ('e, 'd, 'ed, 'dd, 'c) codec_lru" where
  "checkout Z M rid lru = checkout_take Z M rid (checkout_scan M lru) lru"

datatype lookup_result = Hit u128 nat | Miss u128 nat

definition lookup_fresh ::
    "('e, 'd, 'ed, 'dd) zstd_lib \<Rightarrow> u128 \<Rightarrow> ('e, 'd, 'ed, 'dd, 'c) codec_lru \<Rightarrow>
     lookup_result option \<times> ('e, 'd, 'ed, 'dd, 'c) codec_lru" where
  "lookup_fresh Z pid lru =
     (case fresh_pair Z lru of (p, lru') \<Rightarrow> (map_option (Miss pid) p, lru'))"

definition lookup ::
    "('e, 'd, 'ed, 'dd) zstd_lib \<Rightarrow> 'c moka \<Rightarrow> u128 \<Rightarrow> ('e, 'd, 'ed, 'dd, 'c) codec_lru \<Rightarrow>
     lookup_result option \<times> ('e, 'd, 'ed, 'dd, 'c) codec_lru" where
  "lookup Z M pid lru =
     (if pid = 0 then lookup_fresh Z pid lru
      else case c_remove M pid (lru_cache lru) of
             (None, c) \<Rightarrow> lookup_fresh Z pid (lru\<lparr>lru_cache := c\<rparr>)
           | (Some p, c) \<Rightarrow>
               if \<not> is_errored lru p then (Some (Hit pid p), lru\<lparr>lru_cache := c\<rparr>)
               else lookup_fresh Z pid (lru\<lparr>lru_cache := c\<rparr>))"

definition checkin ::
    "'c moka \<Rightarrow> u128 \<Rightarrow> nat \<Rightarrow> ('e, 'd, 'ed, 'dd, 'c) codec_lru \<Rightarrow> ('e, 'd, 'ed, 'dd, 'c) codec_lru" where
  "checkin M pid p lru =
     (if pid = 0 \<or> is_errored lru p then lru
      else lru\<lparr>lru_cache := c_insert M pid p (lru_cache lru)\<rparr>)"

definition lru_len :: "'c moka \<Rightarrow> ('e, 'd, 'ed, 'dd, 'c) codec_lru \<Rightarrow> u64" where
  "lru_len M lru = c_entry_count M (lru_cache lru)"

definition lru_is_empty :: "'c moka \<Rightarrow> ('e, 'd, 'ed, 'dd, 'c) codec_lru \<Rightarrow> bool" where
  "lru_is_empty M lru \<longleftrightarrow> lru_len M lru = 0"

text \<open>
  \<^verbatim>\<open>rand_id\<close> of the clock (nanoseconds since the epoch, 1 when the clock is before
  it) and the printed name of the thread.
\<close>

definition tid_hash :: "bytes \<Rightarrow> u128" where
  "tid_hash bs = foldl (\<lambda>acc b. acc * 31 + ucast b) 0 bs"

definition xorshift :: "u128 \<Rightarrow> u128" where
  "xorshift x =
     (let x = x XOR push_bit 13 x;
          x = x XOR drop_bit 7 x
      in x XOR push_bit 17 x)"

definition rand_id :: "u128 option \<Rightarrow> bytes \<Rightarrow> u128" where
  "rand_id clock thread =
     (let now = (case clock of None \<Rightarrow> 1 | Some t \<Rightarrow> t);
          x = xorshift (now XOR word_rotl 37 (tid_hash thread))
      in if x = 0 then 1 else x)"

section \<open>Random identifiers\<close>

lemma xor_push_bit_inj:
  fixes x y :: "'a::len word"
  assumes "0 < n" and "x XOR push_bit n x = y XOR push_bit n y"
  shows "x = y"
proof (rule bit_word_eqI)
  fix i assume "i < LENGTH('a)"
  then show "bit x i = bit y i"
  proof (induction i rule: less_induct)
    case (less i)
    have "bit (x XOR push_bit n x) i = bit (y XOR push_bit n y) i" using assms(2) by simp
    moreover have "bit x (i - n) = bit y (i - n)" if "n \<le> i"
      using less that assms(1) by simp
    ultimately show ?case using less.prems
      by (auto simp: bit_xor_iff bit_push_bit_iff)
  qed
qed

lemma xor_drop_bit_inj:
  fixes x y :: "'a::len word"
  assumes "0 < n" and "x XOR drop_bit n x = y XOR drop_bit n y"
  shows "x = y"
proof (rule bit_word_eqI)
  fix i assume "i < LENGTH('a)"
  then show "bit x i = bit y i"
  proof (induction "LENGTH('a) - i" arbitrary: i rule: less_induct)
    case less
    have "bit (x XOR drop_bit n x) i = bit (y XOR drop_bit n y) i" using assms(2) by simp
    moreover have "bit x (n + i) = bit y (n + i)"
    proof (cases "n + i < LENGTH('a)")
      case True
      then show ?thesis using less assms(1) by simp
    next
      case False
      then show ?thesis by (meson bit_imp_le_length leI)
    qed
    ultimately show ?case by (auto simp: bit_xor_iff bit_drop_bit_eq)
  qed
qed

lemma inj_xorshift: "inj xorshift"
  unfolding xorshift_def Let_def
  by (intro injI) (blast dest: xor_push_bit_inj [rotated] xor_drop_bit_inj [rotated]
      intro: zero_less_numeral)

lemma xorshift_0: "xorshift x = 0 \<longleftrightarrow> x = 0"
proof -
  have "xorshift 0 = 0" by (simp add: xorshift_def)
  then show ?thesis using inj_xorshift by (metis injD)
qed

section \<open>What an acquisition does\<close>

text \<open>
  The two ways a stream gets a pair, seen through the live entries of the cache: a healthy
  pair leaves the cache, or a new one is allocated.
\<close>

definition reused ::
    "('c \<Rightarrow> u128 \<rightharpoonup> nat) \<Rightarrow> u128 \<Rightarrow> nat \<Rightarrow> ('e, 'd, 'ed, 'dd, 'c) codec_lru \<Rightarrow>
     ('e, 'd, 'ed, 'dd, 'c) codec_lru \<Rightarrow> bool" where
  "reused \<alpha> k p lru lru' \<longleftrightarrow>
     \<alpha> (lru_cache lru) k = Some p \<and> \<not> is_errored lru p \<and> pairs lru' = pairs lru \<and>
     \<alpha> (lru_cache lru') \<subseteq>\<^sub>m (\<alpha> (lru_cache lru))(k := None)"

definition created ::
    "('e, 'd, 'ed, 'dd) zstd_lib \<Rightarrow> ('c \<Rightarrow> u128 \<rightharpoonup> nat) \<Rightarrow> nat \<Rightarrow>
     ('e, 'd, 'ed, 'dd, 'c) codec_lru \<Rightarrow> ('e, 'd, 'ed, 'dd, 'c) codec_lru \<Rightarrow> bool" where
  "created Z \<alpha> p lru lru' \<longleftrightarrow>
     p = length (pairs lru) \<and> \<alpha> (lru_cache lru') \<subseteq>\<^sub>m \<alpha> (lru_cache lru) \<and>
     (\<exists>cp. codec_pair_new Z (lru_dict lru) (lru_level lru) (lru_window_log lru) = Some cp \<and>
       pairs lru' = pairs lru @ [cp])"

text \<open>The settings of a table never change.\<close>

definition same_settings ::
    "('e, 'd, 'ed, 'dd, 'c) codec_lru \<Rightarrow> ('e, 'd, 'ed, 'dd, 'c) codec_lru \<Rightarrow> bool" where
  "same_settings lru lru' \<longleftrightarrow>
     lru_dict lru' = lru_dict lru \<and> lru_level lru' = lru_level lru \<and>
     lru_window_log lru' = lru_window_log lru"

lemma codec_pair_new_SomeD:
  assumes "codec_pair_new Z dict level wl = Some cp"
  shows "make_encoder Z dict level wl = Some (cp_encoder cp)"
    and "make_decoder Z dict wl = Some (cp_decoder cp)"
    and "\<not> errored cp" and "cp_dict cp = dict" and "cp_level cp = level" and "cp_window_log cp = wl"
  using assms by (auto simp: codec_pair_new_def bind_eq_Some_conv)

lemma moka_removeD:
  "moka_laws M \<alpha> \<Longrightarrow> c_remove M k c = (v, c') \<Longrightarrow>
     (v = None \<or> v = \<alpha> c k) \<and> \<alpha> c' \<subseteq>\<^sub>m (\<alpha> c)(k := None)"
  unfolding moka_laws_def by blast

lemma moka_insertD: "moka_laws M \<alpha> \<Longrightarrow> \<alpha> (c_insert M k p c) \<subseteq>\<^sub>m (\<alpha> c)(k \<mapsto> p)"
  unfolding moka_laws_def by blast

lemma map_le_removed: "m \<subseteq>\<^sub>m n(k := None) \<Longrightarrow> m \<subseteq>\<^sub>m n"
  by (metis map_le_trans upd_None_map_le)

lemma fresh_pair_cases:
  assumes "fresh_pair Z lru = (r, lru')"
  obtains "r = None" "lru' = lru"
  | cp where "r = Some (length (pairs lru))"
      "codec_pair_new Z (lru_dict lru) (lru_level lru) (lru_window_log lru) = Some cp"
      "lru' = lru\<lparr>pairs := pairs lru @ [cp]\<rparr>"
  using assms unfolding fresh_pair_def by (cases "codec_pair_new Z (lru_dict lru) (lru_level lru)
      (lru_window_log lru)") auto

lemma fresh_pair_created:
  assumes "fresh_pair Z (lru\<lparr>lru_cache := c\<rparr>) = (Some p, lru')"
    and "\<alpha> c \<subseteq>\<^sub>m \<alpha> (lru_cache lru)"
  shows "created Z \<alpha> p lru lru' \<and> same_settings lru lru'"
  using assms(1)
  by (rule fresh_pair_cases) (auto simp: created_def same_settings_def assms(2))

lemma checkout_take_SomeD:
  assumes M: "moka_laws M \<alpha>" and r: "checkout_take Z M rid reuse lru = (Some (k, p), lru')"
  shows "(reused \<alpha> k p lru lru' \<or> k = rid \<and> created Z \<alpha> p lru lru') \<and> same_settings lru lru'"
proof -
  have fresh: "k = rid \<and> created Z \<alpha> p lru lru' \<and> same_settings lru lru'"
    if "checkout_fresh Z rid (lru\<lparr>lru_cache := c\<rparr>) = (Some (k, p), lru')"
      "\<alpha> c \<subseteq>\<^sub>m \<alpha> (lru_cache lru)" for c
  proof -
    obtain a b where ab: "fresh_pair Z (lru\<lparr>lru_cache := c\<rparr>) = (a, b)" by (rule prod.exhaust)
    have b: "map_option (Pair rid) a = Some (k, p)" "b = lru'"
      using that(1) by (simp_all only: checkout_fresh_def ab prod.case prod.inject)
    from b(1) have a: "a = Some p" "k = rid" by (cases a; simp)+
    show ?thesis using fresh_pair_created [OF ab [unfolded b(2) a(1)] that(2)] a(2) by blast
  qed
  show ?thesis
  proof (cases reuse)
    case None
    with r have "checkout_fresh Z rid (lru\<lparr>lru_cache := lru_cache lru\<rparr>) = (Some (k, p), lru')"
      by (simp add: checkout_take_def)
    from fresh [OF this map_le_refl] show ?thesis by blast
  next
    case (Some i)
    obtain v c where v: "c_remove M i (lru_cache lru) = (v, c)" by fastforce
    note rm = moka_removeD [OF M v]
    have sub: "\<alpha> c \<subseteq>\<^sub>m \<alpha> (lru_cache lru)" by (rule map_le_removed [OF conjunct2 [OF rm]])
    show ?thesis
    proof (cases "\<exists>q. v = Some q \<and> \<not> is_errored lru q")
      case True
      then obtain q where q: "v = Some q" "\<not> is_errored lru q" by blast
      with r Some v have "k = i" "p = q" "lru' = lru\<lparr>lru_cache := c\<rparr>"
        by (simp_all add: checkout_take_def)
      with q rm show ?thesis by (simp add: reused_def same_settings_def)
    next
      case False
      with r Some v have "checkout_fresh Z rid (lru\<lparr>lru_cache := c\<rparr>) = (Some (k, p), lru')"
        by (auto simp: checkout_take_def split: option.splits if_splits)
      from fresh [OF this sub] show ?thesis by blast
    qed
  qed
qed

fun result_pair :: "lookup_result \<Rightarrow> nat" where
  "result_pair (Hit _ p) = p"
| "result_pair (Miss _ p) = p"

lemma lookup_SomeD:
  assumes M: "moka_laws M \<alpha>" and r: "lookup Z M k lru = (Some res, lru')"
  shows "(case res of Hit i p \<Rightarrow> i = k \<and> k \<noteq> 0 \<and> reused \<alpha> k p lru lru'
            | Miss i p \<Rightarrow> i = k \<and> created Z \<alpha> p lru lru') \<and> same_settings lru lru'"
proof -
  have fresh: "(\<exists>p. res = Miss k p \<and> created Z \<alpha> p lru lru') \<and> same_settings lru lru'"
    if "lookup_fresh Z k (lru\<lparr>lru_cache := c\<rparr>) = (Some res, lru')"
      "\<alpha> c \<subseteq>\<^sub>m \<alpha> (lru_cache lru)" for c
  proof -
    obtain a b where ab: "fresh_pair Z (lru\<lparr>lru_cache := c\<rparr>) = (a, b)" by (rule prod.exhaust)
    have b: "map_option (Miss k) a = Some res" "b = lru'"
      using that(1) by (simp_all only: lookup_fresh_def ab prod.case prod.inject)
    from b(1) obtain p where a: "a = Some p" "res = Miss k p" by (cases a) auto
    show ?thesis using fresh_pair_created [OF ab [unfolded b(2) a(1)] that(2)] a(2) by blast
  qed
  show ?thesis
  proof (cases "k = 0")
    case True
    with r have "lookup_fresh Z k (lru\<lparr>lru_cache := lru_cache lru\<rparr>) = (Some res, lru')"
      by (simp add: lookup_def)
    from fresh [OF this map_le_refl] show ?thesis by (elim conjE exE) simp
  next
    case nz: False
    obtain v c where v: "c_remove M k (lru_cache lru) = (v, c)" by fastforce
    note rm = moka_removeD [OF M v]
    have sub: "\<alpha> c \<subseteq>\<^sub>m \<alpha> (lru_cache lru)" by (rule map_le_removed [OF conjunct2 [OF rm]])
    show ?thesis
    proof (cases "\<exists>q. v = Some q \<and> \<not> is_errored lru q")
      case True
      then obtain q where q: "v = Some q" "\<not> is_errored lru q" by blast
      with r nz v have "res = Hit k q" "lru' = lru\<lparr>lru_cache := c\<rparr>"
        by (simp_all add: lookup_def)
      with q rm nz show ?thesis by (simp add: reused_def same_settings_def)
    next
      case False
      with r nz v have "lookup_fresh Z k (lru\<lparr>lru_cache := c\<rparr>) = (Some res, lru')"
        by (auto simp: lookup_def split: option.splits if_splits)
      from fresh [OF this sub] show ?thesis by (elim conjE exE) simp
    qed
  qed
qed

lemma checkout_take_NoneD:
  assumes M: "moka_laws M \<alpha>" and r: "checkout_take Z M rid reuse lru = (None, lru')"
  shows "\<exists>c. lru' = lru\<lparr>lru_cache := c\<rparr> \<and> \<alpha> c \<subseteq>\<^sub>m \<alpha> (lru_cache lru)"
proof -
  have fresh: "lru' = lru\<lparr>lru_cache := c\<rparr>"
    if "checkout_fresh Z rid (lru\<lparr>lru_cache := c\<rparr>) = (None, lru')" for c
  proof -
    obtain a b where ab: "fresh_pair Z (lru\<lparr>lru_cache := c\<rparr>) = (a, b)" by (rule prod.exhaust)
    have b: "map_option (Pair rid) a = None" "b = lru'"
      using that by (simp_all only: checkout_fresh_def ab prod.case prod.inject)
    from b(1) have a: "a = None" by simp
    show ?thesis using ab [unfolded b(2) a] by (rule fresh_pair_cases) (assumption | simp)+
  qed
  show ?thesis
  proof (cases reuse)
    case None
    with r have "checkout_fresh Z rid (lru\<lparr>lru_cache := lru_cache lru\<rparr>) = (None, lru')"
      by (simp add: checkout_take_def)
    from fresh [OF this] show ?thesis by (intro exI [of _ "lru_cache lru"]) simp
  next
    case (Some i)
    obtain v c where v: "c_remove M i (lru_cache lru) = (v, c)" by fastforce
    have sub: "\<alpha> c \<subseteq>\<^sub>m \<alpha> (lru_cache lru)"
      by (rule map_le_removed [OF conjunct2 [OF moka_removeD [OF M v]]])
    from r Some v have "checkout_fresh Z rid (lru\<lparr>lru_cache := c\<rparr>) = (None, lru')"
      by (auto simp: checkout_take_def split: option.splits if_splits)
    from fresh [OF this] sub show ?thesis by (intro exI [of _ c]) simp
  qed
qed

lemma lookup_NoneD:
  assumes M: "moka_laws M \<alpha>" and r: "lookup Z M k lru = (None, lru')"
  shows "\<exists>c. lru' = lru\<lparr>lru_cache := c\<rparr> \<and> \<alpha> c \<subseteq>\<^sub>m \<alpha> (lru_cache lru)"
proof -
  have fresh: "lru' = lru\<lparr>lru_cache := c\<rparr>"
    if "lookup_fresh Z k (lru\<lparr>lru_cache := c\<rparr>) = (None, lru')" for c
  proof -
    obtain a b where ab: "fresh_pair Z (lru\<lparr>lru_cache := c\<rparr>) = (a, b)" by (rule prod.exhaust)
    have b: "map_option (Miss k) a = None" "b = lru'"
      using that by (simp_all only: lookup_fresh_def ab prod.case prod.inject)
    from b(1) have a: "a = None" by simp
    show ?thesis using ab [unfolded b(2) a] by (rule fresh_pair_cases) (assumption | simp)+
  qed
  obtain c where "lookup_fresh Z k (lru\<lparr>lru_cache := c\<rparr>) = (None, lru')"
    "\<alpha> c \<subseteq>\<^sub>m \<alpha> (lru_cache lru)"
  proof (cases "k = 0")
    case True
    with r have "lookup_fresh Z k (lru\<lparr>lru_cache := lru_cache lru\<rparr>) = (None, lru')"
      by (simp add: lookup_def)
    from that [OF this map_le_refl] show ?thesis .
  next
    case nz: False
    obtain v c where v: "c_remove M k (lru_cache lru) = (v, c)" by fastforce
    from r nz v have "lookup_fresh Z k (lru\<lparr>lru_cache := c\<rparr>) = (None, lru')"
      by (auto simp: lookup_def split: option.splits if_splits)
    from that [OF this map_le_removed [OF conjunct2 [OF moka_removeD [OF M v]]]] show ?thesis .
  qed
  with fresh show ?thesis by (intro exI [of _ c]) simp
qed

section \<open>Streams sharing the table\<close>

text \<open>
  The streams of a process on one table: \<open>held\<close> are the references in the hands of
  streams, one entry per holder, and \<open>scans\<close> the results of scans whose removal has not
  happened yet. Every operation of the table is a step of its own; a holder may use its pair,
  return it or mark it broken and drop it; entries may expire at any time.
\<close>

record ('e, 'd, 'ed, 'dd, 'c) table_users =
  tab :: "('e, 'd, 'ed, 'dd, 'c) codec_lru"
  held :: "nat list"
  scans :: "u128 option list"

inductive table_step ::
    "('e, 'd, 'ed, 'dd) zstd_lib \<Rightarrow> 'c moka \<Rightarrow> ('c \<Rightarrow> u128 \<rightharpoonup> nat) \<Rightarrow>
     ('e, 'd, 'ed, 'dd, 'c) table_users \<Rightarrow> ('e, 'd, 'ed, 'dd, 'c) table_users \<Rightarrow> bool"
  for Z M \<alpha> where
  step_scan: "table_step Z M \<alpha> s (s\<lparr>scans := checkout_scan M (tab s) # scans s\<rparr>)"
| step_take: "r \<in> set (scans s) \<Longrightarrow> checkout_take Z M rid r (tab s) = (Some (k, p), t) \<Longrightarrow>
     table_step Z M \<alpha> s (s\<lparr>tab := t, held := p # held s, scans := remove1 r (scans s)\<rparr>)"
| step_take_failed: "r \<in> set (scans s) \<Longrightarrow> checkout_take Z M rid r (tab s) = (None, t) \<Longrightarrow>
     table_step Z M \<alpha> s (s\<lparr>tab := t, scans := remove1 r (scans s)\<rparr>)"
| step_lookup: "lookup Z M k (tab s) = (Some res, t) \<Longrightarrow>
     table_step Z M \<alpha> s (s\<lparr>tab := t, held := result_pair res # held s\<rparr>)"
| step_lookup_failed: "lookup Z M k (tab s) = (None, t) \<Longrightarrow> table_step Z M \<alpha> s (s\<lparr>tab := t\<rparr>)"
| step_use: "p \<in> set (held s) \<Longrightarrow>
     table_step Z M \<alpha> s
       (s\<lparr>tab := update_pair p (\<lambda>cp. cp\<lparr>cp_encoder := e, cp_decoder := d\<rparr>) (tab s)\<rparr>)"
| step_checkin: "p \<in> set (held s) \<Longrightarrow>
     table_step Z M \<alpha> s (s\<lparr>tab := checkin M k p (tab s), held := remove1 p (held s)\<rparr>)"
| step_discard: "p \<in> set (held s) \<Longrightarrow>
     table_step Z M \<alpha> s (s\<lparr>tab := mark_errored p (tab s), held := remove1 p (held s)\<rparr>)"
| step_expire: "\<alpha> c \<subseteq>\<^sub>m \<alpha> (lru_cache (tab s)) \<Longrightarrow>
     table_step Z M \<alpha> s (s\<lparr>tab := (tab s)\<lparr>lru_cache := c\<rparr>\<rparr>)"

text \<open>
  The specification: a pool of pairs, each idle or busy. Taking a pair makes it busy,
  returning it may make it idle again, and idle pairs may vanish.
\<close>

record pool =
  idle :: "nat set"
  busy :: "nat set"

inductive pool_step :: "pool \<Rightarrow> pool \<Rightarrow> bool" where
  pool_take: "p \<in> idle P \<Longrightarrow> I \<subseteq> idle P - {p} \<Longrightarrow>
     pool_step P \<lparr>idle = I, busy = insert p (busy P)\<rparr>"
| pool_create: "p \<notin> idle P \<Longrightarrow> p \<notin> busy P \<Longrightarrow> I \<subseteq> idle P \<Longrightarrow>
     pool_step P \<lparr>idle = I, busy = insert p (busy P)\<rparr>"
| pool_return: "p \<in> busy P \<Longrightarrow> I \<subseteq> insert p (idle P) \<Longrightarrow>
     pool_step P \<lparr>idle = I, busy = busy P - {p}\<rparr>"
| pool_expire: "I \<subseteq> idle P \<Longrightarrow> pool_step P \<lparr>idle = I, busy = busy P\<rparr>"

inductive_cases pool_stepE: "pool_step P Q"

definition pool_of ::
    "('c \<Rightarrow> u128 \<rightharpoonup> nat) \<Rightarrow> ('e, 'd, 'ed, 'dd, 'c) table_users \<Rightarrow> pool" where
  "pool_of \<alpha> s = \<lparr>idle = ran (\<alpha> (lru_cache (tab s))), busy = set (held s)\<rparr>"

text \<open>
  The invariant: no reference is held twice, none is both held and cached, none is
  cached under two identifiers, all of them exist, and none of them is broken.
\<close>

definition slots_ok :: "(u128 \<rightharpoonup> nat) \<Rightarrow> nat list \<Rightarrow> bool" where
  "slots_ok m hs \<longleftrightarrow> inj_on m (dom m) \<and> distinct hs \<and> set hs \<inter> ran m = {}"

definition healthy :: "('e, 'd, 'ed, 'dd) codec_pair list \<Rightarrow> nat set \<Rightarrow> bool" where
  "healthy ps R \<longleftrightarrow> (\<forall>p\<in>R. p < length ps \<and> \<not> errored (ps ! p))"

definition table_inv ::
    "('c \<Rightarrow> u128 \<rightharpoonup> nat) \<Rightarrow> ('e, 'd, 'ed, 'dd, 'c) table_users \<Rightarrow> bool" where
  "table_inv \<alpha> s \<longleftrightarrow>
     slots_ok (\<alpha> (lru_cache (tab s))) (held s) \<and>
     healthy (pairs (tab s)) (set (held s) \<union> ran (\<alpha> (lru_cache (tab s))))"

lemma ran_map_le: "m \<subseteq>\<^sub>m n \<Longrightarrow> ran m \<subseteq> ran n"
  by (auto simp: ran_def map_le_def dom_def) metis

lemma inj_on_map_le:
  assumes "m \<subseteq>\<^sub>m n" and "inj_on n (dom n)"
  shows "inj_on m (dom m)"
proof (rule inj_onI)
  fix x y assume "x \<in> dom m" "y \<in> dom m" "m x = m y"
  moreover then have "n x = m x" "n y = m y" "x \<in> dom n" "y \<in> dom n"
    using assms(1) map_le_implies_dom_le [OF assms(1)] by (auto simp: map_le_def)
  ultimately show "x = y" using assms(2) by (metis inj_onD)
qed

lemma slots_ok_le: "slots_ok n hs \<Longrightarrow> m \<subseteq>\<^sub>m n \<Longrightarrow> slots_ok m hs"
  using inj_on_map_le [of m n] ran_map_le [of m n] by (auto simp: slots_ok_def)

lemma slots_ok_take:
  assumes "slots_ok n hs" and "n k = Some p" and "m \<subseteq>\<^sub>m n(k := None)"
  shows "slots_ok m (p # hs) \<and> p \<notin> ran m"
proof -
  have "p \<notin> ran (n(k := None))"
  proof
    assume "p \<in> ran (n(k := None))"
    then obtain x where "x \<noteq> k" "n x = Some p" by (auto simp: ran_def split: if_splits)
    moreover from this assms(1,2) have "x = k" by (auto simp: slots_ok_def inj_on_def dom_def)
    ultimately show False by blast
  qed
  then have "p \<notin> ran m" using ran_map_le [OF assms(3)] by blast
  moreover have "p \<notin> set hs" using assms(1,2) by (auto simp: slots_ok_def ran_def)
  moreover have "slots_ok m hs" using slots_ok_le [OF assms(1) map_le_removed [OF assms(3)]] .
  ultimately show ?thesis by (simp add: slots_ok_def)
qed

lemma slots_ok_return:
  assumes "slots_ok n hs" and "p \<in> set hs" and "m \<subseteq>\<^sub>m n(k \<mapsto> p)"
  shows "slots_ok m (remove1 p hs)"
proof -
  have p: "p \<notin> ran n" using assms(1,2) by (auto simp: slots_ok_def)
  have "inj_on (n(k \<mapsto> p)) (dom (n(k \<mapsto> p)))"
  proof (rule inj_onI)
    fix x y assume *: "x \<in> dom (n(k \<mapsto> p))" "y \<in> dom (n(k \<mapsto> p))" "(n(k \<mapsto> p)) x = (n(k \<mapsto> p)) y"
    show "x = y"
    proof (cases "x = k \<or> y = k")
      case True
      with * p show ?thesis by (auto simp: ran_def split: if_splits)
    next
      case False
      with * assms(1) show ?thesis by (auto simp: slots_ok_def inj_on_def dom_def)
    qed
  qed
  moreover have "distinct hs" using assms(1) by (simp add: slots_ok_def)
  moreover have "ran (n(k \<mapsto> p)) \<subseteq> insert p (ran n)" by (auto simp: ran_def)
  ultimately have "slots_ok (n(k \<mapsto> p)) (remove1 p hs)"
    using assms(1) by (auto simp: slots_ok_def)
  then show ?thesis using assms(3) by (rule slots_ok_le)
qed

lemma slots_ok_drop: "slots_ok n hs \<Longrightarrow> slots_ok n (remove1 p hs)"
  by (auto simp: slots_ok_def dest: notin_set_remove1)

lemma healthy_mono: "healthy ps R \<Longrightarrow> Q \<subseteq> R \<Longrightarrow> healthy ps Q"
  by (auto simp: healthy_def)

lemma healthy_alloc:
  "healthy ps R \<Longrightarrow> \<not> errored cp \<Longrightarrow> healthy (ps @ [cp]) (insert (length ps) R)"
  by (auto simp: healthy_def nth_append)

lemma healthy_update:
  assumes "healthy ps R" and "p \<notin> R \<or> \<not> errored cp"
  shows "healthy (ps[p := cp]) R"
  unfolding healthy_def
proof
  fix q assume "q \<in> R"
  with assms show "q < length (ps[p := cp]) \<and> \<not> errored (ps[p := cp] ! q)"
    by (cases "q = p") (auto simp: healthy_def)
qed

lemma reused_keeps:
  assumes inv: "table_inv \<alpha> s" and a: "reused \<alpha> k p (tab s) t"
    and s': "tab s' = t" "held s' = p # held s"
  shows "table_inv \<alpha> s' \<and> pool_step (pool_of \<alpha> s) (pool_of \<alpha> s')"
proof -
  let ?m = "\<alpha> (lru_cache (tab s))" and ?m' = "\<alpha> (lru_cache t)"
  have k: "?m k = Some p" and le: "?m' \<subseteq>\<^sub>m ?m(k := None)" and ps: "pairs t = pairs (tab s)"
    using a by (simp_all add: reused_def)
  have slots: "slots_ok ?m' (p # held s) \<and> p \<notin> ran ?m'"
    using inv slots_ok_take [OF _ k le, of "held s"] by (simp add: table_inv_def)
  have p: "p \<in> ran ?m" using k by (rule ranI)
  have sub: "ran ?m' \<subseteq> ran ?m - {p}"
    using ran_map_le [OF map_le_removed [OF le]] slots by blast
  have "healthy (pairs t) (set (p # held s) \<union> ran ?m')"
    unfolding ps by (rule healthy_mono [of _ "set (held s) \<union> ran ?m"])
      (use inv p sub in \<open>auto simp: table_inv_def\<close>)
  with slots have "table_inv \<alpha> s'" by (simp add: table_inv_def s')
  moreover have "pool_step (pool_of \<alpha> s) (pool_of \<alpha> s')"
    using pool_take [of p "pool_of \<alpha> s" "ran ?m'"] p sub by (simp add: pool_of_def s')
  ultimately show ?thesis ..
qed

lemma created_keeps:
  assumes inv: "table_inv \<alpha> s" and a: "created Z \<alpha> p (tab s) t"
    and s': "tab s' = t" "held s' = p # held s"
  shows "table_inv \<alpha> s' \<and> pool_step (pool_of \<alpha> s) (pool_of \<alpha> s')"
proof -
  let ?m = "\<alpha> (lru_cache (tab s))" and ?m' = "\<alpha> (lru_cache t)"
  obtain cp where p: "p = length (pairs (tab s))" and le: "?m' \<subseteq>\<^sub>m ?m"
    and cp: "\<not> errored cp" and ps: "pairs t = pairs (tab s) @ [cp]"
    using a by (auto simp: created_def dest: codec_pair_new_SomeD(3))
  have h: "healthy (pairs (tab s)) (set (held s) \<union> ran ?m)" and so: "slots_ok ?m (held s)"
    using inv by (simp_all add: table_inv_def)
  have new: "p \<notin> set (held s)" "p \<notin> ran ?m" using h p by (auto simp: healthy_def)
  have sub: "ran ?m' \<subseteq> ran ?m" using le by (rule ran_map_le)
  have "slots_ok ?m' (p # held s)"
    using slots_ok_le [OF so le] new sub by (auto simp: slots_ok_def)
  moreover have "healthy (pairs t) (set (p # held s) \<union> ran ?m')"
    unfolding ps by (rule healthy_mono [OF healthy_alloc [OF h cp]]) (use sub p in auto)
  ultimately have "table_inv \<alpha> s'" by (simp add: table_inv_def s')
  moreover have "pool_step (pool_of \<alpha> s) (pool_of \<alpha> s')"
    using pool_create [of p "pool_of \<alpha> s" "ran ?m'"] new sub by (simp add: pool_of_def s')
  ultimately show ?thesis ..
qed

lemma shrink_keeps:
  assumes inv: "table_inv \<alpha> s" and le: "\<alpha> (lru_cache (tab s')) \<subseteq>\<^sub>m \<alpha> (lru_cache (tab s))"
    and s': "pairs (tab s') = pairs (tab s)" "held s' = held s"
  shows "table_inv \<alpha> s' \<and> pool_step (pool_of \<alpha> s) (pool_of \<alpha> s')"
proof -
  have sub: "ran (\<alpha> (lru_cache (tab s'))) \<subseteq> ran (\<alpha> (lru_cache (tab s)))" using le by (rule ran_map_le)
  then have "table_inv \<alpha> s'"
    using inv slots_ok_le [OF _ le]
    by (auto simp: table_inv_def s' elim: healthy_mono)
  moreover have "pool_step (pool_of \<alpha> s) (pool_of \<alpha> s')"
    using pool_expire [of _ "pool_of \<alpha> s"] sub by (simp add: pool_of_def s')
  ultimately show ?thesis ..
qed

lemma use_keeps:
  assumes inv: "table_inv \<alpha> s" and "p \<in> set (held s)"
    and s': "lru_cache (tab s') = lru_cache (tab s)" "held s' = held s"
      "pairs (tab s') = (pairs (tab s))[p := cp]" and cp: "\<not> errored cp"
  shows "table_inv \<alpha> s' \<and> pool_step (pool_of \<alpha> s) (pool_of \<alpha> s')"
proof
  show "table_inv \<alpha> s'" using inv cp by (simp add: table_inv_def s' healthy_update)
  show "pool_step (pool_of \<alpha> s) (pool_of \<alpha> s')"
    using pool_expire [of _ "pool_of \<alpha> s"] by (simp add: pool_of_def s')
qed

lemma release_keeps:
  assumes inv: "table_inv \<alpha> s" and p: "p \<in> set (held s)"
    and le: "\<alpha> (lru_cache (tab s')) \<subseteq>\<^sub>m (\<alpha> (lru_cache (tab s)))(k \<mapsto> p)"
    and s': "held s' = remove1 p (held s)" "pairs (tab s') = pairs (tab s)"
  shows "table_inv \<alpha> s' \<and> pool_step (pool_of \<alpha> s) (pool_of \<alpha> s')"
proof -
  let ?m = "\<alpha> (lru_cache (tab s))" and ?m' = "\<alpha> (lru_cache (tab s'))"
  have so: "slots_ok ?m (held s)" and h: "healthy (pairs (tab s)) (set (held s) \<union> ran ?m)"
    using inv by (simp_all add: table_inv_def)
  have sub: "ran ?m' \<subseteq> insert p (ran ?m)"
    using ran_map_le [OF le] by (auto simp: ran_def split: if_splits)
  have "healthy (pairs (tab s)) (set (remove1 p (held s)) \<union> ran ?m')"
    by (rule healthy_mono [OF h]) (use sub p set_remove1_subset [of p "held s"] in blast)
  then have "table_inv \<alpha> s'" using slots_ok_return [OF so p le] by (simp add: table_inv_def s')
  moreover have "set (remove1 p (held s)) = set (held s) - {p}"
    using so by (simp add: slots_ok_def)
  then have "pool_step (pool_of \<alpha> s) (pool_of \<alpha> s')"
    using pool_return [of p "pool_of \<alpha> s" "ran ?m'"] p sub by (simp add: pool_of_def s')
  ultimately show ?thesis by blast
qed

lemma discard_keeps:
  assumes inv: "table_inv \<alpha> s" and p: "p \<in> set (held s)"
    and s': "lru_cache (tab s') = lru_cache (tab s)" "held s' = remove1 p (held s)"
      "pairs (tab s') = (pairs (tab s))[p := cp]"
  shows "table_inv \<alpha> s' \<and> pool_step (pool_of \<alpha> s) (pool_of \<alpha> s')"
proof -
  let ?m = "\<alpha> (lru_cache (tab s))"
  have so: "slots_ok ?m (held s)" and h: "healthy (pairs (tab s)) (set (held s) \<union> ran ?m)"
    using inv by (simp_all add: table_inv_def)
  have del: "set (remove1 p (held s)) = set (held s) - {p}"
    using so by (simp add: slots_ok_def)
  have "p \<notin> ran ?m" using so p by (auto simp: slots_ok_def)
  then have "healthy ((pairs (tab s))[p := cp]) (set (remove1 p (held s)) \<union> ran ?m)"
    by (intro healthy_update healthy_mono [OF h]) (auto simp: del)
  then have "table_inv \<alpha> s'" using slots_ok_drop [OF so] by (simp add: table_inv_def s')
  moreover have "pool_step (pool_of \<alpha> s) (pool_of \<alpha> s')"
    using pool_return [of p "pool_of \<alpha> s" "ran ?m"] p del by (auto simp: pool_of_def s')
  ultimately show ?thesis ..
qed

lemma checkin_cases:
  obtains "checkin M k p lru = lru"
  | "checkin M k p lru = lru\<lparr>lru_cache := c_insert M k p (lru_cache lru)\<rparr>"
  unfolding checkin_def by presburger

lemma table_step_keeps:
  assumes M: "moka_laws M \<alpha>" and inv: "table_inv \<alpha> s" and st: "table_step Z M \<alpha> s s'"
  shows "table_inv \<alpha> s' \<and> pool_step (pool_of \<alpha> s) (pool_of \<alpha> s')"
  using st inv
proof cases
  case step_scan
  then show ?thesis using shrink_keeps [OF inv, of s'] by simp
next
  case (step_take r rid k p t)
  then show ?thesis
    using checkout_take_SomeD [OF M step_take(3)]
      reused_keeps [OF inv, of k p t s'] created_keeps [OF inv, of Z p t s'] by auto
next
  case (step_take_failed r rid t)
  then show ?thesis
    using checkout_take_NoneD [OF M step_take_failed(3)] shrink_keeps [OF inv, of s'] by auto
next
  case (step_lookup k res t)
  then show ?thesis
    using lookup_SomeD [OF M step_lookup(2)] reused_keeps [OF inv, of k "result_pair res" t s']
      created_keeps [OF inv, of Z "result_pair res" t s'] by (cases res) auto
next
  case (step_lookup_failed k t)
  then show ?thesis
    using lookup_NoneD [OF M step_lookup_failed(2)] shrink_keeps [OF inv, of s'] by auto
next
  case (step_use p e d)
  have "\<not> errored (pairs (tab s) ! p)" using inv step_use(2) by (simp add: table_inv_def healthy_def)
  then show ?thesis
    using use_keeps [OF inv step_use(2), of s'] by (simp add: step_use(1) update_pair_def)
next
  case (step_checkin p k)
  show ?thesis
  proof (cases rule: checkin_cases [of M k p "tab s"])
    case 1
    then show ?thesis
      using discard_keeps [OF inv step_checkin(2), of s' "pairs (tab s) ! p"]
      by (simp add: step_checkin(1))
  next
    case 2
    then show ?thesis
      using release_keeps [OF inv step_checkin(2), of s' k] moka_insertD [OF M]
      by (simp add: step_checkin(1))
  qed
next
  case (step_discard p)
  then show ?thesis
    using discard_keeps [OF inv step_discard(2), of s']
    by (simp add: step_discard(1) mark_errored_def update_pair_def)
next
  case (step_expire c)
  then show ?thesis using shrink_keeps [OF inv, of s'] by simp
qed

definition table_init ::
    "'c moka \<Rightarrow> ('e, 'd, 'ed, 'dd, 'c) table_users \<Rightarrow> bool" where
  "table_init M s \<longleftrightarrow>
     (\<exists>cap dict level wl ttl. tab s = codec_lru_new M cap dict level wl ttl) \<and> held s = [] \<and>
     scans s = []"

lemma table_init_inv: "moka_laws M \<alpha> \<Longrightarrow> table_init M s \<Longrightarrow> table_inv \<alpha> s"
  by (auto simp: moka_laws_def table_init_def table_inv_def slots_ok_def healthy_def
      codec_lru_new_def)

lemma table_system:
  "moka_laws M \<alpha> \<Longrightarrow> invariant_system (table_init M) (table_step Z M \<alpha>) (table_inv \<alpha>)"
  by (rule invariant_system.intro) (blast dest: table_init_inv table_step_keeps)+

section \<open>Instances of the libraries\<close>

text \<open>
  A cache that never expires, as an association list, and a compressor that stores: its
  encoder keeps what was written until it is flushed into the output buffer, and its decoder
  likewise.
\<close>

definition list_moka :: "(u128 \<times> nat) list moka" where
  "list_moka =
     \<lparr>c_build = (\<lambda>_ _. []),
      c_iter = (\<lambda>c. filter (\<lambda>(k, p). map_of c k = Some p) c),
      c_remove = (\<lambda>k c. (map_of c k, filter (\<lambda>e. fst e \<noteq> k) c)),
      c_insert = (\<lambda>k p c. (k, p) # c),
      c_entry_count = (\<lambda>c. word_of_nat (length c))\<rparr>"

definition storing_zstd :: "(bytes \<times> bytes, bytes \<times> bytes, unit, unit) zstd_lib" where
  "storing_zstd =
     \<lparr>enc_dictionary = (\<lambda>_ _. ()), dec_dictionary = (\<lambda>_. ()),
      enc_new = (\<lambda>_. Some ([], [])), enc_with_prepared_dictionary = (\<lambda>_. Some ([], [])),
      enc_long_distance_matching = (\<lambda>_. Some), enc_window_log = (\<lambda>_. Some),
      dec_new = Some ([], []), dec_with_prepared_dictionary = (\<lambda>_. Some ([], [])),
      dec_window_log_max = (\<lambda>_. Some),
      enc_write_all = (\<lambda>bs (held, out). (True, held @ bs, out)),
      enc_flush = (\<lambda>(held, out). (True, [], out @ held)),
      enc_take = (\<lambda>(held, out). (out, held, [])),
      dec_write_all = (\<lambda>bs (held, out). (True, held @ bs, out)),
      dec_flush = (\<lambda>(held, out). (True, [], out @ held)),
      dec_take = (\<lambda>(held, out). (out, held, []))\<rparr>"

lemma map_of_filter_key: "map_of (filter (\<lambda>e. fst e \<noteq> k) c) = (map_of c)(k := None)"
  by (induction c) auto

lemma list_moka_laws: "moka_laws list_moka map_of"
  by (auto simp: moka_laws_def list_moka_def map_of_filter_key)

definition one_user :: "(bytes \<times> bytes, bytes \<times> bytes, unit, unit, (u128 \<times> nat) list) table_users" where
  "one_user = \<lparr>tab = codec_lru_new list_moka 256 codec_dict_none 9 24 18000, held = [], scans = []\<rparr>"

definition one_user_holding ::
    "(bytes \<times> bytes, bytes \<times> bytes, unit, unit, (u128 \<times> nat) list) table_users" where
  "one_user_holding =
     one_user\<lparr>tab := snd (lookup storing_zstd list_moka 7 (tab one_user)), held := [0]\<rparr>"

lemma one_user_reachable:
  "reachable (table_init list_moka) (table_step storing_zstd list_moka map_of) one_user"
proof (rule reach_init)
  show "table_init list_moka one_user"
    unfolding table_init_def by (rule conjI, (rule exI)+) (simp_all add: one_user_def)
qed

lemma one_user_lookup:
  "table_step storing_zstd list_moka map_of one_user one_user_holding"
proof -
  have l: "fst (lookup storing_zstd list_moka 7 (tab one_user)) = Some (Miss 7 0)"
    by (simp add: lookup_def lookup_fresh_def fresh_pair_def codec_pair_new_def make_encoder_def
        make_decoder_def one_user_def codec_lru_new_def list_moka_def storing_zstd_def
        codec_dict_none_def)
  have "table_step storing_zstd list_moka map_of one_user
      (one_user\<lparr>tab := snd (lookup storing_zstd list_moka 7 (tab one_user)),
        held := result_pair (Miss 7 0) # held one_user\<rparr>)"
    by (rule step_lookup [of _ _ 7]) (metis l prod.collapse)
  moreover have "held one_user = []" by (simp add: one_user_def)
  ultimately show ?thesis by (simp add: one_user_holding_def)
qed

section \<open>Properties\<close>

text \<open>
  C8. While any number of streams interleave scans, removals, lookups, uses, returns and
  failures on one table, with entries expiring at will, no two streams ever hold the same
  pair, no pair in use can be found in the table, no pair is cached under two identifiers,
  and no broken pair is in the table or handed out.
\<close>

theorem pairs_exclusive:
  assumes "moka_laws M \<alpha>" and "reachable (table_init M) (table_step Z M \<alpha>) s"
  shows "distinct (held s) \<and> set (held s) \<inter> ran (\<alpha> (lru_cache (tab s))) = {} \<and>
         inj_on (\<alpha> (lru_cache (tab s))) (dom (\<alpha> (lru_cache (tab s)))) \<and>
         (\<forall>p\<in>set (held s) \<union> ran (\<alpha> (lru_cache (tab s))). \<not> is_errored (tab s) p)"
proof -
  have "table_inv \<alpha> s"
    using invariant_system.reachable_inv [OF table_system [OF assms(1)] assms(2)] .
  then show ?thesis by (simp add: table_inv_def slots_ok_def healthy_def is_errored_def)
qed

theorem pairs_exclusive_witness:
  "distinct (held one_user_holding) \<and>
   set (held one_user_holding) \<inter> ran (map_of (lru_cache (tab one_user_holding))) = {} \<and>
   \<not> is_errored (tab one_user_holding) 0"
proof -
  have "0 \<in> set (held one_user_holding)" by (simp add: one_user_holding_def)
  then show ?thesis
    using pairs_exclusive [OF list_moka_laws reach_step [OF one_user_reachable one_user_lookup]]
    by simp
qed

text \<open>
  C20. The table implements a pool of pairs that are idle or busy: every operation of every
  stream, in any interleaving, is a step of that pool, in which a pair is taken only when it
  is idle or new, and is idle again only after its holder returned it.
\<close>

theorem table_refines_pool:
  assumes "moka_laws M \<alpha>" and "reachable (table_init M) (table_step Z M \<alpha>) s"
    and "table_step Z M \<alpha> s s'"
  shows "pool_step (pool_of \<alpha> s) (pool_of \<alpha> s')"
  using table_step_keeps [OF assms(1) _ assms(3)]
    invariant_system.reachable_inv [OF table_system [OF assms(1)] assms(2)] by simp

theorem table_refines_pool_witness:
  "pool_step (pool_of map_of one_user) (pool_of map_of one_user_holding)"
  by (rule table_refines_pool [OF list_moka_laws one_user_reachable one_user_lookup])

text \<open>
  A generated identifier is never 0, the value that means \<open>no pair\<close> on the wire, and
  on one thread two instants of the clock give different identifiers unless both give 1: the
  mixing steps lose no bit of the clock.
\<close>

lemma rand_id_spread:
  "rand_id clock thread \<noteq> 0 \<and>
   (rand_id (Some t) thread = rand_id (Some t') thread \<longrightarrow> t = t' \<or> rand_id (Some t) thread = 1)"
proof (intro conjI impI)
  show "rand_id clock thread \<noteq> 0" by (simp add: rand_id_def Let_def)
  let ?h = "word_rotl 37 (tid_hash thread) :: u128"
  assume eq: "rand_id (Some t) thread = rand_id (Some t') thread"
  show "t = t' \<or> rand_id (Some t) thread = 1"
  proof (rule disjCI)
    assume "rand_id (Some t) thread \<noteq> 1"
    with eq have "xorshift (t XOR ?h) = xorshift (t' XOR ?h)"
      by (simp add: rand_id_def Let_def split: if_splits)
    then have "t XOR ?h = t' XOR ?h" by (rule injD [OF inj_xorshift])
    then have "(t XOR ?h) XOR ?h = (t' XOR ?h) XOR ?h" by simp
    then show "t = t'" by (simp add: xor.assoc)
  qed
qed

lemma rand_id_spread_witness: "rand_id (Some 1) [] \<noteq> rand_id (Some 2) []"
proof -
  have "rand_id (Some 1) [] \<noteq> 1"
    by (simp add: rand_id_def xorshift_def tid_hash_def)
  then show ?thesis using rand_id_spread [of None "[]" 1 2] by auto
qed

end
