(* ===== verification/Codec_Handshake.thy ===== *)
theory Codec_Handshake
  imports Codec_Lru
begin

text \<open>
  \<^verbatim>\<open>src/src/codec/handshake.rs\<close>: before a compressed stream carries data, both
  ends send the identifier of the pair they will encode with and answer the other's
  identifier with an acknowledgement, and reset the half of the pair the other end has no
  history for.
\<close>

section \<open>The exchange at one end\<close>

definition PAIR_ID_SIZE :: nat where
  "PAIR_ID_SIZE = 16"

datatype handshake_error =
  CheckoutFailed | SendIdFailed | ReadIdFailed read_error | LookupFailed | ResetDecoderFailed
  | SendAckFailed | ReadAckFailed read_error | ResetEncoderFailed

record handshake_result =
  hs_s2q_pair :: nat
  hs_q2s_pair :: nat
  hs_s2q_id :: u128
  hs_s2q_ack :: u128
  hs_q2s_id :: u128
  hs_q2s_ack :: u128

text \<open>
  Each \<^verbatim>\<open>tokio::join!\<close> of a write and a read of one identifier: both run to
  their end, and the failure of the write is reported before that of the read.
\<close>

definition join_send_recv ::
    "handshake_error \<Rightarrow> (read_error \<Rightarrow> handshake_error) \<Rightarrow> u128 \<Rightarrow> sink \<Rightarrow> instream \<Rightarrow>
     (handshake_error + u128) \<times> sink \<times> instream" where
  "join_send_recv send_failed read_failed value quic_send quic_recv =
     (case write_all (to_be_bytes value) quic_send of
        (sent, k) \<Rightarrow>
          (case read_exact PAIR_ID_SIZE quic_recv of
             Inl e \<Rightarrow> (Inl (if sent then read_failed e else send_failed), k, quic_recv)
           | Inr (bs, s) \<Rightarrow> (if sent then Inr (from_be_bytes bs) else Inl send_failed, k, s)))"

text \<open>The lookup of the remote identifier: the pair to decode with and the acknowledgement.\<close>

definition answer_remote ::
    "('e, 'd, 'ed, 'dd) zstd_lib \<Rightarrow> 'c moka \<Rightarrow> u128 \<Rightarrow> ('e, 'd, 'ed, 'dd, 'c) codec_lru \<Rightarrow>
     (handshake_error + nat \<times> u128) \<times> ('e, 'd, 'ed, 'dd, 'c) codec_lru" where
  "answer_remote Z M q2s_id lru =
     (case lookup Z M q2s_id lru of
        (None, lru1) \<Rightarrow> (Inl LookupFailed, lru1)
      | (Some res, lru1) \<Rightarrow>
          (let q2s_pair = result_pair res;
               q2s_ack = (case res of Hit i _ \<Rightarrow> i | Miss _ _ \<Rightarrow> 0)
           in if q2s_ack = 0
              then (case reset_decoder Z q2s_pair lru1 of
                      (True, lru2) \<Rightarrow> (Inr (q2s_pair, q2s_ack), lru2)
                    | (False, lru2) \<Rightarrow> (Inl ResetDecoderFailed, lru2))
              else (Inr (q2s_pair, q2s_ack), lru1)))"

text \<open>What the remote acknowledgement does to the pair this end encodes with.\<close>

definition apply_ack ::
    "('e, 'd, 'ed, 'dd) zstd_lib \<Rightarrow> u128 \<Rightarrow> u128 \<Rightarrow> nat \<Rightarrow> ('e, 'd, 'ed, 'dd, 'c) codec_lru \<Rightarrow>
     bool \<times> ('e, 'd, 'ed, 'dd, 'c) codec_lru" where
  "apply_ack Z s2q_ack s2q_id s2q_pair lru =
     (if s2q_ack = 0 \<and> s2q_id \<noteq> 0 then reset_encoder Z s2q_pair lru else (True, lru))"

definition exchange_pair_id ::
    "('e, 'd, 'ed, 'dd) zstd_lib \<Rightarrow> 'c moka \<Rightarrow> u128 \<Rightarrow> sink \<Rightarrow> instream \<Rightarrow>
     ('e, 'd, 'ed, 'dd, 'c) codec_lru \<Rightarrow>
     (handshake_error + handshake_result) \<times> sink \<times> instream \<times> ('e, 'd, 'ed, 'dd, 'c) codec_lru" where
  "exchange_pair_id Z M rid quic_send quic_recv lru =
     (case checkout Z M rid lru of
        (None, lru1) \<Rightarrow> (Inl CheckoutFailed, quic_send, quic_recv, lru1)
      | (Some (s2q_id, s2q_pair), lru1) \<Rightarrow>
          (case join_send_recv SendIdFailed ReadIdFailed s2q_id quic_send quic_recv of
             (Inl e, k1, s1) \<Rightarrow> (Inl e, k1, s1, lru1)
           | (Inr q2s_id, k1, s1) \<Rightarrow>
               (case answer_remote Z M q2s_id lru1 of
                  (Inl e, lru2) \<Rightarrow> (Inl e, k1, s1, lru2)
                | (Inr (q2s_pair, q2s_ack), lru2) \<Rightarrow>
                    (case join_send_recv SendAckFailed ReadAckFailed q2s_ack k1 s1 of
                       (Inl e, k2, s2) \<Rightarrow> (Inl e, k2, s2, lru2)
                     | (Inr s2q_ack, k2, s2) \<Rightarrow>
                         (case apply_ack Z s2q_ack s2q_id s2q_pair lru2 of
                            (False, lru3) \<Rightarrow> (Inl ResetEncoderFailed, k2, s2, lru3)
                          | (True, lru3) \<Rightarrow>
                              (Inr \<lparr>hs_s2q_pair = s2q_pair, hs_q2s_pair = q2s_pair,
                                    hs_s2q_id = s2q_id, hs_s2q_ack = s2q_ack,
                                    hs_q2s_id = q2s_id, hs_q2s_ack = q2s_ack\<rparr>, k2, s2, lru3))))))"

section \<open>The store during the exchange\<close>

abbreviation enc_at :: "('e, 'd, 'ed, 'dd, 'c) codec_lru \<Rightarrow> nat \<Rightarrow> 'e" where
  "enc_at lru p \<equiv> cp_encoder (pairs lru ! p)"

abbreviation dec_at :: "('e, 'd, 'ed, 'dd, 'c) codec_lru \<Rightarrow> nat \<Rightarrow> 'd" where
  "dec_at lru p \<equiv> cp_decoder (pairs lru ! p)"

text \<open>
  A table at rest: its cached references exist, none of its pairs is cached under the
  identifier 0, and its pairs were made with its own settings.
\<close>

definition settings_ok :: "('e, 'd, 'ed, 'dd, 'c) codec_lru \<Rightarrow> bool" where
  "settings_ok lru \<longleftrightarrow>
     (\<forall>cp\<in>set (pairs lru). cp_dict cp = lru_dict lru \<and> cp_level cp = lru_level lru \<and>
        cp_window_log cp = lru_window_log lru)"

definition at_rest :: "('c \<Rightarrow> u128 \<rightharpoonup> nat) \<Rightarrow> ('e, 'd, 'ed, 'dd, 'c) codec_lru \<Rightarrow> bool" where
  "at_rest \<alpha> lru \<longleftrightarrow>
     healthy (pairs lru) (ran (\<alpha> (lru_cache lru))) \<and> \<alpha> (lru_cache lru) 0 = None \<and> settings_ok lru"

abbreviation lru_encoder :: "('e, 'd, 'ed, 'dd) zstd_lib \<Rightarrow> ('e, 'd, 'ed, 'dd, 'c) codec_lru \<Rightarrow> 'e option" where
  "lru_encoder Z lru \<equiv> make_encoder Z (lru_dict lru) (lru_level lru) (lru_window_log lru)"

abbreviation lru_decoder :: "('e, 'd, 'ed, 'dd) zstd_lib \<Rightarrow> ('e, 'd, 'ed, 'dd, 'c) codec_lru \<Rightarrow> 'd option" where
  "lru_decoder Z lru \<equiv> make_decoder Z (lru_dict lru) (lru_window_log lru)"

lemma settings_okD:
  "settings_ok lru \<Longrightarrow> p < length (pairs lru) \<Longrightarrow>
     cp_dict (pairs lru ! p) = lru_dict lru \<and> cp_level (pairs lru ! p) = lru_level lru \<and>
     cp_window_log (pairs lru ! p) = lru_window_log lru"
  by (simp add: settings_ok_def)

lemma pairs_update_pair [simp]:
  "pairs (update_pair p f lru) = (pairs lru)[p := f (pairs lru ! p)]"
  "lru_cache (update_pair p f lru) = lru_cache lru"
  "lru_dict (update_pair p f lru) = lru_dict lru"
  "lru_level (update_pair p f lru) = lru_level lru"
  "lru_window_log (update_pair p f lru) = lru_window_log lru"
  by (simp_all add: update_pair_def)

lemma settings_ok_update:
  assumes "settings_ok lru" and "p < length (pairs lru)"
    and "cp_dict (f (pairs lru ! p)) = cp_dict (pairs lru ! p)"
      "cp_level (f (pairs lru ! p)) = cp_level (pairs lru ! p)"
      "cp_window_log (f (pairs lru ! p)) = cp_window_log (pairs lru ! p)"
  shows "settings_ok (update_pair p f lru)"
  unfolding settings_ok_def
proof
  fix cp assume "cp \<in> set (pairs (update_pair p f lru))"
  then consider "cp = f (pairs lru ! p)" | "cp \<in> set (pairs lru)"
    using set_update_subset_insert [of "pairs lru" p] by auto
  then show "cp_dict cp = lru_dict (update_pair p f lru) \<and>
      cp_level cp = lru_level (update_pair p f lru) \<and>
      cp_window_log cp = lru_window_log (update_pair p f lru)"
  proof cases
    case 1
    then show ?thesis using assms settings_okD [OF assms(1,2)] by simp
  next
    case 2
    then show ?thesis using assms(1) by (simp add: settings_ok_def)
  qed
qed

lemma reset_decoder_ok:
  assumes "settings_ok lru" and "p < length (pairs lru)" and "lru_decoder Z lru = Some d"
  shows "\<exists>lru'. reset_decoder Z p lru = (True, lru') \<and> dec_at lru' p = d \<and>
    (\<forall>q. enc_at lru' q = enc_at lru q) \<and> (\<forall>q. q \<noteq> p \<longrightarrow> dec_at lru' q = dec_at lru q) \<and>
    settings_ok lru' \<and> length (pairs lru') = length (pairs lru) \<and> same_settings lru lru'"
proof (intro exI conjI)
  let ?lru = "update_pair p (\<lambda>cp. cp\<lparr>cp_decoder := d\<rparr>) lru"
  show "reset_decoder Z p lru = (True, ?lru)"
    using assms settings_okD [OF assms(1,2)] by (simp add: reset_decoder_def Let_def)
  show "dec_at ?lru p = d" using assms(2) by simp
  show "\<forall>q. enc_at ?lru q = enc_at lru q"
  proof
    fix q show "enc_at ?lru q = enc_at lru q" using assms(2) by (cases "q = p") simp_all
  qed
  show "settings_ok ?lru" by (rule settings_ok_update [OF assms(1,2)]) simp_all
qed (simp_all add: same_settings_def)

lemma reset_encoder_ok:
  assumes "settings_ok lru" and "p < length (pairs lru)" and "lru_encoder Z lru = Some e"
  shows "\<exists>lru'. reset_encoder Z p lru = (True, lru') \<and> enc_at lru' p = e \<and>
    (\<forall>q. dec_at lru' q = dec_at lru q)"
proof (intro exI conjI)
  let ?lru = "update_pair p (\<lambda>cp. cp\<lparr>cp_encoder := e\<rparr>) lru"
  show "reset_encoder Z p lru = (True, ?lru)"
    using assms settings_okD [OF assms(1,2)] by (simp add: reset_encoder_def Let_def)
  show "enc_at ?lru p = e" using assms(2) by simp
  show "\<forall>q. dec_at ?lru q = dec_at lru q"
  proof
    fix q show "dec_at ?lru q = dec_at lru q" using assms(2) by (cases "q = p") simp_all
  qed
qed

text \<open>Settings for which new encoders and decoders can be made.\<close>

definition makes_pairs :: "('e, 'd, 'ed, 'dd) zstd_lib \<Rightarrow> ('e, 'd, 'ed, 'dd, 'c) codec_lru \<Rightarrow> bool" where
  "makes_pairs Z lru \<longleftrightarrow> lru_encoder Z lru \<noteq> None \<and> lru_decoder Z lru \<noteq> None"

lemma makes_pairs_new:
  "makes_pairs Z lru \<Longrightarrow>
     \<exists>cp. codec_pair_new Z (lru_dict lru) (lru_level lru) (lru_window_log lru) = Some cp"
  by (auto simp: makes_pairs_def codec_pair_new_def)

lemma makes_pairs_same: "same_settings lru lru' \<Longrightarrow> makes_pairs Z lru' = makes_pairs Z lru"
  by (simp add: same_settings_def makes_pairs_def)

lemma checkout_total:
  assumes "makes_pairs Z lru"
  shows "\<exists>k p lru'. checkout Z M rid lru = (Some (k, p), lru')"
proof -
  obtain cp where "codec_pair_new Z (lru_dict lru) (lru_level lru) (lru_window_log lru) = Some cp"
    using makes_pairs_new [OF assms] by blast
  then have "fst (checkout Z M rid lru) \<noteq> None"
    by (simp add: checkout_def checkout_take_def checkout_fresh_def fresh_pair_def
        split: option.split prod.split)
  then show ?thesis by (cases "checkout Z M rid lru") auto
qed

lemma lookup_total:
  assumes "makes_pairs Z lru"
  shows "\<exists>res lru'. lookup Z M k lru = (Some res, lru')"
proof -
  obtain cp where "codec_pair_new Z (lru_dict lru) (lru_level lru) (lru_window_log lru) = Some cp"
    using makes_pairs_new [OF assms] by blast
  then have "fst (lookup Z M k lru) \<noteq> None"
    by (simp add: lookup_def lookup_fresh_def fresh_pair_def split: option.split prod.split)
  then show ?thesis by (cases "lookup Z M k lru") auto
qed

lemma map_le_None: "m \<subseteq>\<^sub>m n \<Longrightarrow> n k = None \<Longrightarrow> m k = None"
  by (metis domIff map_le_implies_dom_le subsetD)

lemma created_at_rest:
  assumes rest: "at_rest \<alpha> lru" and c: "created Z \<alpha> p lru lru'" and same: "same_settings lru lru'"
  shows "at_rest \<alpha> lru' \<and> p < length (pairs lru') \<and> \<alpha> (lru_cache lru') \<subseteq>\<^sub>m \<alpha> (lru_cache lru) \<and>
    (\<forall>q<length (pairs lru). pairs lru' ! q = pairs lru ! q) \<and>
    length (pairs lru) \<le> length (pairs lru') \<and>
    lru_encoder Z lru = Some (enc_at lru' p) \<and> lru_decoder Z lru = Some (dec_at lru' p)"
proof -
  obtain cp where p: "p = length (pairs lru)" and le: "\<alpha> (lru_cache lru') \<subseteq>\<^sub>m \<alpha> (lru_cache lru)"
    and cp: "codec_pair_new Z (lru_dict lru) (lru_level lru) (lru_window_log lru) = Some cp"
    and ps: "pairs lru' = pairs lru @ [cp]"
    using c by (auto simp: created_def)
  note new = codec_pair_new_SomeD [OF cp]
  have "healthy (pairs lru') (ran (\<alpha> (lru_cache lru')))"
    unfolding ps using rest new(3) ran_map_le [OF le]
    by (intro healthy_mono [OF healthy_alloc]) (auto simp: at_rest_def)
  moreover have "settings_ok lru'"
    using rest same new(4-6) by (auto simp: at_rest_def settings_ok_def same_settings_def ps)
  moreover have "\<alpha> (lru_cache lru') 0 = None"
    using rest map_le_None [OF le] by (simp add: at_rest_def)
  ultimately show ?thesis
    using le new(1,2) by (simp add: at_rest_def ps p nth_append)
qed

lemma reused_at_rest:
  assumes rest: "at_rest \<alpha> lru" and c: "reused \<alpha> k p lru lru'" and same: "same_settings lru lru'"
  shows "at_rest \<alpha> lru' \<and> p < length (pairs lru') \<and> \<alpha> (lru_cache lru') \<subseteq>\<^sub>m \<alpha> (lru_cache lru) \<and>
    pairs lru' = pairs lru \<and> \<alpha> (lru_cache lru) k = Some p"
proof -
  have k: "\<alpha> (lru_cache lru) k = Some p" and ps: "pairs lru' = pairs lru"
    and le: "\<alpha> (lru_cache lru') \<subseteq>\<^sub>m (\<alpha> (lru_cache lru))(k := None)"
    using c by (simp_all add: reused_def)
  note le' = map_le_removed [OF le]
  have "healthy (pairs lru') (ran (\<alpha> (lru_cache lru')))"
    unfolding ps using rest ran_map_le [OF le'] by (auto simp: at_rest_def elim: healthy_mono)
  moreover have "settings_ok lru'"
    using rest same by (simp add: at_rest_def settings_ok_def same_settings_def ps)
  moreover have "\<alpha> (lru_cache lru') 0 = None"
    using rest map_le_None [OF le'] by (simp add: at_rest_def)
  moreover have "p < length (pairs lru)"
    using rest ranI [of "\<alpha> (lru_cache lru)" k p] k by (simp add: at_rest_def healthy_def)
  ultimately show ?thesis using le' k by (simp add: at_rest_def ps)
qed

lemma checkout_outcome:
  assumes M: "moka_laws M \<alpha>" and rest: "at_rest \<alpha> lru" and rid: "rid \<noteq> 0"
    and c: "checkout Z M rid lru = (Some (k, p), lru1)"
  shows "at_rest \<alpha> lru1 \<and> same_settings lru lru1 \<and> p < length (pairs lru1) \<and> k \<noteq> 0 \<and>
    \<alpha> (lru_cache lru1) \<subseteq>\<^sub>m \<alpha> (lru_cache lru) \<and>
    (\<forall>q<length (pairs lru). pairs lru1 ! q = pairs lru ! q) \<and>
    (\<alpha> (lru_cache lru) k = Some p \<and> pairs lru1 = pairs lru \<or>
     k = rid \<and> lru_encoder Z lru = Some (enc_at lru1 p) \<and> length (pairs lru) = p)"
proof -
  have *: "(reused \<alpha> k p lru lru1 \<or> k = rid \<and> created Z \<alpha> p lru lru1)" "same_settings lru lru1"
    using checkout_take_SomeD [OF M c [unfolded checkout_def]] by blast+
  from *(1) show ?thesis
  proof
    assume "reused \<alpha> k p lru lru1"
    note r = reused_at_rest [OF rest this *(2)]
    moreover have "k \<noteq> 0" using r rest by (auto simp: at_rest_def)
    ultimately show ?thesis using *(2) by auto
  next
    assume "k = rid \<and> created Z \<alpha> p lru lru1"
    moreover then have "p = length (pairs lru)" by (simp add: created_def)
    ultimately show ?thesis using created_at_rest [OF rest _ *(2), of Z p] *(2) rid by simp
  qed
qed

lemma answer_outcome:
  assumes M: "moka_laws M \<alpha>" and rest: "at_rest \<alpha> lru" and mk: "makes_pairs Z lru"
  shows "\<exists>q ack lru'. answer_remote Z M k lru = (Inr (q, ack), lru') \<and>
    (ack \<noteq> 0 \<longrightarrow> ack = k \<and> \<alpha> (lru_cache lru) k = Some q \<and> dec_at lru' q = dec_at lru q) \<and>
    (ack = 0 \<longrightarrow> lru_decoder Z lru = Some (dec_at lru' q) \<and> q = length (pairs lru)) \<and>
    (\<forall>p<length (pairs lru). enc_at lru' p = enc_at lru p) \<and>
    (\<forall>p<length (pairs lru). p \<noteq> q \<longrightarrow> dec_at lru' p = dec_at lru p) \<and>
    settings_ok lru' \<and> same_settings lru lru' \<and> length (pairs lru) \<le> length (pairs lru')"
proof -
  obtain res lru1 where l: "lookup Z M k lru = (Some res, lru1)"
    using lookup_total [OF mk] by blast
  note res = lookup_SomeD [OF M l]
  show ?thesis
  proof (cases res)
    case (Hit i q)
    with res have r: "i = k" "k \<noteq> 0" "reused \<alpha> k q lru lru1" "same_settings lru lru1" by auto
    note r' = reused_at_rest [OF rest r(3,4)]
    have "answer_remote Z M k lru = (Inr (q, k), lru1)"
      using l Hit r(1,2) by (simp add: answer_remote_def)
    with r r' show ?thesis by (intro exI [of _ q] exI [of _ k] exI [of _ lru1]) (simp add: at_rest_def)
  next
    case (Miss i q)
    with res have r: "created Z \<alpha> q lru lru1" "same_settings lru lru1" by auto
    note r' = created_at_rest [OF rest r]
    have d: "lru_decoder Z lru1 = Some (dec_at lru1 q)"
      using r' r(2) by (simp add: same_settings_def)
    have "settings_ok lru1" "q < length (pairs lru1)" using r' by (simp_all add: at_rest_def)
    from reset_decoder_ok [OF this d]
    obtain lru2 where lru2: "reset_decoder Z q lru1 = (True, lru2)" "dec_at lru2 q = dec_at lru1 q"
      "\<And>p. enc_at lru2 p = enc_at lru1 p" "\<And>p. p \<noteq> q \<Longrightarrow> dec_at lru2 p = dec_at lru1 p"
      "settings_ok lru2"
      "length (pairs lru2) = length (pairs lru1)" "same_settings lru1 lru2"
      by blast
    have "answer_remote Z M k lru = (Inr (q, 0), lru2)"
      using l Miss lru2(1) by (simp add: answer_remote_def)
    moreover have "same_settings lru lru2" using r(2) lru2(7) by (simp add: same_settings_def)
    moreover have "q = length (pairs lru)" using r(1) by (simp add: created_def)
    ultimately show ?thesis using lru2(2-6) r'
      by (intro exI [of _ q] exI [of _ 0] exI [of _ lru2]) simp
  qed
qed

lemma apply_outcome:
  assumes "settings_ok lru" and "p < length (pairs lru)" and "lru_encoder Z lru = Some e"
    and "k \<noteq> 0"
  shows "\<exists>lru'. apply_ack Z ack k p lru = (True, lru') \<and>
    enc_at lru' p = (if ack = 0 then e else enc_at lru p) \<and> (\<forall>q. dec_at lru' q = dec_at lru q)"
  using reset_encoder_ok [OF assms(1-3)] assms(4) by (simp add: apply_ack_def)

lemma join_send_recv_ok:
  assumes "budget k = None"
  shows "join_send_recv f g v k \<lparr>avail = to_be_bytes (w :: u128) @ xs, tail_of = t\<rparr> =
    (Inr w, k\<lparr>written := written k @ to_be_bytes v\<rparr>, \<lparr>avail = xs, tail_of = t\<rparr>)"
  using assms read_exact_append [of "to_be_bytes w" PAIR_ID_SIZE xs t]
  by (simp add: join_send_recv_def PAIR_ID_SIZE_def)

text \<open>What follows the two identifiers on the stream does not change the exchange.\<close>

lemma exchange_rest:
  assumes "exchange_pair_id Z M r open_sink
      \<lparr>avail = to_be_bytes (i :: u128) @ to_be_bytes (a :: u128) @ xs, tail_of = t\<rparr> lru = (Inr h, k, s, lru')"
  shows "exchange_pair_id Z M r open_sink
      \<lparr>avail = to_be_bytes i @ to_be_bytes a @ ys, tail_of = u\<rparr> lru = (Inr h, k, \<lparr>avail = ys, tail_of = u\<rparr>, lru')"
  using assms
  by (auto simp: exchange_pair_id_def join_send_recv_ok open_sink_def split: prod.splits option.splits sum.splits bool.splits)

text \<open>
  One end of the exchange in terms of what the peer sends: its identifier \<open>k\<close> and its
  acknowledgement \<open>a\<close>. The acknowledgement this end sends depends on \<open>k\<close> only.
\<close>

lemma exchange_side:
  assumes M: "moka_laws M \<alpha>" and rest: "at_rest \<alpha> lru" and mk: "makes_pairs Z lru"
    and rid: "rid \<noteq> 0" and c: "checkout Z M rid lru = (Some (i, p), lru1)"
  shows "\<exists>q ack. (ack = 0 \<longrightarrow> p < q) \<and> (ack = 0 \<or> ack = k \<and> \<alpha> (lru_cache lru1) k = Some q) \<and>
    (\<forall>a xs t. \<exists>lru'.
       exchange_pair_id Z M rid open_sink
         \<lparr>avail = to_be_bytes k @ to_be_bytes a @ xs, tail_of = t\<rparr> lru =
       (Inr \<lparr>hs_s2q_pair = p, hs_q2s_pair = q, hs_s2q_id = i, hs_s2q_ack = a, hs_q2s_id = k,
             hs_q2s_ack = ack\<rparr>,
        open_sink\<lparr>written := to_be_bytes i @ to_be_bytes ack\<rparr>, \<lparr>avail = xs, tail_of = t\<rparr>, lru') \<and>
       (if ack = 0 then lru_decoder Z lru = Some (dec_at lru' q) else dec_at lru' q = dec_at lru1 q) \<and>
       (if a = 0 then lru_encoder Z lru = Some (enc_at lru' p) else enc_at lru' p = enc_at lru1 p) \<and>
       (p \<noteq> q \<longrightarrow> dec_at lru' p = dec_at lru1 p))"
proof -
  note co = checkout_outcome [OF M rest rid c]
  have mk1: "makes_pairs Z lru1" using co mk makes_pairs_same by blast
  have rest1: "at_rest \<alpha> lru1" and p: "p < length (pairs lru1)" and i: "i \<noteq> 0" using co by blast+
  obtain q ack lru2 where an: "answer_remote Z M k lru1 = (Inr (q, ack), lru2)"
    and hit: "ack \<noteq> 0 \<longrightarrow> ack = k \<and> \<alpha> (lru_cache lru1) k = Some q \<and> dec_at lru2 q = dec_at lru1 q"
    and miss: "ack = 0 \<longrightarrow> lru_decoder Z lru1 = Some (dec_at lru2 q) \<and> q = length (pairs lru1)"
    and encs: "\<forall>p<length (pairs lru1). enc_at lru2 p = enc_at lru1 p"
    and decs: "\<forall>p<length (pairs lru1). p \<noteq> q \<longrightarrow> dec_at lru2 p = dec_at lru1 p"
    and ok2: "settings_ok lru2" "same_settings lru1 lru2" "length (pairs lru1) \<le> length (pairs lru2)"
    using answer_outcome [OF M rest1 mk1, of k] by blast
  have same: "same_settings lru lru2" using co ok2(2) by (simp add: same_settings_def)
  obtain e where e: "lru_encoder Z lru2 = Some e"
    using mk makes_pairs_same [OF same, of Z] by (auto simp: makes_pairs_def)
  have p2: "p < length (pairs lru2)" using p ok2(3) by simp
  have d1: "lru_decoder Z lru1 = lru_decoder Z lru" using co by (simp add: same_settings_def)
  have e1: "lru_encoder Z lru2 = lru_encoder Z lru" using same by (simp add: same_settings_def)
  have "\<exists>lru'.
       exchange_pair_id Z M rid open_sink
         \<lparr>avail = to_be_bytes k @ to_be_bytes a @ xs, tail_of = t\<rparr> lru =
       (Inr \<lparr>hs_s2q_pair = p, hs_q2s_pair = q, hs_s2q_id = i, hs_s2q_ack = a, hs_q2s_id = k,
             hs_q2s_ack = ack\<rparr>,
        open_sink\<lparr>written := to_be_bytes i @ to_be_bytes ack\<rparr>, \<lparr>avail = xs, tail_of = t\<rparr>, lru') \<and>
       (if ack = 0 then lru_decoder Z lru = Some (dec_at lru' q) else dec_at lru' q = dec_at lru1 q) \<and>
       (if a = 0 then lru_encoder Z lru = Some (enc_at lru' p) else enc_at lru' p = enc_at lru1 p) \<and>
       (p \<noteq> q \<longrightarrow> dec_at lru' p = dec_at lru1 p)"
    for a xs t
  proof -
    obtain lru3 where ap: "apply_ack Z a i p lru2 = (True, lru3)"
      "enc_at lru3 p = (if a = 0 then e else enc_at lru2 p)" "\<And>q. dec_at lru3 q = dec_at lru2 q"
      using apply_outcome [OF ok2(1) p2 e i, of a] by blast
    have "exchange_pair_id Z M rid open_sink
         \<lparr>avail = to_be_bytes k @ to_be_bytes a @ xs, tail_of = t\<rparr> lru =
       (Inr \<lparr>hs_s2q_pair = p, hs_q2s_pair = q, hs_s2q_id = i, hs_s2q_ack = a, hs_q2s_id = k,
             hs_q2s_ack = ack\<rparr>,
        open_sink\<lparr>written := to_be_bytes i @ to_be_bytes ack\<rparr>, \<lparr>avail = xs, tail_of = t\<rparr>, lru3)"
      by (simp add: exchange_pair_id_def c an ap(1) join_send_recv_ok open_sink_def)
    then show ?thesis
      using hit miss encs decs p ap(2,3) e d1 e1 by (intro exI [of _ lru3]) auto
  qed
  moreover have "ack = 0 \<longrightarrow> p < q" using miss p by simp
  ultimately show ?thesis using hit by (intro exI [of _ q] exI [of _ ack]) blast
qed

section \<open>Two ends\<close>

text \<open>
  \<open>S e d\<close>: the decoder \<open>d\<close> can follow what the encoder \<open>e\<close> emits from now on. Two
  tables are mirrored when this holds, both ways, for every identifier cached at both ends;
  their settings are compatible when it holds for new encoders and decoders.
\<close>

definition mirrored ::
    "('e \<Rightarrow> 'd \<Rightarrow> bool) \<Rightarrow> ('c \<Rightarrow> u128 \<rightharpoonup> nat) \<Rightarrow> ('e, 'd, 'ed, 'dd, 'c) codec_lru \<Rightarrow>
     ('e, 'd, 'ed, 'dd, 'c) codec_lru \<Rightarrow> bool" where
  "mirrored S \<alpha> A B \<longleftrightarrow>
     (\<forall>k p q. \<alpha> (lru_cache A) k = Some p \<longrightarrow> \<alpha> (lru_cache B) k = Some q \<longrightarrow>
        S (enc_at A p) (dec_at B q) \<and> S (enc_at B q) (dec_at A p))"

definition compatible ::
    "('e, 'd, 'ed, 'dd) zstd_lib \<Rightarrow> ('e \<Rightarrow> 'd \<Rightarrow> bool) \<Rightarrow> ('e, 'd, 'ed, 'dd, 'c) codec_lru \<Rightarrow>
     ('e, 'd, 'ed, 'dd, 'c) codec_lru \<Rightarrow> bool" where
  "compatible Z S A B \<longleftrightarrow>
     makes_pairs Z A \<and> makes_pairs Z B \<and>
     (\<forall>e d. lru_encoder Z A = Some e \<longrightarrow> lru_decoder Z B = Some d \<longrightarrow> S e d) \<and>
     (\<forall>e d. lru_encoder Z B = Some e \<longrightarrow> lru_decoder Z A = Some d \<longrightarrow> S e d)"

lemma direction_in_sync:
  assumes fresh: "\<forall>e d. lru_encoder Z A = Some e \<longrightarrow> lru_decoder Z B = Some d \<longrightarrow> S e d"
    and mir: "\<forall>k p q. \<alpha> (lru_cache A) k = Some p \<longrightarrow> \<alpha> (lru_cache B) k = Some q \<longrightarrow>
      S (enc_at A p) (dec_at B q)"
    and co: "\<alpha> (lru_cache A) i = Some p \<and> pairs A1 = pairs A \<or> i = rid \<and> X"
    and rid: "\<alpha> (lru_cache B) rid = None"
    and le: "\<alpha> (lru_cache B1) \<subseteq>\<^sub>m \<alpha> (lru_cache B)" and rest: "at_rest \<alpha> B"
    and keep: "\<forall>q<length (pairs B). pairs B1 ! q = pairs B ! q"
    and ack: "ack = 0 \<or> ack = i \<and> \<alpha> (lru_cache B1) i = Some q"
    and dec: "if ack = 0 then lru_decoder Z B = Some (dec_at B' q) else dec_at B' q = dec_at B1 q"
    and enc: "if ack = 0 then lru_encoder Z A = Some (enc_at A' p) else enc_at A' p = enc_at A1 p"
  shows "S (enc_at A' p) (dec_at B' q)"
proof (cases "ack = 0")
  case True
  with fresh dec enc show ?thesis by simp
next
  case False
  with ack have "\<alpha> (lru_cache B1) i = Some q" by blast
  then have q: "\<alpha> (lru_cache B) i = Some q" using le by (metis domI map_le_def)
  then have "i \<noteq> rid" using rid by auto
  with co have p: "\<alpha> (lru_cache A) i = Some p" "pairs A1 = pairs A" by blast+
  have "q < length (pairs B)"
    using rest ranI [of "\<alpha> (lru_cache B)" i q] q by (simp add: at_rest_def healthy_def)
  with keep have "dec_at B1 q = dec_at B q" by simp
  then show ?thesis using mir p q dec enc False by simp
qed

lemma handshake_runs:
  assumes M: "moka_laws M \<alpha>" and rest: "at_rest \<alpha> A" "at_rest \<alpha> B"
    and comp: "compatible Z S A B" and mir: "mirrored S \<alpha> A B"
    and rids: "ra \<noteq> 0" "rb \<noteq> 0" "\<alpha> (lru_cache B) ra = None" "\<alpha> (lru_cache A) rb = None"
  shows "\<exists>hA hB A' B'.
     exchange_pair_id Z M ra open_sink
       \<lparr>avail = to_be_bytes (hs_s2q_id hB) @ to_be_bytes (hs_q2s_ack hB) @ xs, tail_of = t\<rparr> A =
     (Inr hA, open_sink\<lparr>written := to_be_bytes (hs_s2q_id hA) @ to_be_bytes (hs_q2s_ack hA)\<rparr>,
      \<lparr>avail = xs, tail_of = t\<rparr>, A') \<and>
     exchange_pair_id Z M rb open_sink
       \<lparr>avail = to_be_bytes (hs_s2q_id hA) @ to_be_bytes (hs_q2s_ack hA) @ ys, tail_of = u\<rparr> B =
     (Inr hB, open_sink\<lparr>written := to_be_bytes (hs_s2q_id hB) @ to_be_bytes (hs_q2s_ack hB)\<rparr>,
      \<lparr>avail = ys, tail_of = u\<rparr>, B') \<and>
     hs_q2s_id hA = hs_s2q_id hB \<and> hs_q2s_id hB = hs_s2q_id hA \<and>
     hs_s2q_ack hA = hs_q2s_ack hB \<and> hs_s2q_ack hB = hs_q2s_ack hA \<and>
     S (enc_at A' (hs_s2q_pair hA)) (dec_at B' (hs_q2s_pair hB)) \<and>
     S (enc_at B' (hs_s2q_pair hB)) (dec_at A' (hs_q2s_pair hA))"
proof -
  have mk: "makes_pairs Z A" "makes_pairs Z B" using comp by (simp_all add: compatible_def)
  obtain i p A1 where cA: "checkout Z M ra A = (Some (i, p), A1)" using checkout_total [OF mk(1)] by blast
  obtain j r B1 where cB: "checkout Z M rb B = (Some (j, r), B1)" using checkout_total [OF mk(2)] by blast
  note coA = checkout_outcome [OF M rest(1) rids(1) cA] and coB = checkout_outcome [OF M rest(2) rids(2) cB]
  obtain q ackA where qA: "ackA = 0 \<or> ackA = j \<and> \<alpha> (lru_cache A1) j = Some q"
    and runA: "\<forall>a xs t. \<exists>lru'. exchange_pair_id Z M ra open_sink
         \<lparr>avail = to_be_bytes j @ to_be_bytes a @ xs, tail_of = t\<rparr> A =
       (Inr \<lparr>hs_s2q_pair = p, hs_q2s_pair = q, hs_s2q_id = i, hs_s2q_ack = a, hs_q2s_id = j,
             hs_q2s_ack = ackA\<rparr>,
        open_sink\<lparr>written := to_be_bytes i @ to_be_bytes ackA\<rparr>, \<lparr>avail = xs, tail_of = t\<rparr>, lru') \<and>
       (if ackA = 0 then lru_decoder Z A = Some (dec_at lru' q) else dec_at lru' q = dec_at A1 q) \<and>
       (if a = 0 then lru_encoder Z A = Some (enc_at lru' p) else enc_at lru' p = enc_at A1 p) \<and>
       (p \<noteq> q \<longrightarrow> dec_at lru' p = dec_at A1 p)"
    using exchange_side [OF M rest(1) mk(1) rids(1) cA, of j] by blast
  obtain v ackB where qB: "ackB = 0 \<or> ackB = i \<and> \<alpha> (lru_cache B1) i = Some v"
    and runB: "\<forall>a xs t. \<exists>lru'. exchange_pair_id Z M rb open_sink
         \<lparr>avail = to_be_bytes i @ to_be_bytes a @ xs, tail_of = t\<rparr> B =
       (Inr \<lparr>hs_s2q_pair = r, hs_q2s_pair = v, hs_s2q_id = j, hs_s2q_ack = a, hs_q2s_id = i,
             hs_q2s_ack = ackB\<rparr>,
        open_sink\<lparr>written := to_be_bytes j @ to_be_bytes ackB\<rparr>, \<lparr>avail = xs, tail_of = t\<rparr>, lru') \<and>
       (if ackB = 0 then lru_decoder Z B = Some (dec_at lru' v) else dec_at lru' v = dec_at B1 v) \<and>
       (if a = 0 then lru_encoder Z B = Some (enc_at lru' r) else enc_at lru' r = enc_at B1 r) \<and>
       (r \<noteq> v \<longrightarrow> dec_at lru' r = dec_at B1 r)"
    using exchange_side [OF M rest(2) mk(2) rids(2) cB, of i] by blast
  obtain A' where A': "exchange_pair_id Z M ra open_sink
         \<lparr>avail = to_be_bytes j @ to_be_bytes ackB @ xs, tail_of = t\<rparr> A =
       (Inr \<lparr>hs_s2q_pair = p, hs_q2s_pair = q, hs_s2q_id = i, hs_s2q_ack = ackB, hs_q2s_id = j,
             hs_q2s_ack = ackA\<rparr>,
        open_sink\<lparr>written := to_be_bytes i @ to_be_bytes ackA\<rparr>, \<lparr>avail = xs, tail_of = t\<rparr>, A')"
       "if ackA = 0 then lru_decoder Z A = Some (dec_at A' q) else dec_at A' q = dec_at A1 q"
       "if ackB = 0 then lru_encoder Z A = Some (enc_at A' p) else enc_at A' p = enc_at A1 p"
    using runA [rule_format, of ackB xs t] by blast
  obtain B' where B': "exchange_pair_id Z M rb open_sink
         \<lparr>avail = to_be_bytes i @ to_be_bytes ackA @ ys, tail_of = u\<rparr> B =
       (Inr \<lparr>hs_s2q_pair = r, hs_q2s_pair = v, hs_s2q_id = j, hs_s2q_ack = ackA, hs_q2s_id = i,
             hs_q2s_ack = ackB\<rparr>,
        open_sink\<lparr>written := to_be_bytes j @ to_be_bytes ackB\<rparr>, \<lparr>avail = ys, tail_of = u\<rparr>, B')"
       "if ackB = 0 then lru_decoder Z B = Some (dec_at B' v) else dec_at B' v = dec_at B1 v"
       "if ackA = 0 then lru_encoder Z B = Some (enc_at B' r) else enc_at B' r = enc_at B1 r"
    using runB [rule_format, of ackA ys u] by blast
  have AB: "S (enc_at A' p) (dec_at B' v)"
    by (rule direction_in_sync [where i = i and rid = ra and ack = ackB and \<alpha> = \<alpha> and Z = Z
          and A = A and B = B and X = "lru_encoder Z A = Some (enc_at A1 p) \<and> length (pairs A) = p"])
      (use comp mir coA coB rids(3) rest(2) qB B'(2) A'(3) in
        \<open>simp_all add: compatible_def mirrored_def\<close>)
  have BA: "S (enc_at B' r) (dec_at A' q)"
    by (rule direction_in_sync [where i = j and rid = rb and ack = ackA and \<alpha> = \<alpha> and Z = Z
          and A = B and B = A and X = "lru_encoder Z B = Some (enc_at B1 r) \<and> length (pairs B) = r"])
      (use comp mir coA coB rids(4) rest(1) qA A'(2) B'(3) in
        \<open>simp_all add: compatible_def mirrored_def\<close>)
  show ?thesis
    by (rule exI [of _ "\<lparr>hs_s2q_pair = p, hs_q2s_pair = q, hs_s2q_id = i, hs_s2q_ack = ackB,
            hs_q2s_id = j, hs_q2s_ack = ackA\<rparr>"],
        rule exI [of _ "\<lparr>hs_s2q_pair = r, hs_q2s_pair = v, hs_s2q_id = j, hs_s2q_ack = ackA,
            hs_q2s_id = i, hs_q2s_ack = ackB\<rparr>"],
        rule exI [of _ A'], rule exI [of _ B']) (simp add: A'(1) B'(1) AB BA)
qed

section \<open>Properties\<close>

definition rest_lru ::
    "(bytes \<times> bytes, bytes \<times> bytes, unit, unit, (u128 \<times> nat) list) codec_lru" where
  "rest_lru =
     \<lparr>lru_cache = [(5, 0)], lru_dict = codec_dict_none, lru_level = 9, lru_window_log = 24,
      pairs = [\<lparr>cp_encoder = ([], []), cp_decoder = ([], []), errored = False,
                cp_dict = codec_dict_none, cp_level = 9, cp_window_log = 24\<rparr>]\<rparr>"

lemma rest_lru_at_rest: "at_rest map_of rest_lru"
  by (simp add: at_rest_def rest_lru_def healthy_def settings_ok_def)

lemma rest_lru_made:
  "lru_encoder storing_zstd rest_lru = Some ([], [])" "lru_decoder storing_zstd rest_lru = Some ([], [])"
  by (simp_all add: make_encoder_def make_decoder_def rest_lru_def storing_zstd_def codec_dict_none_def)

lemma rest_lru_compatible: "compatible storing_zstd (=) rest_lru rest_lru"
  using rest_lru_made by (simp add: compatible_def makes_pairs_def)

lemma rest_lru_mirrored: "mirrored (=) map_of rest_lru rest_lru"
  by (auto simp: mirrored_def rest_lru_def split: if_splits)

text \<open>
  C7. When the tables of both ends are mirrored and their settings are compatible, and a new
  identifier is not one the other end has cached, the two exchanges always complete, each on
  exactly the bytes the other end writes; both ends agree on the identifiers and on both
  acknowledgements; and afterwards, in each direction, the receiver's decoder follows the
  sender's encoder, whether a pair was reused, was unknown to the peer, or both ends picked
  the same identifier at once. The data that follows is left unread.
\<close>

theorem handshake_in_sync:
  assumes "moka_laws M \<alpha>" and "at_rest \<alpha> A" and "at_rest \<alpha> B"
    and "compatible Z S A B" and "mirrored S \<alpha> A B"
    and "ra \<noteq> 0" and "rb \<noteq> 0" and "\<alpha> (lru_cache B) ra = None" and "\<alpha> (lru_cache A) rb = None"
  shows "\<exists>hA hB A' B'.
     exchange_pair_id Z M ra open_sink
       \<lparr>avail = to_be_bytes (hs_s2q_id hB) @ to_be_bytes (hs_q2s_ack hB) @ xs, tail_of = t\<rparr> A =
     (Inr hA, open_sink\<lparr>written := to_be_bytes (hs_s2q_id hA) @ to_be_bytes (hs_q2s_ack hA)\<rparr>,
      \<lparr>avail = xs, tail_of = t\<rparr>, A') \<and>
     exchange_pair_id Z M rb open_sink
       \<lparr>avail = to_be_bytes (hs_s2q_id hA) @ to_be_bytes (hs_q2s_ack hA) @ ys, tail_of = u\<rparr> B =
     (Inr hB, open_sink\<lparr>written := to_be_bytes (hs_s2q_id hB) @ to_be_bytes (hs_q2s_ack hB)\<rparr>,
      \<lparr>avail = ys, tail_of = u\<rparr>, B') \<and>
     hs_q2s_id hA = hs_s2q_id hB \<and> hs_q2s_id hB = hs_s2q_id hA \<and>
     hs_s2q_ack hA = hs_q2s_ack hB \<and> hs_s2q_ack hB = hs_q2s_ack hA \<and>
     S (enc_at A' (hs_s2q_pair hA)) (dec_at B' (hs_q2s_pair hB)) \<and>
     S (enc_at B' (hs_s2q_pair hB)) (dec_at A' (hs_q2s_pair hA))"
  using assms by (rule handshake_runs)

theorem handshake_in_sync_witness:
  "\<exists>hA hB A' B'.
     exchange_pair_id storing_zstd list_moka 8 open_sink
       \<lparr>avail = to_be_bytes (hs_s2q_id hB) @ to_be_bytes (hs_q2s_ack hB) @ [1], tail_of = Closed\<rparr> rest_lru =
     (Inr hA, open_sink\<lparr>written := to_be_bytes (hs_s2q_id hA) @ to_be_bytes (hs_q2s_ack hA)\<rparr>,
      \<lparr>avail = [1], tail_of = Closed\<rparr>, A') \<and>
     exchange_pair_id storing_zstd list_moka 9 open_sink
       \<lparr>avail = to_be_bytes (hs_s2q_id hA) @ to_be_bytes (hs_q2s_ack hA) @ [2], tail_of = Closed\<rparr> rest_lru =
     (Inr hB, open_sink\<lparr>written := to_be_bytes (hs_s2q_id hB) @ to_be_bytes (hs_q2s_ack hB)\<rparr>,
      \<lparr>avail = [2], tail_of = Closed\<rparr>, B') \<and>
     hs_q2s_id hA = hs_s2q_id hB \<and> hs_q2s_id hB = hs_s2q_id hA \<and>
     hs_s2q_ack hA = hs_q2s_ack hB \<and> hs_s2q_ack hB = hs_q2s_ack hA \<and>
     enc_at A' (hs_s2q_pair hA) = dec_at B' (hs_q2s_pair hB) \<and>
     enc_at B' (hs_s2q_pair hB) = dec_at A' (hs_q2s_pair hA)"
  by (rule handshake_in_sync [OF list_moka_laws rest_lru_at_rest rest_lru_at_rest rest_lru_compatible
        rest_lru_mirrored]) (simp_all add: rest_lru_def)

text \<open>
  C38. The acknowledgement 0 for a reused pair replaces its encoder by a new one but leaves its
  decoder as it was: the pair that goes back into the table under its identifier has a decoder
  with the old history, while the peer's new pair under the same identifier has none.
\<close>

theorem miss_resets_encoder_only:
  assumes "moka_laws M \<alpha>" and "at_rest \<alpha> A" and "slots_ok (\<alpha> (lru_cache A)) []"
    and "makes_pairs Z A" and "rid \<noteq> 0" and "\<alpha> (lru_cache A) rid = None"
    and "checkout Z M rid A = (Some (i, p), A1)" and "i \<noteq> rid"
  shows "\<exists>h A'. exchange_pair_id Z M rid open_sink
       \<lparr>avail = to_be_bytes (k :: u128) @ to_be_bytes (0 :: u128) @ xs, tail_of = t\<rparr> A =
     (Inr h, open_sink\<lparr>written := to_be_bytes i @ to_be_bytes (hs_q2s_ack h)\<rparr>,
      \<lparr>avail = xs, tail_of = t\<rparr>, A') \<and>
     hs_s2q_pair h = p \<and> lru_encoder Z A = Some (enc_at A' p) \<and> dec_at A' p = dec_at A p"
proof -
  have re: "reused \<alpha> i p A A1"
    using checkout_take_SomeD [OF assms(1) assms(7) [unfolded checkout_def]] assms(8) by blast
  have "\<alpha> (lru_cache A) i = Some p" "\<alpha> (lru_cache A1) \<subseteq>\<^sub>m (\<alpha> (lru_cache A))(i := None)"
    using re by (simp_all add: reused_def)
  then have p: "p \<notin> ran (\<alpha> (lru_cache A1))" using slots_ok_take [OF assms(3)] by blast
  obtain q ack where q: "ack = 0 \<longrightarrow> p < q" "ack = 0 \<or> ack = k \<and> \<alpha> (lru_cache A1) k = Some q"
    and run: "\<forall>a xs t. \<exists>A'. exchange_pair_id Z M rid open_sink
         \<lparr>avail = to_be_bytes k @ to_be_bytes a @ xs, tail_of = t\<rparr> A =
       (Inr \<lparr>hs_s2q_pair = p, hs_q2s_pair = q, hs_s2q_id = i, hs_s2q_ack = a, hs_q2s_id = k,
             hs_q2s_ack = ack\<rparr>,
        open_sink\<lparr>written := to_be_bytes i @ to_be_bytes ack\<rparr>, \<lparr>avail = xs, tail_of = t\<rparr>, A') \<and>
       (if ack = 0 then lru_decoder Z A = Some (dec_at A' q) else dec_at A' q = dec_at A1 q) \<and>
       (if a = 0 then lru_encoder Z A = Some (enc_at A' p) else enc_at A' p = enc_at A1 p) \<and>
       (p \<noteq> q \<longrightarrow> dec_at A' p = dec_at A1 p)"
    using exchange_side [OF assms(1,2,4,5,7), of k] by blast
  have "p \<noteq> q" using q p ranI [of "\<alpha> (lru_cache A1)" k q] by auto
  moreover have "dec_at A1 p = dec_at A p" using re by (simp add: reused_def)
  moreover obtain A' where "exchange_pair_id Z M rid open_sink
         \<lparr>avail = to_be_bytes k @ to_be_bytes (0 :: u128) @ xs, tail_of = t\<rparr> A =
       (Inr \<lparr>hs_s2q_pair = p, hs_q2s_pair = q, hs_s2q_id = i, hs_s2q_ack = 0, hs_q2s_id = k,
             hs_q2s_ack = ack\<rparr>,
        open_sink\<lparr>written := to_be_bytes i @ to_be_bytes ack\<rparr>, \<lparr>avail = xs, tail_of = t\<rparr>, A')"
    "lru_encoder Z A = Some (enc_at A' p)" "p \<noteq> q \<longrightarrow> dec_at A' p = dec_at A1 p"
    using run [rule_format, of 0 xs t] by (elim exE conjE) simp
  ultimately show ?thesis
    by (intro exI [of _ "\<lparr>hs_s2q_pair = p, hs_q2s_pair = q, hs_s2q_id = i,
            hs_s2q_ack = 0, hs_q2s_id = k, hs_q2s_ack = ack\<rparr>"] exI [of _ A']) simp
qed

definition used_lru ::
    "(bytes \<times> bytes, bytes \<times> bytes, unit, unit, (u128 \<times> nat) list) codec_lru" where
  "used_lru = rest_lru\<lparr>pairs :=
     [\<lparr>cp_encoder = ([], []), cp_decoder = ([3], []), errored = False, cp_dict = codec_dict_none,
       cp_level = 9, cp_window_log = 24\<rparr>]\<rparr>"

theorem miss_resets_encoder_only_witness:
  "\<exists>h A'. exchange_pair_id storing_zstd list_moka 8 open_sink
       \<lparr>avail = to_be_bytes (0 :: u128) @ to_be_bytes (0 :: u128) @ [], tail_of = Closed\<rparr> used_lru =
     (Inr h, open_sink\<lparr>written := to_be_bytes (5 :: u128) @ to_be_bytes (hs_q2s_ack h)\<rparr>,
      \<lparr>avail = [], tail_of = Closed\<rparr>, A') \<and>
     hs_s2q_pair h = 0 \<and> Some ([], []) = Some (enc_at A' 0) \<and> dec_at A' 0 = ([3], [])"
proof -
  have rest: "at_rest map_of used_lru"
    by (simp add: at_rest_def used_lru_def rest_lru_def healthy_def settings_ok_def)
  have slots: "slots_ok (map_of (lru_cache used_lru)) []"
    by (simp add: slots_ok_def used_lru_def rest_lru_def inj_on_def)
  have made: "lru_encoder storing_zstd used_lru = Some ([], [])"
      "lru_decoder storing_zstd used_lru = Some ([], [])"
    using rest_lru_made by (simp_all add: used_lru_def)
  have co: "checkout storing_zstd list_moka 8 used_lru = (Some (5, 0), used_lru\<lparr>lru_cache := []\<rparr>)"
    by (simp add: checkout_def checkout_scan_def checkout_take_def list_moka_def used_lru_def
        rest_lru_def is_errored_def)
  have "makes_pairs storing_zstd used_lru" using made by (simp add: makes_pairs_def)
  from miss_resets_encoder_only [OF list_moka_laws rest slots this _ _ co, of 0 "[]" Closed]
  show ?thesis unfolding made by (simp add: used_lru_def rest_lru_def)
qed

end
