(* ===== verification/Codec_Stream.thy ===== *)
theory Codec_Stream
  imports Codec_Http Codec_Handshake
begin

text \<open>
  \<^verbatim>\<open>src/src/codec/mod.rs\<close>: the configuration of the compression layer, the two
  tasks of a compressed stream with their statistics, and what becomes of the pairs when
  the tasks end. The loops run on the list of what happens to them, in order.
\<close>

section \<open>Configuration and statistics\<close>

record codec_stats =
  up_raw :: u64
  up_compressed :: u64
  down_compressed :: u64
  down_decompressed :: u64

definition codec_stats_default :: codec_stats where
  "codec_stats_default =
     \<lparr>up_raw = 0, up_compressed = 0, down_compressed = 0, down_decompressed = 0\<rparr>"

definition merge_stats :: "codec_stats \<Rightarrow> codec_stats \<Rightarrow> codec_stats" where
  "merge_stats g stats =
     \<lparr>up_raw = up_raw g + up_raw stats,
      up_compressed = up_compressed g + up_compressed stats,
      down_compressed = down_compressed g + down_compressed stats,
      down_decompressed = down_decompressed g + down_decompressed stats\<rparr>"

text \<open>
  The lazily initialised table of the configuration is \<open>None\<close> until its first use.
\<close>

record ('e, 'd, 'ed, 'dd, 'c) codec_config =
  cc_enabled :: bool
  cc_http_aware :: bool
  cc_level :: "32 word"
  cc_window_log :: u32
  cc_pair_ttl_secs :: u64
  cc_flush_interval_ms :: u64
  cc_lru :: "('e, 'd, 'ed, 'dd, 'c) codec_lru option"
  cc_dict :: "('ed, 'dd) codec_dict"
  cc_global_stats :: "codec_stats option"

definition codec_config_new ::
    "bool \<Rightarrow> bool \<Rightarrow> 32 word \<Rightarrow> u32 \<Rightarrow> u64 \<Rightarrow> u64 \<Rightarrow> ('e, 'd, 'ed, 'dd, 'c) codec_config" where
  "codec_config_new enabled http_aware level window_log pair_ttl_secs flush_interval_ms =
     \<lparr>cc_enabled = enabled, cc_http_aware = http_aware, cc_level = level,
      cc_window_log = window_log, cc_pair_ttl_secs = pair_ttl_secs,
      cc_flush_interval_ms = flush_interval_ms, cc_lru = None, cc_dict = codec_dict_none,
      cc_global_stats = None\<rparr>"

definition codec_config_default :: "('e, 'd, 'ed, 'dd, 'c) codec_config" where
  "codec_config_default =
     \<lparr>cc_enabled = False, cc_http_aware = False, cc_level = 9, cc_window_log = 24,
      cc_pair_ttl_secs = 5 * 3600, cc_flush_interval_ms = 150, cc_lru = None,
      cc_dict = codec_dict_none, cc_global_stats = None\<rparr>"

definition with_dictionary ::
    "('e, 'd, 'ed, 'dd) zstd_lib \<Rightarrow> bytes \<Rightarrow> ('e, 'd, 'ed, 'dd, 'c) codec_config \<Rightarrow>
     ('e, 'd, 'ed, 'dd, 'c) codec_config" where
  "with_dictionary Z dict cfg =
     (if dict \<noteq> [] then cfg\<lparr>cc_dict := codec_dict_from_bytes Z dict (cc_level cfg)\<rparr> else cfg)"

definition with_global_stats ::
    "codec_stats \<Rightarrow> ('e, 'd, 'ed, 'dd, 'c) codec_config \<Rightarrow> ('e, 'd, 'ed, 'dd, 'c) codec_config" where
  "with_global_stats stats cfg = cfg\<lparr>cc_global_stats := Some stats\<rparr>"

definition config_lru ::
    "'c moka \<Rightarrow> ('e, 'd, 'ed, 'dd, 'c) codec_config \<Rightarrow>
     ('e, 'd, 'ed, 'dd, 'c) codec_lru \<times> ('e, 'd, 'ed, 'dd, 'c) codec_config" where
  "config_lru M cfg =
     (case cc_lru cfg of
        Some lru \<Rightarrow> (lru, cfg)
      | None \<Rightarrow>
          (let lru = codec_lru_new M 256 (cc_dict cfg) (cc_level cfg) (cc_window_log cfg)
                 (cc_pair_ttl_secs cfg)
           in (lru, cfg\<lparr>cc_lru := Some lru\<rparr>)))"

section \<open>The encoder task\<close>

datatype stream_outcome = CleanEof | Timeout | IoError

record 'e enc_task =
  et_enc :: 'e
  et_out :: sink
  et_raw :: u64
  et_compressed :: u64

definition emit_encoded ::
    "('e, 'd, 'ed, 'dd) zstd_lib \<Rightarrow> 'e enc_task \<Rightarrow> bool \<times> 'e enc_task" where
  "emit_encoded Z t =
     (case enc_take Z (et_enc t) of
        (produced, enc) \<Rightarrow>
          if produced = [] then (True, t\<lparr>et_enc := enc\<rparr>)
          else (case write_all produced (et_out t) of
                  (ok, k) \<Rightarrow>
                    (ok, t\<lparr>et_enc := enc, et_out := k,
                           et_compressed := et_compressed t + word_of_nat (length produced)\<rparr>)))"

definition write_compressed ::
    "('e, 'd, 'ed, 'dd) zstd_lib \<Rightarrow> bytes \<Rightarrow> 'e enc_task \<Rightarrow> bool \<times> 'e enc_task" where
  "write_compressed Z data t =
     (case enc_write_all Z data (et_enc t) of
        (True, enc) \<Rightarrow> emit_encoded Z (t\<lparr>et_enc := enc\<rparr>)
      | (False, enc) \<Rightarrow> (False, t\<lparr>et_enc := enc\<rparr>))"

definition flush_encoder ::
    "('e, 'd, 'ed, 'dd) zstd_lib \<Rightarrow> 'e enc_task \<Rightarrow> bool \<times> 'e enc_task" where
  "flush_encoder Z t =
     (case enc_flush Z (et_enc t) of
        (True, enc) \<Rightarrow> emit_encoded Z (t\<lparr>et_enc := enc\<rparr>)
      | (False, enc) \<Rightarrow> (False, t\<lparr>et_enc := enc\<rparr>))"

text \<open>
  The result of a task: \<open>Inl ()\<close> is an error propagated by the question mark operator.
  \<open>None\<close> is a task that still runs when the listed events are used up.
\<close>

definition finish_encoder ::
    "('e, 'd, 'ed, 'dd) zstd_lib \<Rightarrow> 'e enc_task \<Rightarrow> (unit + stream_outcome) option \<times> 'e enc_task" where
  "finish_encoder Z t =
     (case flush_encoder Z t of
        (True, t') \<Rightarrow> (Some (Inr CleanEof), t')
      | (False, t') \<Rightarrow> (Some (Inl ()), t'))"

definition count_raw :: "bytes \<Rightarrow> 'e enc_task \<Rightarrow> 'e enc_task" where
  "count_raw data t = t\<lparr>et_raw := et_raw t + word_of_nat (length data)\<rparr>"

text \<open>Basic mode: each round of the select yields a timed read or the flush timer.\<close>

datatype enc_event = ReadEv read_event | FlushTick

fun run_encoder_basic ::
    "('e, 'd, 'ed, 'dd) zstd_lib \<Rightarrow> enc_event list \<Rightarrow> 'e enc_task \<Rightarrow>
     (unit + stream_outcome) option \<times> 'e enc_task" where
  "run_encoder_basic Z [] t = (None, t)"
| "run_encoder_basic Z (FlushTick # evs) t =
     (case flush_encoder Z t of
        (True, t') \<Rightarrow> run_encoder_basic Z evs t'
      | (False, t') \<Rightarrow> (Some (Inl ()), t'))"
| "run_encoder_basic Z (ReadEv Elapsed # evs) t = (Some (Inr Timeout), t)"
| "run_encoder_basic Z (ReadEv ReadErr # evs) t = (Some (Inr IoError), t)"
| "run_encoder_basic Z (ReadEv Eof # evs) t = finish_encoder Z t"
| "run_encoder_basic Z (ReadEv (Data bs) # evs) t =
     (if bs = [] then finish_encoder Z t
      else case write_compressed Z bs (count_raw bs t) of
             (True, t') \<Rightarrow> run_encoder_basic Z evs t'
           | (False, t') \<Rightarrow> (Some (Inl ()), t'))"

text \<open>
  One round of the select: the read started in this round completes after a delay (or not
  at all), its timer runs \<open>stream_timeout\<close>, and the flush timer \<open>flush_interval\<close>; both
  timers start anew in every round.
\<close>

inductive select_round :: "nat \<Rightarrow> nat \<Rightarrow> (nat \<times> read_event) option \<Rightarrow> enc_event \<Rightarrow> bool"
  for stream_timeout flush_interval where
  select_read: "d \<le> stream_timeout \<Longrightarrow> d \<le> flush_interval \<Longrightarrow> ev \<noteq> Elapsed \<Longrightarrow>
     select_round stream_timeout flush_interval (Some (d, ev)) (ReadEv ev)"
| select_flush: "flush_interval \<le> stream_timeout \<Longrightarrow> pred_option (\<lambda>(d, _). flush_interval \<le> d) next \<Longrightarrow>
     select_round stream_timeout flush_interval next FlushTick"
| select_elapsed: "stream_timeout \<le> flush_interval \<Longrightarrow>
     pred_option (\<lambda>(d, _). stream_timeout \<le> d) next \<Longrightarrow>
     select_round stream_timeout flush_interval next (ReadEv Elapsed)"

inductive_cases select_roundE: "select_round to fl next ev"

text \<open>
  HTTP mode: the messages the reader extracts are written and flushed one by one. The
  recursion ends because every message but the last takes bytes out of the input.
\<close>

function run_encoder_http ::
    "('e, 'd, 'ed, 'dd) zstd_lib \<Rightarrow> http_parser \<Rightarrow> read_event list \<Rightarrow> http_reader \<Rightarrow> 'e enc_task \<Rightarrow>
     (unit + stream_outcome) option \<times> http_reader \<times> 'e enc_task" where
  "run_encoder_http Z hp evs hr t =
     (case read_message hp evs hr of
        (None, evs', hr') \<Rightarrow> (None, hr', t)
      | (Some (Inl e), evs', hr') \<Rightarrow> (Some (Inr IoError), hr', t)
      | (Some (Inr NeedMore), evs', hr') \<Rightarrow> run_encoder_http Z hp evs' hr' t
      | (Some (Inr (Message data)), evs', hr') \<Rightarrow>
          if data = [] then (case finish_encoder Z t of (r, t') \<Rightarrow> (r, hr', t'))
          else (case write_compressed Z data (count_raw data t) of
                  (False, t1) \<Rightarrow> (Some (Inl ()), hr', t1)
                | (True, t1) \<Rightarrow>
                    (case flush_encoder Z t1 of
                       (False, t2) \<Rightarrow> (Some (Inl ()), hr', t2)
                     | (True, t2) \<Rightarrow> run_encoder_http Z hp evs' hr' t2)))"
  by pat_completeness auto

lemma read_message_shrinks:
  assumes "read_message hp evs hr = (Some (Inr (Message data)), evs', hr')" and "data \<noteq> []"
  shows "length (hr_buf hr') + length (arrived evs') < length (hr_buf hr) + length (arrived evs)"
proof -
  obtain used where "evs = used @ evs'" "hr_buf hr @ arrived used = data @ hr_buf hr'"
    using read_message_conserves [OF assms(1)] by auto
  moreover then have "length (hr_buf hr) + length (arrived used) = length data + length (hr_buf hr')"
    by (metis length_append)
  ultimately show ?thesis using assms(2) by (cases data) auto
qed

termination run_encoder_http
proof (relation "measure (\<lambda>(Z, hp, evs, hr, t). length (hr_buf hr) + length (arrived evs))", goal_cases)
  case 1
  then show ?case by simp
next
  case (2 Z hp evs hr t x y res msg data evs' hr')
  then have "read_message hp evs hr = (Some (Inr (Message data)), evs', hr')" by simp
  from read_message_shrinks [OF this 2(6)] show ?case by simp
next
  case (3 Z hp evs hr t)
  then have "fst (read_message hp evs hr) = Some (Inr NeedMore)" by (metis fst_conv)
  then show ?case using read_message_never_NeedMore by blast
qed

declare run_encoder_http.simps [simp del]

section \<open>The decoder task\<close>

record 'd dec_task =
  dt_dec :: 'd
  dt_out :: sink
  dt_compressed :: u64
  dt_decompressed :: u64

definition emit_decoded ::
    "('e, 'd, 'ed, 'dd) zstd_lib \<Rightarrow> 'd dec_task \<Rightarrow> bool \<times> 'd dec_task" where
  "emit_decoded Z t =
     (case dec_take Z (dt_dec t) of
        (produced, dec) \<Rightarrow>
          if produced = [] then (True, t\<lparr>dt_dec := dec\<rparr>)
          else (case write_all produced (dt_out t) of
                  (ok, k) \<Rightarrow>
                    (ok, t\<lparr>dt_dec := dec, dt_out := k,
                           dt_decompressed := dt_decompressed t + word_of_nat (length produced)\<rparr>)))"

definition flush_decoder ::
    "('e, 'd, 'ed, 'dd) zstd_lib \<Rightarrow> 'd dec_task \<Rightarrow> bool \<times> 'd dec_task" where
  "flush_decoder Z t =
     (case dec_flush Z (dt_dec t) of
        (True, dec) \<Rightarrow> emit_decoded Z (t\<lparr>dt_dec := dec\<rparr>)
      | (False, dec) \<Rightarrow> (False, t\<lparr>dt_dec := dec\<rparr>))"

definition decode_chunk ::
    "('e, 'd, 'ed, 'dd) zstd_lib \<Rightarrow> bytes \<Rightarrow> 'd dec_task \<Rightarrow> bool \<times> 'd dec_task" where
  "decode_chunk Z data t =
     (let t1 = t\<lparr>dt_compressed := dt_compressed t + word_of_nat (length data)\<rparr>
      in case dec_write_all Z data (dt_dec t1) of
           (True, dec) \<Rightarrow> flush_decoder Z (t1\<lparr>dt_dec := dec\<rparr>)
         | (False, dec) \<Rightarrow> (False, t1\<lparr>dt_dec := dec\<rparr>))"

text \<open>At the end: drain the decoder, then shut the local stream down.\<close>

definition finish_decoder ::
    "('e, 'd, 'ed, 'dd) zstd_lib \<Rightarrow> 'd dec_task \<Rightarrow> (unit + stream_outcome) option \<times> 'd dec_task" where
  "finish_decoder Z t =
     (case flush_decoder Z t of
        (False, t') \<Rightarrow> (Some (Inl ()), t')
      | (True, t') \<Rightarrow>
          if budget (dt_out t') = Some 0 then (Some (Inl ()), t')
          else (Some (Inr CleanEof), t'\<lparr>dt_out := (dt_out t')\<lparr>finished := True\<rparr>\<rparr>))"

fun run_decoder ::
    "('e, 'd, 'ed, 'dd) zstd_lib \<Rightarrow> read_event list \<Rightarrow> 'd dec_task \<Rightarrow>
     (unit + stream_outcome) option \<times> 'd dec_task" where
  "run_decoder Z [] t = (None, t)"
| "run_decoder Z (Elapsed # evs) t = (Some (Inr Timeout), t)"
| "run_decoder Z (ReadErr # evs) t = (Some (Inr IoError), t)"
| "run_decoder Z (Eof # evs) t = finish_decoder Z t"
| "run_decoder Z (Data bs # evs) t =
     (if bs = [] then finish_decoder Z t
      else case decode_chunk Z bs t of
             (True, t') \<Rightarrow> run_decoder Z evs t'
           | (False, t') \<Rightarrow> (Some (Inl ()), t'))"

section \<open>A compressed stream\<close>

text \<open>
  What a finished task does with its pair: it is returned after a clean end or a local I/O
  error, and marked broken after a timeout or a codec error.
\<close>

definition end_task ::
    "'c moka \<Rightarrow> u128 \<Rightarrow> nat \<Rightarrow> (unit + stream_outcome) option \<Rightarrow>
     ('e, 'd, 'ed, 'dd, 'c) codec_lru \<Rightarrow> ('e, 'd, 'ed, 'dd, 'c) codec_lru" where
  "end_task M k p result lru =
     (case result of
        None \<Rightarrow> lru
      | Some (Inr CleanEof) \<Rightarrow> checkin M k p lru
      | Some (Inr IoError) \<Rightarrow> checkin M k p lru
      | Some _ \<Rightarrow> mark_errored p lru)"

record codec_run =
  cr_s2q :: "(unit + stream_outcome) option"
  cr_q2s :: "(unit + stream_outcome) option"
  cr_quic_send :: sink
  cr_stream_write :: sink
  cr_stats :: codec_stats

definition reads_of :: "enc_event list \<Rightarrow> read_event list" where
  "reads_of evs = List.map_filter (\<lambda>ev. case ev of ReadEv r \<Rightarrow> Some r | FlushTick \<Rightarrow> None) evs"

definition run_encoder ::
    "('e, 'd, 'ed, 'dd) zstd_lib \<Rightarrow> http_parser \<Rightarrow> bool \<Rightarrow> enc_event list \<Rightarrow> 'e enc_task \<Rightarrow>
     (unit + stream_outcome) option \<times> 'e enc_task" where
  "run_encoder Z hp http_aware evs t =
     (if http_aware
      then (case run_encoder_http Z hp (reads_of evs) http_reader_new t of (r, _, t') \<Rightarrow> (r, t'))
      else run_encoder_basic Z evs t)"

text \<open>
  The two tasks after the handshake. Each works on its own half of its own pair; the pairs go
  back in the order in which the tasks end (\<open>s2q_first\<close>).
\<close>

definition codec_tasks ::
    "('e, 'd, 'ed, 'dd) zstd_lib \<Rightarrow> 'c moka \<Rightarrow> http_parser \<Rightarrow> bool \<Rightarrow> handshake_result \<Rightarrow>
     enc_event list \<Rightarrow> read_event list \<Rightarrow> bool \<Rightarrow> sink \<Rightarrow> sink \<Rightarrow>
     ('e, 'd, 'ed, 'dd, 'c) codec_lru \<Rightarrow> codec_run \<times> ('e, 'd, 'ed, 'dd, 'c) codec_lru" where
  "codec_tasks Z M hp http_aware h enc_evs dec_evs s2q_first quic_send stream_write lru =
     (case run_encoder Z hp http_aware enc_evs
             \<lparr>et_enc = enc_at lru (hs_s2q_pair h), et_out = quic_send, et_raw = 0,
              et_compressed = 0\<rparr> of
        (r1, t) \<Rightarrow>
          (case run_decoder Z dec_evs
                  \<lparr>dt_dec = dec_at lru (hs_q2s_pair h), dt_out = stream_write, dt_compressed = 0,
                   dt_decompressed = 0\<rparr> of
             (r2, u) \<Rightarrow>
               (let lru1 = update_pair (hs_s2q_pair h) (\<lambda>cp. cp\<lparr>cp_encoder := et_enc t\<rparr>) lru;
                    lru2 = update_pair (hs_q2s_pair h) (\<lambda>cp. cp\<lparr>cp_decoder := dt_dec u\<rparr>) lru1;
                    end1 = end_task M (hs_s2q_id h) (hs_s2q_pair h) r1;
                    end2 = end_task M (hs_q2s_id h) (hs_q2s_pair h) r2;
                    quic = (if r1 = None then et_out t else (et_out t)\<lparr>finished := True\<rparr>)
                in (\<lparr>cr_s2q = r1, cr_q2s = r2, cr_quic_send = quic, cr_stream_write = dt_out u,
                     cr_stats = \<lparr>up_raw = et_raw t, up_compressed = et_compressed t,
                       down_compressed = dt_compressed u, down_decompressed = dt_decompressed u\<rparr>\<rparr>,
                    if s2q_first then end2 (end1 lru2) else end1 (end2 lru2)))))"

datatype codec_flow =
  Delegated "flow option" | NoPeerAddr | HandshakeFailed handshake_error | Flowed codec_run

definition merge_global ::
    "codec_run \<Rightarrow> ('e, 'd, 'ed, 'dd, 'c) codec_config \<Rightarrow> ('e, 'd, 'ed, 'dd, 'c) codec_config" where
  "merge_global run cfg =
     (if cr_s2q run \<noteq> None \<and> cr_q2s run \<noteq> None
      then cfg\<lparr>cc_global_stats := map_option (\<lambda>g. merge_stats g (cr_stats run)) (cc_global_stats cfg)\<rparr>
      else cfg)"

definition start_flowing_with_codec ::
    "('e, 'd, 'ed, 'dd) zstd_lib \<Rightarrow> 'c moka \<Rightarrow> http_parser \<Rightarrow> u128 \<Rightarrow> socket_addr option \<Rightarrow>
     sink \<Rightarrow> instream \<Rightarrow> sink \<Rightarrow> enc_event list \<Rightarrow> read_event list \<Rightarrow> bool \<Rightarrow>
     ('e, 'd, 'ed, 'dd, 'c) codec_config \<Rightarrow> codec_flow \<times> ('e, 'd, 'ed, 'dd, 'c) codec_config" where
  "start_flowing_with_codec Z M hp rid peer_addr quic_send quic_recv stream_write enc_evs dec_evs
     s2q_first cfg =
     (if \<not> cc_enabled cfg then (Delegated (start_flowing peer_addr stream_write quic_send), cfg)
      else case peer_addr of
        None \<Rightarrow> (NoPeerAddr, cfg)
      | Some _ \<Rightarrow>
          (case config_lru M cfg of
             (lru, cfg1) \<Rightarrow>
               (case exchange_pair_id Z M rid quic_send quic_recv lru of
                  (Inl e, k, s, lru1) \<Rightarrow> (HandshakeFailed e, cfg1\<lparr>cc_lru := Some lru1\<rparr>)
                | (Inr h, k, s, lru1) \<Rightarrow>
                    (case codec_tasks Z M hp (cc_http_aware cfg) h enc_evs dec_evs s2q_first k
                            stream_write lru1 of
                       (run, lru2) \<Rightarrow>
                         (Flowed run, merge_global run (cfg1\<lparr>cc_lru := Some lru2\<rparr>))))))"

text \<open>\<^verbatim>\<open>short_id\<close>: eight hexadecimal digits of the upper 32 bits.\<close>

definition short_id :: "u128 \<Rightarrow> string" where
  "short_id k =
     (let ds = show_digits 16 (unat (ucast (drop_bit 96 k) :: u32))
      in replicate (8 - length ds) (CHR ''0'') @ ds)"

section \<open>What the compressor promises\<close>

text \<open>
  The streaming contract of the compressor. \<open>sync e d w p\<close>: the encoder \<open>e\<close> and the
  decoder \<open>d\<close> belong to one stream, \<open>w\<close> are the emitted bytes that \<open>d\<close> has not
  been given, and \<open>p\<close> the plain bytes written to \<open>e\<close> that \<open>d\<close> has not delivered.
  Writing and flushing never fail on a healthy stream and lose nothing; after a flush, an
  emptied encoder (\<open>drained\<close>) has emitted all it was given, and a decoder that was given
  all of that delivers it when flushed.
\<close>

definition zstd_laws ::
    "('e, 'd, 'ed, 'dd) zstd_lib \<Rightarrow> ('e \<Rightarrow> 'd \<Rightarrow> bytes \<Rightarrow> bytes \<Rightarrow> bool) \<Rightarrow> ('e \<Rightarrow> bool) \<Rightarrow> bool" where
  "zstd_laws Z sync drained \<longleftrightarrow>
     (\<forall>e d w p bs. sync e d w p \<longrightarrow>
        fst (enc_write_all Z bs e) \<and> sync (snd (enc_write_all Z bs e)) d w (p @ bs)) \<and>
     (\<forall>e d w p. sync e d w p \<longrightarrow> fst (enc_flush Z e) \<and> sync (snd (enc_flush Z e)) d w p) \<and>
     (\<forall>e d w p. sync e d w p \<longrightarrow> sync (snd (enc_take Z e)) d (w @ fst (enc_take Z e)) p) \<and>
     (\<forall>e. drained (snd (enc_take Z (snd (enc_flush Z e))))) \<and>
     (\<forall>e d w p bs. sync e d (bs @ w) p \<longrightarrow>
        fst (dec_write_all Z bs d) \<and> sync e (snd (dec_write_all Z bs d)) w p) \<and>
     (\<forall>e d w p. sync e d w p \<longrightarrow> fst (dec_flush Z d) \<and> sync e (snd (dec_flush Z d)) w p) \<and>
     (\<forall>e d w p. sync e d w p \<longrightarrow>
        (\<exists>p'. p = fst (dec_take Z d) @ p' \<and> sync e (snd (dec_take Z d)) w p')) \<and>
     (\<forall>e d p. sync e d [] p \<longrightarrow> drained e \<longrightarrow> fst (dec_take Z (snd (dec_flush Z d))) = p)"

definition stored_sync :: "bytes \<times> bytes \<Rightarrow> bytes \<times> bytes \<Rightarrow> bytes \<Rightarrow> bytes \<Rightarrow> bool" where
  "stored_sync e d w p \<longleftrightarrow> p = snd d @ fst d @ w @ snd e @ fst e"

definition stored_drained :: "bytes \<times> bytes \<Rightarrow> bool" where
  "stored_drained e \<longleftrightarrow> e = ([], [])"

lemma storing_zstd_laws: "zstd_laws storing_zstd stored_sync stored_drained"
  by (auto simp: zstd_laws_def storing_zstd_def stored_sync_def stored_drained_def)

lemmas zstd_unfold = iffD1 [OF zstd_laws_def]

lemmas zstdD =
  zstd_unfold [THEN conjunct1, rule_format]
  zstd_unfold [THEN conjunct2, THEN conjunct1, rule_format]
  zstd_unfold [THEN conjunct2, THEN conjunct2, THEN conjunct1, rule_format]
  zstd_unfold [THEN conjunct2, THEN conjunct2, THEN conjunct2, THEN conjunct1, rule_format]
  zstd_unfold [THEN conjunct2, THEN conjunct2, THEN conjunct2, THEN conjunct2, THEN conjunct1, rule_format]
  zstd_unfold [THEN conjunct2, THEN conjunct2, THEN conjunct2, THEN conjunct2, THEN conjunct2, THEN conjunct1, rule_format]
  zstd_unfold [THEN conjunct2, THEN conjunct2, THEN conjunct2, THEN conjunct2, THEN conjunct2, THEN conjunct2, THEN conjunct1, rule_format]
  zstd_unfold [THEN conjunct2, THEN conjunct2, THEN conjunct2, THEN conjunct2, THEN conjunct2, THEN conjunct2, THEN conjunct2, rule_format]

section \<open>The encoder loses nothing\<close>

text \<open>
  A healthy encoder task: what it has sent on the stream after the \<open>pre\<close>fix the handshake
  left there is \<open>w\<close>, and \<open>p\<close> are the plain bytes not yet delivered at the other end.
\<close>

definition encoding ::
    "('e \<Rightarrow> 'd \<Rightarrow> bytes \<Rightarrow> bytes \<Rightarrow> bool) \<Rightarrow> 'd \<Rightarrow> bytes \<Rightarrow> 'e enc_task \<Rightarrow> bytes \<Rightarrow> bytes \<Rightarrow> bool" where
  "encoding sync d pre t w p \<longleftrightarrow>
     budget (et_out t) = None \<and> written (et_out t) = pre @ w \<and> sync (et_enc t) d w p \<and>
     et_compressed t = word_of_nat (length w)"

lemma emit_encoded_ok:
  assumes Z: "zstd_laws Z sync drained" and t: "encoding sync d pre t w p"
  shows "\<exists>t' w'. emit_encoded Z t = (True, t') \<and> encoding sync d pre t' w' p \<and>
    et_enc t' = snd (enc_take Z (et_enc t)) \<and> et_raw t' = et_raw t"
proof -
  obtain out enc where tk: "enc_take Z (et_enc t) = (out, enc)" by fastforce
  have b: "budget (et_out t) = None" and wr: "written (et_out t) = pre @ w"
    and sy: "sync (et_enc t) d w p" and c: "et_compressed t = word_of_nat (length w)"
    using t by (simp_all add: encoding_def)
  have sy': "sync enc d (w @ out) p" using zstdD(3) [OF Z sy] tk by simp
  show ?thesis
  proof (cases "out = []")
    case True
    then have "emit_encoded Z t = (True, t\<lparr>et_enc := enc\<rparr>)" by (simp add: emit_encoded_def tk)
    moreover have "encoding sync d pre (t\<lparr>et_enc := enc\<rparr>) w p"
      using True b wr sy' c by (simp add: encoding_def)
    ultimately show ?thesis using tk by (intro exI [of _ "t\<lparr>et_enc := enc\<rparr>"] exI [of _ w]) simp
  next
    case False
    let ?t = "t\<lparr>et_enc := enc, et_out := (et_out t)\<lparr>written := written (et_out t) @ out\<rparr>,
                et_compressed := et_compressed t + word_of_nat (length out)\<rparr>"
    have "emit_encoded Z t = (True, ?t)" using False b by (simp add: emit_encoded_def tk)
    moreover have "encoding sync d pre ?t (w @ out) p" using b wr sy' c by (simp add: encoding_def)
    ultimately show ?thesis using tk by (intro exI [of _ ?t] exI [of _ "w @ out"]) simp
  qed
qed

lemma flush_encoder_ok:
  assumes Z: "zstd_laws Z sync drained" and t: "encoding sync d pre t w p"
  shows "\<exists>t' w'. flush_encoder Z t = (True, t') \<and> encoding sync d pre t' w' p \<and>
    drained (et_enc t') \<and> et_raw t' = et_raw t"
proof -
  obtain ok enc where fl: "enc_flush Z (et_enc t) = (ok, enc)" by fastforce
  have "sync (et_enc t) d w p" using t by (simp add: encoding_def)
  from zstdD(2) [OF Z this] fl have ok: "ok" and sy: "sync enc d w p" by simp_all
  have "encoding sync d pre (t\<lparr>et_enc := enc\<rparr>) w p" using t sy by (simp add: encoding_def)
  from emit_encoded_ok [OF Z this] obtain t' w' where
    "emit_encoded Z (t\<lparr>et_enc := enc\<rparr>) = (True, t')" "encoding sync d pre t' w' p"
    "et_enc t' = snd (enc_take Z enc)" "et_raw t' = et_raw t" by auto
  then show ?thesis using zstdD(4) [OF Z, of "et_enc t"] fl ok
    by (intro exI [of _ t'] exI [of _ w']) (simp add: flush_encoder_def)
qed

lemma write_compressed_ok:
  assumes Z: "zstd_laws Z sync drained" and t: "encoding sync d pre t w p"
  shows "\<exists>t' w'. write_compressed Z bs t = (True, t') \<and> encoding sync d pre t' w' (p @ bs) \<and>
    et_raw t' = et_raw t"
proof -
  obtain ok enc where wa: "enc_write_all Z bs (et_enc t) = (ok, enc)" by fastforce
  have "sync (et_enc t) d w p" using t by (simp add: encoding_def)
  from zstdD(1) [OF Z this, of bs] wa have ok: "ok" and sy: "sync enc d w (p @ bs)" by simp_all
  have "encoding sync d pre (t\<lparr>et_enc := enc\<rparr>) w (p @ bs)" using t sy by (simp add: encoding_def)
  from emit_encoded_ok [OF Z this] obtain t' w' where
    "emit_encoded Z (t\<lparr>et_enc := enc\<rparr>) = (True, t')" "encoding sync d pre t' w' (p @ bs)"
    "et_raw t' = et_raw t" by auto
  then show ?thesis using wa ok
    by (intro exI [of _ t'] exI [of _ w']) (simp add: write_compressed_def)
qed

lemma finish_encoder_ok:
  assumes "zstd_laws Z sync drained" and "encoding sync d pre t w p"
  shows "\<exists>t' w'. finish_encoder Z t = (Some (Inr CleanEof), t') \<and> encoding sync d pre t' w' p \<and>
    drained (et_enc t') \<and> et_raw t' = et_raw t"
  using flush_encoder_ok [OF assms] by (auto simp: finish_encoder_def)

text \<open>Rounds that keep the loop going: the flush timer and reads of some bytes.\<close>

fun goes_on :: "enc_event \<Rightarrow> bool" where
  "goes_on FlushTick = True"
| "goes_on (ReadEv (Data bs)) = (bs \<noteq> [])"
| "goes_on _ = False"

definition enc_input :: "enc_event list \<Rightarrow> bytes" where
  "enc_input evs = arrived (reads_of evs)"

lemma enc_input_simps [simp]:
  "enc_input [] = []" "enc_input (FlushTick # evs) = enc_input evs"
  "enc_input (ReadEv (Data bs) # evs) = bs @ enc_input evs"
  by (simp_all add: enc_input_def reads_of_def List.map_filter_simps)

lemma encoding_count_raw [simp]: "encoding sync d pre (count_raw bs t) w p = encoding sync d pre t w p"
  by (simp add: encoding_def count_raw_def)

lemma run_encoder_basic_goes_on:
  assumes Z: "zstd_laws Z sync drained"
  shows "list_all goes_on evs \<Longrightarrow> encoding sync d pre t w p \<Longrightarrow>
    \<exists>t' w'. run_encoder_basic Z (evs @ rest) t = run_encoder_basic Z rest t' \<and>
      encoding sync d pre t' w' (p @ enc_input evs) \<and>
      et_raw t' = et_raw t + word_of_nat (length (enc_input evs))"
proof (induction evs arbitrary: t w p)
  case Nil
  then show ?case by auto
next
  case (Cons ev evs)
  show ?case
  proof (cases ev rule: goes_on.cases)
    case 1
    obtain t1 w1 where t1: "flush_encoder Z t = (True, t1)" "encoding sync d pre t1 w1 p"
      "et_raw t1 = et_raw t" using flush_encoder_ok [OF Z Cons.prems(2)] by blast
    have "list_all goes_on evs" using Cons.prems(1) by simp
    from Cons.IH [OF this t1(2)] t1(1,3) 1 show ?thesis by simp
  next
    case (2 bs)
    then have bs: "bs \<noteq> []" and l: "list_all goes_on evs" using Cons.prems(1) by simp_all
    have "encoding sync d pre (count_raw bs t) w p" using Cons.prems(2) by simp
    from write_compressed_ok [OF Z this, of bs] obtain t1 w1 where
      t1: "write_compressed Z bs (count_raw bs t) = (True, t1)" "encoding sync d pre t1 w1 (p @ bs)"
      "et_raw t1 = et_raw (count_raw bs t)" by blast
    from Cons.IH [OF l t1(2)] t1(1,3) 2 bs show ?thesis by (simp add: count_raw_def add.assoc)
  qed (use Cons.prems in simp_all)
qed

section \<open>The decoder delivers\<close>

definition decoding ::
    "('e \<Rightarrow> 'd \<Rightarrow> bytes \<Rightarrow> bytes \<Rightarrow> bool) \<Rightarrow> 'e \<Rightarrow> bytes \<Rightarrow> 'd dec_task \<Rightarrow> bytes \<Rightarrow> bytes \<Rightarrow> bytes \<Rightarrow> bool" where
  "decoding sync e pre u w p delivered \<longleftrightarrow>
     budget (dt_out u) = None \<and> written (dt_out u) = pre @ delivered \<and> sync e (dt_dec u) w p \<and>
     dt_decompressed u = word_of_nat (length delivered)"

lemma emit_decoded_ok:
  assumes Z: "zstd_laws Z sync drained" and u: "decoding sync e pre u w p delivered"
  shows "\<exists>u' p'. emit_decoded Z u = (True, u') \<and> p = fst (dec_take Z (dt_dec u)) @ p' \<and>
    decoding sync e pre u' w p' (delivered @ fst (dec_take Z (dt_dec u))) \<and>
    dt_compressed u' = dt_compressed u"
proof -
  obtain out dec where tk: "dec_take Z (dt_dec u) = (out, dec)" by fastforce
  have b: "budget (dt_out u) = None" and wr: "written (dt_out u) = pre @ delivered"
    and sy: "sync e (dt_dec u) w p" and c: "dt_decompressed u = word_of_nat (length delivered)"
    using u by (simp_all add: decoding_def)
  obtain p' where p: "p = out @ p'" and sy': "sync e dec w p'" using zstdD(7) [OF Z sy] tk by auto
  show ?thesis
  proof (cases "out = []")
    case True
    then have "emit_decoded Z u = (True, u\<lparr>dt_dec := dec\<rparr>)" by (simp add: emit_decoded_def tk)
    moreover have "decoding sync e pre (u\<lparr>dt_dec := dec\<rparr>) w p' delivered"
      using b wr sy' c by (simp add: decoding_def)
    ultimately show ?thesis
      using True tk p by (intro exI [of _ "u\<lparr>dt_dec := dec\<rparr>"] exI [of _ p']) simp
  next
    case False
    let ?u = "u\<lparr>dt_dec := dec, dt_out := (dt_out u)\<lparr>written := written (dt_out u) @ out\<rparr>,
                dt_decompressed := dt_decompressed u + word_of_nat (length out)\<rparr>"
    have "emit_decoded Z u = (True, ?u)" using False b by (simp add: emit_decoded_def tk)
    moreover have "decoding sync e pre ?u w p' (delivered @ out)"
      using b wr sy' c by (simp add: decoding_def)
    ultimately show ?thesis using tk p by (intro exI [of _ ?u] exI [of _ p']) simp
  qed
qed

lemma flush_decoder_ok:
  assumes Z: "zstd_laws Z sync drained" and u: "decoding sync e pre u w p delivered"
  shows "\<exists>u' p' out. flush_decoder Z u = (True, u') \<and> p = out @ p' \<and>
    decoding sync e pre u' w p' (delivered @ out) \<and> (w = [] \<longrightarrow> drained e \<longrightarrow> p' = []) \<and>
    dt_compressed u' = dt_compressed u"
proof -
  obtain ok dec where fl: "dec_flush Z (dt_dec u) = (ok, dec)" by fastforce
  have sy0: "sync e (dt_dec u) w p" using u by (simp add: decoding_def)
  from zstdD(6) [OF Z this] fl have ok: "ok" and sy: "sync e dec w p" by simp_all
  have "decoding sync e pre (u\<lparr>dt_dec := dec\<rparr>) w p delivered" using u sy by (simp add: decoding_def)
  from emit_decoded_ok [OF Z this] obtain u' p' where
    e: "emit_decoded Z (u\<lparr>dt_dec := dec\<rparr>) = (True, u')" and p: "p = fst (dec_take Z dec) @ p'"
    and d: "decoding sync e pre u' w p' (delivered @ fst (dec_take Z dec))"
      "dt_compressed u' = dt_compressed u" by auto
  have "p' = []" if "w = []" "drained e"
    using zstdD(8) [OF Z, of e "dt_dec u" p] sy0 that fl p by simp
  then show ?thesis using e p d fl ok
    by (intro exI [of _ u'] exI [of _ p'] exI [of _ "fst (dec_take Z dec)"])
      (simp add: flush_decoder_def)
qed

lemma decode_chunk_ok:
  assumes Z: "zstd_laws Z sync drained" and u: "decoding sync e pre u (bs @ w) p delivered"
  shows "\<exists>u' p' out. decode_chunk Z bs u = (True, u') \<and> p = out @ p' \<and>
    decoding sync e pre u' w p' (delivered @ out) \<and>
    dt_compressed u' = dt_compressed u + word_of_nat (length bs)"
proof -
  obtain ok dec where wa: "dec_write_all Z bs (dt_dec u) = (ok, dec)" by fastforce
  have "sync e (dt_dec u) (bs @ w) p" using u by (simp add: decoding_def)
  from zstdD(5) [OF Z this] wa have ok: "ok" and sy: "sync e dec w p" by simp_all
  let ?u = "u\<lparr>dt_compressed := dt_compressed u + word_of_nat (length bs), dt_dec := dec\<rparr>"
  have "decoding sync e pre ?u w p delivered" using u sy by (simp add: decoding_def)
  from flush_decoder_ok [OF Z this] obtain u' p' out where
    "flush_decoder Z ?u = (True, u')" "p = out @ p'"
    "decoding sync e pre u' w p' (delivered @ out)" "dt_compressed u' = dt_compressed ?u"
    by blast
  then show ?thesis using wa ok
    by (intro exI [of _ u'] exI [of _ p'] exI [of _ out]) (simp add: decode_chunk_def Let_def)
qed

lemma run_decoder_ok:
  assumes Z: "zstd_laws Z sync drained"
  shows "[] \<notin> set chunks \<Longrightarrow> decoding sync e pre u (concat chunks) p delivered \<Longrightarrow>
    \<exists>u' p' out. run_decoder Z (map Data chunks @ Eof # rest) u = (Some (Inr CleanEof), u') \<and>
      p = out @ p' \<and> decoding sync e pre u' [] p' (delivered @ out) \<and> finished (dt_out u') \<and>
      (drained e \<longrightarrow> p' = []) \<and>
      dt_compressed u' = dt_compressed u + word_of_nat (length (concat chunks))"
proof (induction chunks arbitrary: u p delivered)
  case Nil
  then have "decoding sync e pre u [] p delivered" by simp
  from flush_decoder_ok [OF Z this] obtain u' p' out where
    f: "flush_decoder Z u = (True, u')" "p = out @ p'" "decoding sync e pre u' [] p' (delivered @ out)"
    "drained e \<longrightarrow> p' = []" "dt_compressed u' = dt_compressed u" by blast
  let ?u = "u'\<lparr>dt_out := (dt_out u')\<lparr>finished := True\<rparr>\<rparr>"
  have "run_decoder Z (map Data [] @ Eof # rest) u = (Some (Inr CleanEof), ?u)"
    using f(1,3) by (simp add: finish_decoder_def decoding_def)
  moreover have "decoding sync e pre ?u [] p' (delivered @ out)" using f(3) by (simp add: decoding_def)
  ultimately show ?case using f(2,4,5)
    by (intro exI [of _ ?u] exI [of _ p'] exI [of _ out]) simp
next
  case (Cons c cs)
  then have c: "c \<noteq> []" "[] \<notin> set cs" and d: "decoding sync e pre u (c @ concat cs) p delivered"
    by auto
  from decode_chunk_ok [OF Z d] obtain u1 p1 out1 where
    u1: "decode_chunk Z c u = (True, u1)" "p = out1 @ p1"
    "decoding sync e pre u1 (concat cs) p1 (delivered @ out1)"
    "dt_compressed u1 = dt_compressed u + word_of_nat (length c)" by blast
  from Cons.IH [OF c(2) u1(3)] obtain u' p' out where
    u': "run_decoder Z (map Data cs @ Eof # rest) u1 = (Some (Inr CleanEof), u')"
    "p1 = out @ p'" "decoding sync e pre u' [] p' ((delivered @ out1) @ out)" "finished (dt_out u')"
    "drained e \<longrightarrow> p' = []"
    "dt_compressed u' = dt_compressed u1 + word_of_nat (length (concat cs))" by blast
  then show ?case using u1 c(1)
    by (intro exI [of _ u'] exI [of _ p'] exI [of _ "out1 @ out"]) (simp add: add.assoc)
qed

section \<open>HTTP mode\<close>

lemma run_encoder_http_end:
  assumes Z: "zstd_laws Z sync drained" and t: "encoding sync d pre t w p"
    and r: "read_message hp evs hr = (Some (Inr (Message [])), evs', hr')"
  shows "\<exists>t' w'. run_encoder_http Z hp evs hr t = (Some (Inr CleanEof), hr', t') \<and>
    encoding sync d pre t' w' p \<and> drained (et_enc t') \<and> et_raw t' = et_raw t"
proof -
  from finish_encoder_ok [OF Z t] obtain t' w' where
    t': "finish_encoder Z t = (Some (Inr CleanEof), t')" "encoding sync d pre t' w' p"
    "drained (et_enc t')" "et_raw t' = et_raw t" by blast
  have "run_encoder_http Z hp evs hr t = (Some (Inr CleanEof), hr', t')"
    by (subst run_encoder_http.simps) (simp add: r t'(1))
  with t' show ?thesis by blast
qed

section \<open>Properties\<close>

abbreviation new_enc_task :: "'e \<Rightarrow> 'e enc_task" where
  "new_enc_task e \<equiv> \<lparr>et_enc = e, et_out = open_sink, et_raw = 0, et_compressed = 0\<rparr>"

abbreviation new_dec_task :: "'d \<Rightarrow> 'd dec_task" where
  "new_dec_task d \<equiv> \<lparr>dt_dec = d, dt_out = open_sink, dt_compressed = 0, dt_decompressed = 0\<rparr>"

lemma new_encoding: "sync e d [] p \<Longrightarrow> encoding sync d [] (new_enc_task e) [] p"
  by (simp add: encoding_def open_sink_def)

lemma delivered:
  assumes Z: "zstd_laws Z sync drained" and t: "encoding sync d [] t w p"
    and c: "concat chunks = written (et_out t)" "[] \<notin> set chunks"
  shows "\<exists>u p' out. run_decoder Z (map Data chunks @ [Eof]) (new_dec_task d) =
      (Some (Inr CleanEof), u) \<and> p = out @ p' \<and> written (dt_out u) = out \<and>
    finished (dt_out u) \<and> sync (et_enc t) (dt_dec u) [] p' \<and> (drained (et_enc t) \<longrightarrow> p' = []) \<and>
    dt_compressed u = et_compressed t \<and> dt_decompressed u = word_of_nat (length out)"
proof -
  have "decoding sync (et_enc t) [] (new_dec_task d) (concat chunks) p []"
    using t c by (simp add: encoding_def decoding_def open_sink_def)
  from run_decoder_ok [OF Z c(2) this, of "[]"] obtain u p' out where
    u: "run_decoder Z (map Data chunks @ [Eof]) (new_dec_task d) = (Some (Inr CleanEof), u)"
    "p = out @ p'" "decoding sync (et_enc t) [] u [] p' ([] @ out)" "finished (dt_out u)"
    "drained (et_enc t) \<longrightarrow> p' = []"
    "dt_compressed u = dt_compressed (new_dec_task d) + word_of_nat (length (concat chunks))"
    by blast
  then show ?thesis using t c
    by (intro exI [of _ u] exI [of _ p'] exI [of _ out]) (simp add: encoding_def decoding_def)
qed

text \<open>The same for an encoder whose stream already carries the bytes \<open>pre\<close> of a handshake.\<close>

lemma encoder_to_decoder:
  assumes Z: "zstd_laws Z sync drained" and s: "sync e d [] []" and evs: "list_all goes_on evs"
  shows "\<exists>t w. run_encoder_basic Z (evs @ [ReadEv Eof])
        \<lparr>et_enc = e, et_out = open_sink\<lparr>written := pre\<rparr>, et_raw = 0, et_compressed = 0\<rparr> =
      (Some (Inr CleanEof), t) \<and> written (et_out t) = pre @ w \<and>
    (\<forall>chunks. concat chunks = w \<longrightarrow> [] \<notin> set chunks \<longrightarrow>
       (\<exists>u. run_decoder Z (map Data chunks @ [Eof]) (new_dec_task d) = (Some (Inr CleanEof), u) \<and>
          written (dt_out u) = enc_input evs \<and> finished (dt_out u)))"
proof -
  let ?t = "\<lparr>et_enc = e, et_out = open_sink\<lparr>written := pre\<rparr>, et_raw = 0, et_compressed = 0\<rparr>"
  have "encoding sync d pre ?t [] []" using s by (simp add: encoding_def open_sink_def)
  from run_encoder_basic_goes_on [OF Z evs this, of "[ReadEv Eof]"] obtain t1 w1 where
    t1: "run_encoder_basic Z (evs @ [ReadEv Eof]) ?t = finish_encoder Z t1"
      "encoding sync d pre t1 w1 (enc_input evs)" by auto
  from finish_encoder_ok [OF Z t1(2)] obtain t w where
    t: "finish_encoder Z t1 = (Some (Inr CleanEof), t)" "encoding sync d pre t w (enc_input evs)"
      "drained (et_enc t)" by blast
  let ?v = "t\<lparr>et_out := (et_out t)\<lparr>written := w\<rparr>\<rparr>"
  have v: "encoding sync d [] ?v w (enc_input evs)" using t(2) by (simp add: encoding_def)
  have "\<exists>u. run_decoder Z (map Data chunks @ [Eof]) (new_dec_task d) = (Some (Inr CleanEof), u) \<and>
      written (dt_out u) = enc_input evs \<and> finished (dt_out u)"
    if "concat chunks = w" "[] \<notin> set chunks" for chunks
    using delivered [OF Z v, of chunks] that t(3) by auto
  moreover have "written (et_out t) = pre @ w" using t(2) by (simp add: encoding_def)
  ultimately show ?thesis using t1(1) t(1) by auto
qed

text \<open>
  C6. A compressed stream is transparent: whatever the interleaving of reads and flush timers
  at the sender, and however the network cuts the compressed bytes into reads at the
  receiver, the encoder ends cleanly at the end of its input, the decoder writes exactly
  that input and shuts the local stream down, both statistics agree with the byte counts, and
  the pair is left in step, with nothing pending, for the next stream.
\<close>

theorem codec_transparent:
  assumes "zstd_laws Z sync drained" and "sync e d [] []" and "list_all goes_on evs"
    and "run_encoder_basic Z (evs @ [ReadEv Eof]) (new_enc_task e) = (r, t)"
    and "concat chunks = written (et_out t)" and "[] \<notin> set chunks"
  shows "r = Some (Inr CleanEof) \<and>
    (\<exists>u. run_decoder Z (map Data chunks @ [Eof]) (new_dec_task d) = (Some (Inr CleanEof), u) \<and>
      written (dt_out u) = enc_input evs \<and> finished (dt_out u) \<and>
      sync (et_enc t) (dt_dec u) [] [] \<and>
      et_raw t = word_of_nat (length (enc_input evs)) \<and> dt_decompressed u = et_raw t \<and>
      dt_compressed u = et_compressed t)"
proof -
  from run_encoder_basic_goes_on [OF assms(1,3) new_encoding [where sync = sync, OF assms(2)], of "[ReadEv Eof]"]
  obtain t1 w1 where t1: "run_encoder_basic Z (evs @ [ReadEv Eof]) (new_enc_task e) =
      finish_encoder Z t1" "encoding sync d [] t1 w1 (enc_input evs)"
    "et_raw t1 = word_of_nat (length (enc_input evs))" by auto
  from finish_encoder_ok [OF assms(1) t1(2)] obtain w' where
    fin: "r = Some (Inr CleanEof)" "encoding sync d [] t w' (enc_input evs)" "drained (et_enc t)"
    "et_raw t = et_raw t1" using t1(1) assms(4) by auto
  from delivered [OF assms(1) fin(2) assms(5,6)] fin(1,3,4) t1(3) show ?thesis by auto
qed

theorem codec_transparent_witness:
  "\<exists>u. run_decoder storing_zstd (map Data [[7], [8, 9]] @ [Eof]) (new_dec_task ([], [])) =
      (Some (Inr CleanEof), u) \<and> written (dt_out u) = [7, 8, 9] \<and> finished (dt_out u)"
proof -
  let ?evs = "[ReadEv (Data [7]), FlushTick, ReadEv (Data [8, 9])]"
  obtain r t where run: "run_encoder_basic storing_zstd (?evs @ [ReadEv Eof]) (new_enc_task ([], [])) = (r, t)"
    by fastforce
  have "written (et_out t) = [7, 8, 9]"
    using run by (auto simp: finish_encoder_def flush_encoder_def emit_encoded_def write_compressed_def
        count_raw_def storing_zstd_def open_sink_def)
  then have "concat [[7], [8, 9]] = written (et_out t)" by simp
  from codec_transparent [OF storing_zstd_laws _ _ run this] show ?thesis
    by (auto simp: stored_sync_def)
qed

text \<open>
  A write that the compressor keeps to itself until more is written or it is flushed, as it
  does with less than a block: what was written stays inside the encoder, and the stream
  gets nothing.
\<close>

definition held_back :: "('e, 'd, 'ed, 'dd) zstd_lib \<Rightarrow> ('e \<Rightarrow> bool) \<Rightarrow> bytes \<Rightarrow> bool" where
  "held_back Z drained bs \<longleftrightarrow>
     (\<forall>e. drained e \<longrightarrow> fst (enc_take Z (snd (enc_write_all Z bs e))) = [])"

lemma write_held_back:
  assumes Z: "zstd_laws Z sync drained" and t: "encoding sync d pre t w p" "drained (et_enc t)"
    and "held_back Z drained bs"
  shows "\<exists>t'. write_compressed Z bs t = (True, t') \<and> encoding sync d pre t' w (p @ bs)"
proof -
  obtain ok enc where wa: "enc_write_all Z bs (et_enc t) = (ok, enc)" by fastforce
  obtain out enc' where tk: "enc_take Z enc = (out, enc')" by fastforce
  have sy: "sync (et_enc t) d w p" using t(1) by (simp add: encoding_def)
  from zstdD(1) [OF Z sy, of bs] wa have ok: ok and sy1: "sync enc d w (p @ bs)" by simp_all
  have out: "out = []" using assms(4) t(2) wa tk by (force simp: held_back_def)
  from zstdD(3) [OF Z sy1] tk out have "sync enc' d w (p @ bs)" by simp
  then have "encoding sync d pre (t\<lparr>et_enc := enc'\<rparr>) w (p @ bs)" using t(1) by (simp add: encoding_def)
  moreover have "write_compressed Z bs t = (True, t\<lparr>et_enc := enc'\<rparr>)"
    using wa ok tk out by (simp add: write_compressed_def emit_encoded_def)
  ultimately show ?thesis by blast
qed

text \<open>A stream that fails after a flush and a write that was held back.\<close>

lemma failed_after_flush:
  assumes Z: "zstd_laws Z sync drained" and "sync e d [] []" and "list_all goes_on evs"
    and "held_back Z drained bs" and "bs \<noteq> []"
    and "run_encoder_basic Z (evs @ [FlushTick, ReadEv (Data bs), ReadEv ReadErr]) (new_enc_task e) = (r, t)"
  shows "r = Some (Inr IoError) \<and> (\<exists>t0 w. encoding sync d [] t0 w (enc_input evs) \<and> drained (et_enc t0) \<and>
    encoding sync d [] t w (enc_input evs @ bs))"
proof -
  let ?rest = "[FlushTick, ReadEv (Data bs), ReadEv ReadErr]"
  from run_encoder_basic_goes_on [OF Z assms(3) new_encoding [where sync = sync, OF assms(2)], of ?rest]
  obtain t1 w1 where t1: "run_encoder_basic Z (evs @ ?rest) (new_enc_task e) = run_encoder_basic Z ?rest t1"
    "encoding sync d [] t1 w1 (enc_input evs)" by auto
  from flush_encoder_ok [OF Z t1(2)] obtain t0 w where
    t0: "flush_encoder Z t1 = (True, t0)" "encoding sync d [] t0 w (enc_input evs)" "drained (et_enc t0)" by blast
  have c: "encoding sync d [] (count_raw bs t0) w (enc_input evs)" "drained (et_enc (count_raw bs t0))"
    using t0(2,3) by (simp_all add: count_raw_def encoding_def)
  from write_held_back [OF Z c assms(4)] obtain t2 where
    "write_compressed Z bs (count_raw bs t0) = (True, t2)" "encoding sync d [] t2 w (enc_input evs @ bs)" by blast
  then show ?thesis using assms(5,6) t1(1) t0 by auto
qed

text \<open>
  C36. A read error ends the encoder without a flush and still returns the pair for reuse, as
  does the decoder at the other end, which sees a clean end. The bytes that were read after
  the last flush and that the compressor held back are missing from that stream, which
  delivers exactly what came before, and they are the first bytes delivered on the next
  stream that uses the pair, before that stream's own.
\<close>

theorem read_error_leaks_into_next_stream:
  assumes "zstd_laws Z sync drained" and "sync e d [] []"
    and "list_all goes_on evs1" and "list_all goes_on evs2"
    and "held_back Z drained bs" and "bs \<noteq> []"
    and "run_encoder_basic Z (evs1 @ [FlushTick, ReadEv (Data bs), ReadEv ReadErr]) (new_enc_task e) = (r1, t1)"
    and "concat c1 = written (et_out t1)" and "[] \<notin> set c1"
    and "run_decoder Z (map Data c1 @ [Eof]) (new_dec_task d) = (s1, u1)"
    and "run_encoder_basic Z (evs2 @ [ReadEv Eof]) (new_enc_task (et_enc t1)) = (r2, t2)"
    and "concat c2 = written (et_out t2)" and "[] \<notin> set c2"
    and "run_decoder Z (map Data c2 @ [Eof]) (new_dec_task (dt_dec u1)) = (s2, u2)"
  shows "r1 = Some (Inr IoError) \<and> s1 = Some (Inr CleanEof) \<and>
    end_task M k p r1 lru = checkin M k p lru \<and> end_task M k p s1 lru = checkin M k p lru \<and>
    written (dt_out u1) = enc_input evs1 \<and>
    s2 = Some (Inr CleanEof) \<and> written (dt_out u2) = bs @ enc_input evs2"
proof -
  from failed_after_flush [OF assms(1-3,5-7)] obtain t0 w where
    r1: "r1 = Some (Inr IoError)" and t0: "encoding sync d [] t0 w (enc_input evs1)" "drained (et_enc t0)"
    and t1: "encoding sync d [] t1 w (enc_input evs1 @ bs)" by blast
  have "concat c1 = written (et_out t0)" using assms(8) t0(1) t1 by (simp add: encoding_def)
  from delivered [OF assms(1) t0(1) this assms(9)] t0(2) have
    u1: "s1 = Some (Inr CleanEof)" "written (dt_out u1) = enc_input evs1" using assms(10) by auto
  from delivered [OF assms(1) t1 assms(8,9)] u1 have
    left: "sync (et_enc t1) (dt_dec u1) [] bs" using assms(10) by auto
  from run_encoder_basic_goes_on [OF assms(1,4) new_encoding [where sync = sync, OF left], of "[ReadEv Eof]"]
  obtain t w' where t: "run_encoder_basic Z (evs2 @ [ReadEv Eof]) (new_enc_task (et_enc t1)) =
      finish_encoder Z t" "encoding sync (dt_dec u1) [] t w' (bs @ enc_input evs2)" by auto
  from finish_encoder_ok [OF assms(1) t(2)] obtain w2 where
    t2: "encoding sync (dt_dec u1) [] t2 w2 (bs @ enc_input evs2)" "drained (et_enc t2)"
    using t(1) assms(11) by auto
  from delivered [OF assms(1) t2(1) assms(12,13)] t2(2) have
    u2: "s2 = Some (Inr CleanEof)" "written (dt_out u2) = bs @ enc_input evs2" using assms(14) by auto
  show ?thesis using r1 u1 u2 by (simp add: end_task_def)
qed

lemma storing_held_back: "held_back storing_zstd stored_drained bs"
  by (simp add: held_back_def stored_drained_def storing_zstd_def)

theorem read_error_leaks_into_next_stream_witness:
  "\<exists>t1 u1 t2 u2.
     run_encoder_basic storing_zstd
       [ReadEv (Data [9]), FlushTick, ReadEv (Data [1, 2]), ReadEv ReadErr] (new_enc_task ([], [])) =
       (Some (Inr IoError), t1) \<and>
     run_decoder storing_zstd [Data (written (et_out t1)), Eof] (new_dec_task ([], [])) =
       (Some (Inr CleanEof), u1) \<and> written (dt_out u1) = [9] \<and>
     run_encoder_basic storing_zstd [ReadEv (Data [3]), ReadEv Eof] (new_enc_task (et_enc t1)) =
       (Some (Inr CleanEof), t2) \<and>
     run_decoder storing_zstd [Data (written (et_out t2)), Eof] (new_dec_task (dt_dec u1)) =
       (Some (Inr CleanEof), u2) \<and> written (dt_out u2) = [1, 2, 3]"
proof -
  let ?e1 = "[ReadEv (Data [9])]" and ?bs = "[1, 2] :: bytes" and ?e2 = "[ReadEv (Data [3])]"
  note defs = finish_encoder_def flush_encoder_def emit_encoded_def write_compressed_def
        count_raw_def storing_zstd_def open_sink_def
  obtain r1 t1 where r1: "run_encoder_basic storing_zstd (?e1 @ [FlushTick, ReadEv (Data ?bs), ReadEv ReadErr])
      (new_enc_task ([], [])) = (r1, t1)" by fastforce
  have w1: "written (et_out t1) = [9]" "et_enc t1 = (?bs, [])" using r1 by (auto simp: defs)
  obtain s1 u1 where u1: "run_decoder storing_zstd (map Data [[9]] @ [Eof]) (new_dec_task ([], [])) = (s1, u1)"
    by fastforce
  obtain r2 t2 where r2: "run_encoder_basic storing_zstd (?e2 @ [ReadEv Eof]) (new_enc_task (et_enc t1)) =
      (r2, t2)" by fastforce
  have w2: "written (et_out t2) = [1, 2, 3]" "r2 = Some (Inr CleanEof)" using r2 w1(2) by (auto simp: defs)
  obtain s2 u2 where u2: "run_decoder storing_zstd (map Data [[1, 2, 3]] @ [Eof]) (new_dec_task (dt_dec u1)) =
      (s2, u2)" by fastforce
  have "r1 = Some (Inr IoError) \<and> s1 = Some (Inr CleanEof) \<and> written (dt_out u1) = enc_input ?e1 \<and>
      s2 = Some (Inr CleanEof) \<and> written (dt_out u2) = ?bs @ enc_input ?e2"
    using read_error_leaks_into_next_stream [where M = list_moka and k = 1 and p = 0 and
        lru = rest_lru, OF storing_zstd_laws _ _ _ storing_held_back _ r1 _ _ u1 r2 _ _ u2] w1(1) w2(1)
    by (simp add: stored_sync_def)
  then show ?thesis using r1 u1 r2 u2 w1(1) w2
    by (intro exI [of _ t1] exI [of _ u1] exI [of _ t2] exI [of _ u2]) simp
qed

text \<open>
  Both timers of the basic mode start anew in every round, so when the flush interval is
  shorter than the stream timeout the encoder never times out, however long its stream is
  idle.
\<close>

lemma basic_mode_never_times_out:
  assumes "flush_interval < stream_timeout"
    and "list_all2 (select_round stream_timeout flush_interval) nexts evs"
  shows "fst (run_encoder_basic Z evs t) \<noteq> Some (Inr Timeout)"
  using assms(2)
proof (induction nexts evs arbitrary: t rule: list_all2_induct)
  case Nil
  then show ?case by simp
next
  case (Cons nx nexts ev evs)
  have "ev \<noteq> ReadEv Elapsed" using Cons.hyps(1) assms(1) by (auto elim!: select_roundE)
  then show ?case using Cons.IH
    by (cases ev rule: goes_on.cases)
      (auto simp: finish_encoder_def split: prod.splits bool.splits)
qed

lemma basic_mode_never_times_out_witness:
  "fst (run_encoder_basic storing_zstd [FlushTick, FlushTick, ReadEv (Data [1])] (new_enc_task ([], []))) \<noteq>
     Some (Inr Timeout)"
  by (rule basic_mode_never_times_out [where flush_interval = 150 and stream_timeout = 30000
        and nexts = "[None, None, Some (20, Data [1])]"])
    (auto intro: select_read select_flush)

text \<open>
  The end of the body is computed with wrap-around: a header that announces a body of
  \<open>2 ^ 64 - length hdr\<close> bytes makes an empty message of the input, which the encoder takes
  for the end of the stream. It ends cleanly, sends nothing of the request, and leaves it
  behind in the buffer.
\<close>

lemma wrapped_length_ends_stream:
  assumes "zstd_laws Z sync drained" and "encoding sync d pre t w p"
    and "find_header_end hdr = Some (length hdr)" and "classify_header hp hdr = Inr (Some req)"
    and "content_length (parsed_headers (if req then parse_request hp hdr
          else parse_response hp hdr)) = Some (- word_of_nat (length hdr))"
  shows "\<exists>hr' t' w'. run_encoder_http Z hp (Data hdr # evs) http_reader_new t =
      (Some (Inr CleanEof), hr', t') \<and>
    hr_buf hr' = hdr \<and> encoding sync d pre t' w' p \<and> et_raw t' = et_raw t"
proof -
  have ne: "hdr \<noteq> []" using assms(3) by (auto simp: find_header_end_def windows_def)
  let ?hr = "http_reader_new\<lparr>hr_buf := hdr\<rparr>"
  have p: "try_parse hp ?hr = (Inr (Some []), ?hr\<lparr>initialized := True\<rparr>)"
    using ne assms(3-5) by (auto simp: try_parse_def body_end_of_def Let_def http_reader_new_def)
  have "read_message hp (Data hdr # evs) http_reader_new = read_message hp evs ?hr"
    using ne by (simp add: http_reader_new_def try_parse_def)
  also have "\<dots> = (Some (Inr (Message [])), evs, ?hr\<lparr>initialized := True\<rparr>)"
    using p by (cases evs) (simp_all add: http_reader_new_def)
  finally show ?thesis
    using run_encoder_http_end [OF assms(1,2)] by fastforce
qed

definition wrap_header :: bytes where
  "wrap_header =
     as_bytes ''PUT / HTTP/1.1'' @ [13, 10] @ as_bytes ''Content-Length: 18446744073709551560'' @
     [13, 10, 13, 10]"

definition wrap_parser :: http_parser where
  "wrap_parser =
     \<lparr>parse_request = (\<lambda>bs. if bs = wrap_header
        then Complete (Some 1) [(''Content-Length'', as_bytes ''18446744073709551560'')] else ParseError),
      parse_response = (\<lambda>_. ParseError)\<rparr>"

lemma wrap_header_bytes:
  "wrap_header = [80, 85, 84, 32, 47, 32, 72, 84, 84, 80, 47, 49, 46, 49, 13, 10,
     67, 111, 110, 116, 101, 110, 116, 45, 76, 101, 110, 103, 116, 104, 58, 32,
     49, 56, 52, 52, 54, 55, 52, 52, 48, 55, 51, 55, 48, 57, 53, 53, 49, 53, 54, 48, 13, 10, 13, 10]"
  by (simp add: wrap_header_def as_bytes_def)

lemma wrap_header_end: "find_header_end wrap_header = Some (length wrap_header)"
  by (simp add: wrap_header_bytes find_header_end_def windows_def crlf2_def upt_rec)

lemma wrap_content_length:
  "content_length [(''Content-Length'', as_bytes ''18446744073709551560'')] = Some (- 56)"
proof -
  have name: "eq_ignore_ascii_case ''Content-Length'' ''content-length''"
    by (simp add: eq_ignore_ascii_case_def ascii_lower_def char_of_def bit_Suc_0_iff)
  have "from_utf8 (as_bytes ''18446744073709551560'') = Some ''18446744073709551560''"
    by (simp add: from_utf8_def as_bytes_def of_bytes_def char_of_def bit_Suc_0_iff)
  moreover have "trim ''18446744073709551560'' = ''18446744073709551560''"
    by (simp add: trim_def strip_all_stop strip_one_def white_space_def)
  moreover have "parse_usize ''18446744073709551560'' = Some (- 56)"
    by (simp add: parse_usize_def parse_uint_def to_digit_def digits_value_def)
  ultimately show ?thesis by (simp add: content_length_def name)
qed

lemma wrapped_length_ends_stream_witness:
  "\<exists>hr' t' w'. run_encoder_http storing_zstd wrap_parser (Data wrap_header # [Eof]) http_reader_new
      (new_enc_task ([], [])) = (Some (Inr CleanEof), hr', t') \<and>
    hr_buf hr' = wrap_header \<and> encoding stored_sync ([], []) [] t' w' [] \<and> et_raw t' = 0"
proof -
  have e: "encoding stored_sync ([], []) [] (new_enc_task ([], [])) [] []"
    by (rule new_encoding) (simp add: stored_sync_def)
  have c: "classify_header wrap_parser wrap_header = Inr (Some True)"
    by (simp add: classify_header_def wrap_parser_def version_ok_def)
  have l: "content_length (parsed_headers (if True then parse_request wrap_parser wrap_header
      else parse_response wrap_parser wrap_header)) = Some (- word_of_nat (length wrap_header))"
  proof -
    have "length wrap_header = 56" by (simp add: wrap_header_bytes)
    then show ?thesis by (simp add: wrap_parser_def wrap_content_length)
  qed
  from wrapped_length_ends_stream [OF storing_zstd_laws e wrap_header_end c l, of "[Eof]"]
  show ?thesis by simp
qed

end
