(* ===== verification/Server.thy ===== *)
theory Server
  imports Tunnel_Message Servers Config Codec_Stream "HOL-Library.Multiset"
begin

text \<open>
  \<^verbatim>\<open>src/src/server.rs\<close>: the login of a connection (password, effective timeouts,
  the upstream an outbound tunnel gets, the listener an inbound one binds), what the server
  then runs for each kind of tunnel, the table of connections and inbound sessions with
  its periodic clean-up, and the traffic summary. The steps of a connection's task that take
  the lock of the table one after the other are functions of their own. A QUIC connection is known by a number; whether
  it is closed, its byte counters, the result of binding a socket and IPv6 support are
  arguments.
\<close>

type_synonym conn = nat

datatype auth_error =
    NoLoginStream
  | LoginRecv recv_error
  | UnexpectedMessage
  | PasswordMismatch
  | InboundNeedsPort
  | NoDefaultUpstream upstream_type
  | InboundNotLocal socket_addr
  | BindRejected socket_addr
  | LoginSend send_error

record timeout_config =
  to_tcp_ms :: u64
  to_udp_ms :: u64

datatype 's tunnel_type =
    TcpOut conn socket_addr
  | TcpIn conn "'s tcp_server"
  | UdpOut conn socket_addr
  | UdpIn conn udp_server
  | DynamicUpstreamTcpOut conn
  | DynamicUpstreamUdpOut conn

text \<open>What the operating system answers to a bind: the local address or a failure.\<close>

record sockets =
  bind_tcp :: "socket_addr \<Rightarrow> socket_addr option"
  bind_udp :: "socket_addr \<Rightarrow> socket_addr option"

definition check_password :: "string \<Rightarrow> string \<Rightarrow> auth_error + unit" where
  "check_password password1 password2 =
     (if password1 \<noteq> password2 then Inl PasswordMismatch else Inr ())"

definition obtain_upstream_addr ::
    "tunnel_config \<Rightarrow> socket_addr option \<Rightarrow> auth_error + socket_addr" where
  "obtain_upstream_addr tc default_upstream =
     (case upstream_addr (tc_upstream tc) of
        None \<Rightarrow>
          if tc_mode tc = TIn then Inl InboundNeedsPort
          else (case default_upstream of
                  None \<Rightarrow> Inl (NoDefaultUpstream (upstream_kind (tc_upstream tc)))
                | Some a \<Rightarrow> Inr a)
      | Some addr \<Rightarrow>
          if tc_mode tc = TIn \<and> \<not> is_unspecified (sa_ip addr) \<and> \<not> is_loopback (sa_ip addr)
          then Inl (InboundNotLocal addr) else Inr addr)"

text \<open>
  \<^verbatim>\<open>derive_tunnel_type\<close>. A failed bind is reported to the client with
  \<open>send_failure\<close>, whose own failure is returned instead.
\<close>

definition reject_bind ::
    "bincode \<Rightarrow> sink \<Rightarrow> string \<Rightarrow> socket_addr \<Rightarrow> (auth_error + 't) \<times> sink" where
  "reject_bind b quic_send msg addr =
     (case send_failure b quic_send msg of
        (Inl e, k) \<Rightarrow> (Inl (LoginSend e), k)
      | (Inr _, k) \<Rightarrow> (Inl (BindRejected addr), k))"

definition derive_tunnel_type ::
    "bincode \<Rightarrow> sockets \<Rightarrow> server_config \<Rightarrow> conn \<Rightarrow> tunnel_config \<Rightarrow>
     sink \<Rightarrow> (auth_error + 's tunnel_type) \<times> sink" where
  "derive_tunnel_type b os config c tc quic_send =
     (case obtain_upstream_addr tc
             (case upstream_kind (tc_upstream tc) of
                Tcp \<Rightarrow> default_tcp_upstream config | Udp \<Rightarrow> default_udp_upstream config) of
        Inl e \<Rightarrow> (Inl e, quic_send)
      | Inr addr \<Rightarrow>
          (case (tc_mode tc, upstream_kind (tc_upstream tc)) of
             (TOut, Tcp) \<Rightarrow> (Inr (TcpOut c addr), quic_send)
           | (TOut, Udp) \<Rightarrow> (Inr (UdpOut c addr), quic_send)
           | (TIn, Tcp) \<Rightarrow>
               (case tcp_bind_and_start (bind_tcp os addr) of
                  Some srv \<Rightarrow> (Inr (TcpIn c srv), quic_send)
                | None \<Rightarrow> reject_bind b quic_send (''tcp server failed to bind at: '' @ display_socket_addr addr) addr)
           | (TIn, Udp) \<Rightarrow>
               (case udp_bind_and_start (bind_udp os addr) of
                  Some srv \<Rightarrow> (Inr (UdpIn c srv), quic_send)
                | None \<Rightarrow> reject_bind b quic_send (''udp server failed to bind at: '' @ display_socket_addr addr) addr)))"

definition effective_timeout :: "u64 \<Rightarrow> u64 \<Rightarrow> u64" where
  "effective_timeout client server = (if 0 < client then max client server else server)"

text \<open>
  \<^verbatim>\<open>authenticate_connection\<close>, given the login stream the client opened (\<open>None\<close>:
  it did not in time).
\<close>

definition authenticate_connection ::
    "bincode \<Rightarrow> sockets \<Rightarrow> bool \<Rightarrow> server_config \<Rightarrow> conn \<Rightarrow>
     (sink \<times> instream) option \<Rightarrow> (auth_error + 's tunnel_type \<times> timeout_config) \<times> sink option" where
  "authenticate_connection b os ipv6 config c login_stream =
     (case login_stream of
        None \<Rightarrow> (Inl NoLoginStream, None)
      | Some (quic_send, quic_recv) \<Rightarrow>
          (case recv_from b quic_recv of
             Inl e \<Rightarrow> (Inl (LoginRecv e), Some quic_send)
           | Inr (ReqLogin li, _) \<Rightarrow>
               (case check_password (sc_password config) (li_password li) of
                  Inl e \<Rightarrow> (Inl e, Some quic_send)
                | Inr _ \<Rightarrow>
                    (case (case li_tunnel li of
                             NetworkBased tc \<Rightarrow> derive_tunnel_type b os config c tc quic_send
                           | ChannelBased Tcp \<Rightarrow> (Inr (DynamicUpstreamTcpOut c), quic_send)
                           | ChannelBased Udp \<Rightarrow> (Inr (DynamicUpstreamUdpOut c), quic_send)) of
                       (Inl e, k) \<Rightarrow> (Inl e, Some k)
                     | (Inr tt, k) \<Rightarrow>
                         (case send_to b k (RespSuccess \<lparr>ipv6_supported = ipv6\<rparr>) of
                            (Inl e, k') \<Rightarrow> (Inl (LoginSend e), Some k')
                          | (Inr _, k') \<Rightarrow>
                              (Inr (tt,
                                 \<lparr>to_tcp_ms = effective_timeout (li_tcp_timeout_ms li) (sc_tcp_timeout_ms config),
                                  to_udp_ms = effective_timeout (li_udp_timeout_ms li) (sc_udp_timeout_ms config)\<rparr>),
                               Some k'))))
           | Inr (_, _) \<Rightarrow> (Inl UnexpectedMessage, Some quic_send)))"

section \<open>The table of connections and sessions\<close>

text \<open>A session's sender is the channel of its listener, known by the connection's number.\<close>

record server_state =
  connections :: "conn list"
  tcp_sessions :: "conn list"
  udp_sessions :: "conn list"

definition server_state_new :: server_state where
  "server_state_new = \<lparr>connections = [], tcp_sessions = [], udp_sessions = []\<rparr>"

fun tunnel_conn :: "'s tunnel_type \<Rightarrow> conn" where
  "tunnel_conn (TcpOut c _) = c"
| "tunnel_conn (TcpIn c _) = c"
| "tunnel_conn (UdpOut c _) = c"
| "tunnel_conn (UdpIn c _) = c"
| "tunnel_conn (DynamicUpstreamTcpOut c) = c"
| "tunnel_conn (DynamicUpstreamUdpOut c) = c"

text \<open>
  The task of a logged-in connection takes the lock of the table twice: to enter its
  connection, and, for an inbound tunnel, to enter the session with a clone of its
  listener's sender.
\<close>

definition push_connection :: "'s tunnel_type \<Rightarrow> server_state \<Rightarrow> server_state" where
  "push_connection tt st = st\<lparr>connections := connections st @ [tunnel_conn tt]\<rparr>"

fun push_session :: "'s tunnel_type \<Rightarrow> server_state \<Rightarrow> server_state" where
  "push_session (TcpIn c _) st = st\<lparr>tcp_sessions := tcp_sessions st @ [c]\<rparr>"
| "push_session (UdpIn c _) st = st\<lparr>udp_sessions := udp_sessions st @ [c]\<rparr>"
| "push_session _ st = st"

text \<open>
  What the task then runs: the accept loop of an outbound tunnel with its upstream, or the
  serving loop of an inbound one on its listener's receiver, which it takes. The TCP loops
  are given a codec configuration.
\<close>

datatype ('s, 'k) service =
    AcceptTcp conn "socket_addr option" u64 'k
  | AcceptUdp conn "socket_addr option" u64
  | ServeTcp conn "'s tcp_server" receiver u64 'k
  | ServeUdp conn udp_server receiver u64
  | DynamicTcp conn "socket_addr option" u64 'k
  | DynamicUdp conn "socket_addr option" u64
  | NoService

fun start_service ::
    "server_config \<Rightarrow> timeout_config \<Rightarrow> 's tunnel_type \<Rightarrow>
     ('s, ('e, 'd, 'ed, 'dd, 'c) codec_config) service" where
  "start_service config timeouts (TcpOut c addr) =
     AcceptTcp c (Some addr) (to_tcp_ms timeouts) codec_config_default"
| "start_service config timeouts (UdpOut c addr) = AcceptUdp c (Some addr) (to_udp_ms timeouts)"
| "start_service config timeouts (TcpIn c srv) =
     (case tcp_take_receiver srv of
        (Inr r, srv') \<Rightarrow> ServeTcp c srv' r (to_tcp_ms timeouts) codec_config_default
      | (Inl _, _) \<Rightarrow> NoService)"
| "start_service config timeouts (UdpIn c srv) =
     (case udp_take_receiver srv of
        (Inr r, srv') \<Rightarrow> ServeUdp c srv' r (to_udp_ms timeouts)
      | (Inl _, _) \<Rightarrow> NoService)"
| "start_service config timeouts (DynamicUpstreamTcpOut c) =
     DynamicTcp c (default_tcp_upstream config) (to_tcp_ms timeouts) codec_config_default"
| "start_service config timeouts (DynamicUpstreamUdpOut c) =
     DynamicUdp c (default_udp_upstream config) (to_udp_ms timeouts)"

text \<open>
  When the loop of an inbound tunnel is over, its listener is shut down; a failure of that is
  ignored, and a UDP listener whose channel is full is waited for.
\<close>

fun end_service :: "bool \<Rightarrow> ('s, 'k) service \<Rightarrow> ('s, 'k) service" where
  "end_service wakes (ServeTcp c srv r ms codec) = ServeTcp c (snd (tcp_shutdown wakes srv)) r ms codec"
| "end_service wakes (ServeUdp c srv r ms) =
     (case udp_shutdown srv of Some (_, srv') \<Rightarrow> ServeUdp c srv' r ms | None \<Rightarrow> ServeUdp c srv r ms)"
| "end_service wakes svc = svc"

text \<open>
  \<^verbatim>\<open>clear_expired_sessions\<close>: three passes under one lock, over the connections, the UDP
  sessions and the TCP sessions. A connection closes without that lock, so each pass has its
  own view of which are closed. The sessions whose connection closed leave the table and
  their listeners are sent \<open>Quit\<close>; those are returned, UDP and TCP.
\<close>

definition clear_expired_sessions ::
    "conn set \<Rightarrow> conn set \<Rightarrow> conn set \<Rightarrow> server_state \<Rightarrow> (conn list \<times> conn list) \<times> server_state" where
  "clear_expired_sessions closed1 closed2 closed3 st =
     ((filter (\<lambda>c. c \<in> closed2) (udp_sessions st), filter (\<lambda>c. c \<in> closed3) (tcp_sessions st)),
      \<lparr>connections = filter (\<lambda>c. c \<notin> closed1) (connections st),
       tcp_sessions = filter (\<lambda>c. c \<notin> closed3) (tcp_sessions st),
       udp_sessions = filter (\<lambda>c. c \<notin> closed2) (udp_sessions st)\<rparr>)"

text \<open>The ten-second traffic summary over the open connections: received, sent, count.\<close>

fun traffic_summary ::
    "(conn \<Rightarrow> bool) \<Rightarrow> (conn \<Rightarrow> u64 \<times> u64) \<Rightarrow> conn list \<Rightarrow> u64 \<times> u64 \<times> u32 \<Rightarrow> u64 \<times> u64 \<times> u32" where
  "traffic_summary closed stats [] acc = acc"
| "traffic_summary closed stats (c # cs) acc =
     (if closed c then traffic_summary closed stats cs acc
      else (case acc of (rx, tx, active) \<Rightarrow>
        traffic_summary closed stats cs
          (rx + fst (stats c), tx + snd (stats c), active + 1)))"

section \<open>Login\<close>

lemma obtain_upstream_addr_InrD:
  "obtain_upstream_addr tc d = Inr addr \<Longrightarrow>
     (tc_mode tc = TIn \<longrightarrow> is_unspecified (sa_ip addr) \<or> is_loopback (sa_ip addr)) \<and>
     (upstream_addr (tc_upstream tc) = Some addr \<or>
      upstream_addr (tc_upstream tc) = None \<and> tc_mode tc = TOut \<and> d = Some addr)"
  by (cases "tc_mode tc") (auto simp: obtain_upstream_addr_def split: option.splits if_splits)

lemma effective_timeout_ge: "server \<le> effective_timeout client server \<and> client \<le> effective_timeout client server"
proof (cases "0 < client")
  case True
  then show ?thesis by (simp add: effective_timeout_def)
next
  case False
  then have "client = 0" by (simp add: word_gt_0)
  then show ?thesis by (simp add: effective_timeout_def)
qed

text \<open>
  What a login entitles to: an outbound tunnel gets the upstream it names or, naming none,
  the server's default of its protocol; an inbound one gets a listener bound at the address it
  names, which is a loopback or wildcard address; a channel-based one chooses per stream.
\<close>

definition local_only :: "socket_addr \<Rightarrow> bool" where
  "local_only addr \<longleftrightarrow> is_unspecified (sa_ip addr) \<or> is_loopback (sa_ip addr)"

definition asks_for :: "tunnel \<Rightarrow> tunnel_mode \<Rightarrow> upstream_type \<Rightarrow> socket_addr option \<Rightarrow> bool" where
  "asks_for t mode kind addr \<longleftrightarrow> (\<exists>tc. t = NetworkBased tc \<and> tc_mode tc = mode \<and>
     upstream_kind (tc_upstream tc) = kind \<and> upstream_addr (tc_upstream tc) = addr)"

fun entitled :: "sockets \<Rightarrow> server_config \<Rightarrow> tunnel \<Rightarrow> 's tunnel_type \<Rightarrow> bool" where
  "entitled os config t (TcpOut c addr) \<longleftrightarrow>
     asks_for t TOut Tcp (Some addr) \<or> asks_for t TOut Tcp None \<and> default_tcp_upstream config = Some addr"
| "entitled os config t (UdpOut c addr) \<longleftrightarrow>
     asks_for t TOut Udp (Some addr) \<or> asks_for t TOut Udp None \<and> default_udp_upstream config = Some addr"
| "entitled os config t (TcpIn c srv) \<longleftrightarrow>
     (\<exists>addr. asks_for t TIn Tcp (Some addr) \<and> local_only addr \<and> bind_tcp os addr = Some (ts_addr srv))"
| "entitled os config t (UdpIn c srv) \<longleftrightarrow>
     (\<exists>addr. asks_for t TIn Udp (Some addr) \<and> local_only addr \<and> bind_udp os addr = Some (us_addr srv))"
| "entitled os config t (DynamicUpstreamTcpOut c) \<longleftrightarrow> t = ChannelBased Tcp"
| "entitled os config t (DynamicUpstreamUdpOut c) \<longleftrightarrow> t = ChannelBased Udp"

lemma reject_bind_Inl: "\<exists>e. fst (reject_bind b k msg addr) = Inl e \<and> (e = BindRejected addr \<or> (\<exists>e'. e = LoginSend e'))"
  by (cases "send_failure b k msg") (auto simp: reject_bind_def split: sum.splits)

lemma reject_bind_InlD:
  "reject_bind b k msg addr = (Inl e, k') \<Longrightarrow> (\<exists>a. e = BindRejected a) \<or> (\<exists>e'. e = LoginSend e')"
  by (auto simp: reject_bind_def split: prod.splits sum.splits)

lemma derive_tunnel_type_Inr:
  assumes "derive_tunnel_type b os config c tc k = (Inr tt, k')"
  shows "entitled os config (NetworkBased tc) tt \<and> tunnel_conn tt = c \<and> k' = k"
proof -
  let ?d = "case upstream_kind (tc_upstream tc) of
    Tcp \<Rightarrow> default_tcp_upstream config | Udp \<Rightarrow> default_udp_upstream config"
  obtain addr where addr: "obtain_upstream_addr tc ?d = Inr addr"
    using assms by (auto simp: derive_tunnel_type_def split: sum.splits)
  note up = obtain_upstream_addr_InrD [OF addr]
  have rej: "reject_bind b k msg addr \<noteq> (Inr t, j)" for msg j and t :: "'a tunnel_type"
    using reject_bind_Inl [of b k msg addr] by (metis fst_conv Inl_Inr_False)
  show ?thesis
  proof (cases "tc_mode tc")
    case TOut
    then show ?thesis using assms addr up
      by (cases "upstream_kind (tc_upstream tc)")
        (auto simp: derive_tunnel_type_def asks_for_def)
  next
    case TIn
    then have up: "upstream_addr (tc_upstream tc) = Some addr" "local_only addr"
      using up by (auto simp: local_only_def)
    show ?thesis
    proof (cases "upstream_kind (tc_upstream tc)")
      case Tcp
      then show ?thesis using assms addr up TIn rej
        by (auto simp: derive_tunnel_type_def asks_for_def tcp_bind_and_start_def split: option.splits)
    next
      case Udp
      then show ?thesis using assms addr up TIn rej
        by (auto simp: derive_tunnel_type_def asks_for_def udp_bind_and_start_def split: option.splits)
    qed
  qed
qed

lemma derive_tunnel_type_Inl:
  assumes "derive_tunnel_type b os config c tc k = (Inl e, k')"
  shows "(\<exists>a. e = BindRejected a) \<or> (\<exists>e'. e = LoginSend e') \<or> k' = k"
  using assms
  by (auto simp: derive_tunnel_type_def split: sum.splits tunnel_mode.splits upstream_type.splits
      option.splits dest: reject_bind_InlD)

text \<open>The tunnel a login asks for, before the success message is sent.\<close>

definition login_tunnel ::
    "bincode \<Rightarrow> sockets \<Rightarrow> server_config \<Rightarrow> conn \<Rightarrow> login_info \<Rightarrow> sink \<Rightarrow>
     (auth_error + 's tunnel_type) \<times> sink" where
  "login_tunnel b os config c li k =
     (case li_tunnel li of
        NetworkBased tc \<Rightarrow> derive_tunnel_type b os config c tc k
      | ChannelBased Tcp \<Rightarrow> (Inr (DynamicUpstreamTcpOut c), k)
      | ChannelBased Udp \<Rightarrow> (Inr (DynamicUpstreamUdpOut c), k))"

lemma login_tunnel_Inr:
  "login_tunnel b os config c li k = (Inr tt, k') \<Longrightarrow>
     entitled os config (li_tunnel li) tt \<and> tunnel_conn tt = c \<and> k' = k"
  by (auto simp: login_tunnel_def split: tunnel.splits upstream_type.splits
      dest: derive_tunnel_type_Inr)

lemma login_tunnel_Inl:
  "login_tunnel b os config c li k = (Inl e, k') \<Longrightarrow>
     (\<exists>a. e = BindRejected a) \<or> (\<exists>e'. e = LoginSend e') \<or> k' = k"
  by (auto simp: login_tunnel_def split: tunnel.splits upstream_type.splits
      dest: derive_tunnel_type_Inl)

lemma authenticate_login:
  assumes "recv_from b s = Inr (ReqLogin li, s')" and "li_password li = sc_password config"
  shows "authenticate_connection b os ipv6 config c (Some (k, s)) =
    (case login_tunnel b os config c li k of
       (Inl e, k1) \<Rightarrow> (Inl e, Some k1)
     | (Inr tt, k1) \<Rightarrow>
         (case send_to b k1 (RespSuccess \<lparr>ipv6_supported = ipv6\<rparr>) of
            (Inl e, k2) \<Rightarrow> (Inl (LoginSend e), Some k2)
          | (Inr _, k2) \<Rightarrow>
              (Inr (tt,
                 \<lparr>to_tcp_ms = effective_timeout (li_tcp_timeout_ms li) (sc_tcp_timeout_ms config),
                  to_udp_ms = effective_timeout (li_udp_timeout_ms li) (sc_udp_timeout_ms config)\<rparr>),
               Some k2)))"
  using assms by (simp add: authenticate_connection_def check_password_def login_tunnel_def)

lemma authenticate_wrong_password:
  "recv_from b s = Inr (ReqLogin li, s') \<Longrightarrow> li_password li \<noteq> sc_password config \<Longrightarrow>
     authenticate_connection b os ipv6 config c (Some (k, s)) = (Inl PasswordMismatch, Some k)"
  by (simp add: authenticate_connection_def check_password_def)

lemma authenticate_no_login:
  assumes "\<And>li s'. recv_from b s \<noteq> Inr (ReqLogin li, s')"
  shows "\<exists>e. authenticate_connection b os ipv6 config c (Some (k, s)) = (Inl e, Some k)"
proof (cases "recv_from b s")
  case (Inl e)
  then show ?thesis by (simp add: authenticate_connection_def)
next
  case (Inr p)
  moreover obtain m s' where "p = (m, s')" by fastforce
  ultimately show ?thesis using assms
    by (cases m) (simp_all add: authenticate_connection_def)
qed

section \<open>Properties\<close>

text \<open>
  C4. Only a login with the server's password gets a tunnel, and only the one it is
  entitled to: its own upstream or the configured default for an outbound one, a listener
  at a loopback or wildcard address for an inbound one. Its timeouts are the larger of the
  client's and the server's, and the success message has been sent on the login stream.
\<close>

theorem login_grants:
  assumes "authenticate_connection b os ipv6 config c (Some (k, s)) = (Inr (tt, timeouts), k')"
  shows "\<exists>li s' k''. recv_from b s = Inr (ReqLogin li, s') \<and> li_password li = sc_password config \<and>
    entitled os config (li_tunnel li) tt \<and> tunnel_conn tt = c \<and>
    to_tcp_ms timeouts = max (li_tcp_timeout_ms li) (sc_tcp_timeout_ms config) \<and>
    to_udp_ms timeouts = max (li_udp_timeout_ms li) (sc_udp_timeout_ms config) \<and>
    k' = Some k'' \<and> send_to b k (RespSuccess \<lparr>ipv6_supported = ipv6\<rparr>) = (Inr (), k'')"
proof -
  obtain li s' where li: "recv_from b s = Inr (ReqLogin li, s')"
    using authenticate_no_login assms by (metis Pair_inject sum.distinct(1))
  have pw: "li_password li = sc_password config"
  proof (rule ccontr)
    assume wrong: "li_password li \<noteq> sc_password config"
    from assms show False by (simp add: authenticate_wrong_password [OF li wrong])
  qed
  have eff: "effective_timeout x y = max x y" for x y
    using effective_timeout_ge [of y x] by (auto simp: effective_timeout_def word_gt_0)
  from assms obtain k1 where "login_tunnel b os config c li k = (Inr tt, k1)"
    and "send_to b k1 (RespSuccess \<lparr>ipv6_supported = ipv6\<rparr>) = (Inr (), the k')" and "k' \<noteq> None"
    and "to_tcp_ms timeouts = effective_timeout (li_tcp_timeout_ms li) (sc_tcp_timeout_ms config)"
    and "to_udp_ms timeouts = effective_timeout (li_udp_timeout_ms li) (sc_udp_timeout_ms config)"
    unfolding authenticate_login [OF li pw] by (auto split: prod.splits sum.splits)
  then show ?thesis using li pw login_tunnel_Inr [of b os config c li k tt k1]
    by (intro exI [of _ li] exI [of _ s'] exI [of _ "the k'"]) (auto simp: eff)
qed

definition example_server :: server_config where
  "example_server =
     \<lparr>sc_addr = ''0.0.0.0:3515'', sc_password = ''pw'', sc_cert_path = [], sc_key_path = [],
      sc_quic_timeout_ms = 30000, sc_tcp_timeout_ms = 30000, sc_udp_timeout_ms = 5000,
      sc_quic_receive_window = 0, sc_stream_receive_window = 0, sc_quic_send_window = 0,
      default_tcp_upstream = Some (V4 localhost_v4 80), default_udp_upstream = None\<rparr>"

text \<open>A serialiser that knows one login and the replies to it.\<close>

definition example_login :: "string \<Rightarrow> login_info" where
  "example_login pw = \<lparr>li_password = pw, li_tunnel = ChannelBased Tcp,
     li_tcp_timeout_ms = 60000, li_udp_timeout_ms = 0\<rparr>"

definition login_bincode :: bincode where
  "login_bincode =
     \<lparr>encode_to_vec = (\<lambda>m. if m = RespSuccess \<lparr>ipv6_supported = False\<rparr> then Some [9] else None),
      decode_from_slice = (\<lambda>bs.
        if bs = [1] then Some (ReqLogin (example_login ''pw''), 1)
        else if bs = [2] then Some (ReqLogin (example_login ''guess''), 1)
        else if bs = [9] then Some (RespSuccess \<lparr>ipv6_supported = False\<rparr>, 1) else None)\<rparr>"

lemma recv_example_login:
  "recv_from login_bincode \<lparr>avail = [0, 0, 0, 1, 1], tail_of = Stalled\<rparr> =
     Inr (ReqLogin (example_login ''pw''), \<lparr>avail = [], tail_of = Stalled\<rparr>)"
  "recv_from login_bincode \<lparr>avail = [0, 0, 0, 1, 2], tail_of = Stalled\<rparr> =
     Inr (ReqLogin (example_login ''guess''), \<lparr>avail = [], tail_of = Stalled\<rparr>)"
  by (simp_all add: recv_from_def read_exact_def byte_simps MAX_TUNNEL_MESSAGE_SIZE_def login_bincode_def)

abbreviation no_sockets :: sockets where
  "no_sockets \<equiv> \<lparr>bind_tcp = (\<lambda>_. None), bind_udp = (\<lambda>_. None)\<rparr>"

theorem login_grants_witness:
  "\<exists>timeouts k'. authenticate_connection login_bincode no_sockets False example_server 7
      (Some (open_sink, \<lparr>avail = [0, 0, 0, 1, 1], tail_of = Stalled\<rparr>)) =
      (Inr (DynamicUpstreamTcpOut 7 :: nat tunnel_type, timeouts), k') \<and>
    to_tcp_ms timeouts = 60000 \<and> to_udp_ms timeouts = 5000"
proof -
  have pw: "li_password (example_login ''pw'') = sc_password example_server"
    by (simp add: example_login_def example_server_def)
  obtain timeouts k' where a: "authenticate_connection login_bincode no_sockets False example_server 7
      (Some (open_sink, \<lparr>avail = [0, 0, 0, 1, 1], tail_of = Stalled\<rparr>)) =
      (Inr (DynamicUpstreamTcpOut 7 :: nat tunnel_type, timeouts), k')"
    unfolding authenticate_login [OF recv_example_login(1) pw]
    by (simp add: login_tunnel_def example_login_def login_bincode_def send_to_def open_sink_def)
  from login_grants [OF a] recv_example_login(1) have "to_tcp_ms timeouts = 60000 \<and> to_udp_ms timeouts = 5000"
    by (auto simp: example_login_def example_server_def)
  with a show ?thesis by blast
qed

text \<open>
  C27. How a login fails. With another password, or with any message that is no login, the
  connection is refused and nothing is written on the login stream; in general nothing is
  written unless a listener could not be bound (the client is then sent the failure) or
  the reply itself could not be sent. An inbound tunnel at an address that is neither loopback nor
  wildcard is refused before anything is bound, and so is one without an address.
\<close>

theorem login_refusals:
  "(recv_from b s = Inr (ReqLogin li, s') \<and> li_password li \<noteq> sc_password config \<longrightarrow>
      authenticate_connection b os ipv6 config c (Some (k, s)) = (Inl PasswordMismatch :: auth_error + 's tunnel_type \<times> timeout_config, Some k)) \<and>
   (authenticate_connection b os ipv6 config c (Some (k, s)) = (Inl e :: auth_error + 's tunnel_type \<times> timeout_config, k') \<longrightarrow>
      (\<exists>a. e = BindRejected a) \<or> (\<exists>e'. e = LoginSend e') \<or> k' = Some k) \<and>
   (asks_for (NetworkBased tc) TIn kind (Some addr) \<and> \<not> local_only addr \<longrightarrow>
      derive_tunnel_type b os config c tc k = (Inl (InboundNotLocal addr) :: auth_error + 's tunnel_type, k)) \<and>
   (asks_for (NetworkBased tc) TIn kind None \<longrightarrow>
      derive_tunnel_type b os config c tc k = (Inl InboundNeedsPort :: auth_error + 's tunnel_type, k))"
proof (intro conjI impI)
  show "authenticate_connection b os ipv6 config c (Some (k, s)) = (Inl PasswordMismatch :: auth_error + 's tunnel_type \<times> timeout_config, Some k)"
    if "recv_from b s = Inr (ReqLogin li, s') \<and> li_password li \<noteq> sc_password config"
    using that authenticate_wrong_password by blast
  show "(\<exists>a. e = BindRejected a) \<or> (\<exists>e'. e = LoginSend e') \<or> k' = Some k"
    if auth: "authenticate_connection b os ipv6 config c (Some (k, s)) = (Inl e :: auth_error + 's tunnel_type \<times> timeout_config, k')"
  proof (cases "\<exists>li s'. recv_from b s = Inr (ReqLogin li, s')")
    case False
    then show ?thesis using auth authenticate_no_login [of b s os ipv6 config c k, where 'a = 's] by auto
  next
    case True
    then obtain li s' where li: "recv_from b s = Inr (ReqLogin li, s')" by blast
    show ?thesis
    proof (cases "li_password li = sc_password config")
      case True
      show ?thesis using auth unfolding authenticate_login [OF li True]
        by (auto split: prod.splits sum.splits dest: login_tunnel_Inl)
    next
      case False
      then show ?thesis using auth by (simp add: authenticate_wrong_password [OF li])
    qed
  qed
qed (auto simp: asks_for_def local_only_def derive_tunnel_type_def obtain_upstream_addr_def)

theorem login_refusals_witness:
  "authenticate_connection login_bincode no_sockets False example_server 7
     (Some (open_sink, \<lparr>avail = [0, 0, 0, 1, 2], tail_of = Stalled\<rparr>)) =
     (Inl PasswordMismatch :: auth_error + nat tunnel_type \<times> timeout_config, Some open_sink)"
proof -
  have "li_password (example_login ''guess'') \<noteq> sc_password example_server"
    by (simp add: example_login_def example_server_def)
  then show ?thesis using login_refusals [where 's = nat] recv_example_login(2) by blast
qed

section \<open>The traffic summary\<close>

text \<open>The traffic summary adds up the open connections, modulo the widths of its counters.\<close>

lemma traffic_summary_sum:
  "traffic_summary closed stats cs (rx, tx, n) =
     (rx + (\<Sum>c \<leftarrow> filter (\<lambda>c. \<not> closed c) cs. fst (stats c)),
      tx + (\<Sum>c \<leftarrow> filter (\<lambda>c. \<not> closed c) cs. snd (stats c)),
      n + word_of_nat (length (filter (\<lambda>c. \<not> closed c) cs)))"
  by (induction cs arbitrary: rx tx n) (simp_all add: algebra_simps)

end
