(* ===== verification/Heartbeat.thy ===== *)
theory Heartbeat
  imports Tunnel_Message
begin

text \<open>
  \<^verbatim>\<open>src/src/heartbeat.rs\<close>: the request loop of the client and the responder of
  the server on the login stream. \<open>should_stop\<close> is the caller's closure, given by its
  answer to the \<open>i\<close>-th call; a loop whose stream stays silent without a timeout has the
  outcome \<open>Waiting\<close>, and messages that are only logged are collected in order.
  Both loops end because every message they take consumes bytes of the stream.
\<close>

datatype hb_outcome =
    HbStopped
  | HbSendFailed send_error
  | HbRecvFailed recv_error
  | HbTimeout u64
  | HbWaiting

record hb_result =
  outcome :: hb_outcome
  reader :: instream
  writer :: sink
  warned :: "tunnel_message list"

function server_heartbeat ::
    "bincode \<Rightarrow> (nat \<Rightarrow> bool) \<Rightarrow> nat \<Rightarrow> instream \<Rightarrow> sink \<Rightarrow> tunnel_message list \<Rightarrow> hb_result" where
  "server_heartbeat b should_stop i r w log =
     (if should_stop i then \<lparr>outcome = HbStopped, reader = r, writer = w, warned = log\<rparr>
      else (case recv_from b r of
        Inl (ReadFailed Pending) \<Rightarrow> \<lparr>outcome = HbWaiting, reader = r, writer = w, warned = log\<rparr>
      | Inl e \<Rightarrow> \<lparr>outcome = HbRecvFailed e, reader = r, writer = w, warned = log\<rparr>
      | Inr (ReqHeartbeat seq, r') \<Rightarrow>
          (case send_to b w (RespHeartbeat seq) of
             (Inl e, w') \<Rightarrow> \<lparr>outcome = HbSendFailed e, reader = r', writer = w', warned = log\<rparr>
           | (Inr _, w') \<Rightarrow> server_heartbeat b should_stop (Suc i) r' w' log)
      | Inr (other, r') \<Rightarrow> server_heartbeat b should_stop (Suc i) r' w (log @ [other])))"
  by pat_completeness auto
termination
  by (relation "measure (\<lambda>(b, stop, i, r, w, log). length (avail r))")
    (auto dest!: recv_from_shorter)

function client_heartbeat ::
    "bincode \<Rightarrow> (nat \<Rightarrow> bool) \<Rightarrow> nat \<Rightarrow> u64 \<Rightarrow> instream \<Rightarrow> sink \<Rightarrow> tunnel_message list \<Rightarrow> hb_result" where
  "client_heartbeat b should_stop i seq r w log =
     (if should_stop i then \<lparr>outcome = HbStopped, reader = r, writer = w, warned = log\<rparr>
      else (let seq' = seq + 1 in
        case send_to b w (ReqHeartbeat seq') of
          (Inl e, w') \<Rightarrow> \<lparr>outcome = HbSendFailed e, reader = r, writer = w', warned = log\<rparr>
        | (Inr _, w') \<Rightarrow>
            (case recv_from b r of
               Inl (ReadFailed Pending) \<Rightarrow>
                 \<lparr>outcome = HbTimeout seq', reader = r, writer = w', warned = log\<rparr>
             | Inl e \<Rightarrow> \<lparr>outcome = HbRecvFailed e, reader = r, writer = w', warned = log\<rparr>
             | Inr (resp, r') \<Rightarrow>
                 client_heartbeat b should_stop (Suc i) seq' r' w'
                   (case resp of
                      RespHeartbeat resp_seq \<Rightarrow> if resp_seq = seq' then log else log @ [resp]
                    | _ \<Rightarrow> log @ [resp]))))"
  by pat_completeness auto
termination
  by (relation "measure (\<lambda>(b, stop, i, seq, r, w, log). length (avail r))")
    (auto dest!: recv_from_shorter)

declare server_heartbeat.simps [simp del] client_heartbeat.simps [simp del]

section \<open>The responder\<close>

text \<open>The serialised form of a message and the bytes of a sequence of framed messages.\<close>

definition encodable :: "bincode \<Rightarrow> tunnel_message \<Rightarrow> bool" where
  "encodable b m \<longleftrightarrow>
     (\<exists>msg. encode_to_vec b m = Some msg \<and> length msg \<le> MAX_TUNNEL_MESSAGE_SIZE)"

definition frame_of :: "bincode \<Rightarrow> tunnel_message \<Rightarrow> bytes" where
  "frame_of b m = message_frame (the (encode_to_vec b m))"

abbreviation frames :: "bincode \<Rightarrow> tunnel_message list \<Rightarrow> bytes" where
  "frames b ms \<equiv> concat (map (frame_of b) ms)"

lemma recv_frame_of:
  "bincode_laws b \<Longrightarrow> encodable b m \<Longrightarrow>
     recv_from b \<lparr>avail = frame_of b m @ rest, tail_of = t\<rparr> = Inr (m, \<lparr>avail = rest, tail_of = t\<rparr>)"
  by (auto simp: encodable_def frame_of_def recv_from_encoded)

lemma send_frame_of:
  "encodable b m \<Longrightarrow> budget w = None \<Longrightarrow>
     send_to b w m = (Inr (), w\<lparr>written := written w @ frame_of b m\<rparr>)"
  by (auto simp: encodable_def frame_of_def send_to_frame)

definition is_request :: "tunnel_message \<Rightarrow> bool" where
  "is_request m = (case m of ReqHeartbeat _ \<Rightarrow> True | _ \<Rightarrow> False)"

fun reply_to :: "tunnel_message \<Rightarrow> tunnel_message list" where
  "reply_to (ReqHeartbeat seq) = [RespHeartbeat seq]"
| "reply_to _ = []"

lemma recv_nothing:
  "recv_from b \<lparr>avail = [], tail_of = t\<rparr> = Inl (ReadFailed (tail_error t))"
  by (simp add: recv_from_stop)

lemma server_heartbeat_run:
  assumes laws: "bincode_laws b" and "\<And>j. \<not> should_stop j"
    and "list_all (encodable b) ms" and "list_all (encodable b) (concat (map reply_to ms))"
    and "budget w = None"
  shows "server_heartbeat b should_stop i \<lparr>avail = frames b ms, tail_of = t\<rparr> w log =
    \<lparr>outcome = (case t of Stalled \<Rightarrow> HbWaiting | Closed \<Rightarrow> HbRecvFailed (ReadFailed UnexpectedEof)),
     reader = \<lparr>avail = [], tail_of = t\<rparr>,
     writer = w\<lparr>written := written w @ frames b (concat (map reply_to ms))\<rparr>,
     warned = log @ filter (\<lambda>m. \<not> is_request m) ms\<rparr>"
  using assms(3-5)
proof (induction ms arbitrary: i w log)
  case Nil
  then show ?case
    by (cases t) (simp_all add: server_heartbeat.simps [of b] assms(2) recv_nothing tail_error_def)
next
  case (Cons m ms)
  have recv: "recv_from b \<lparr>avail = frames b (m # ms), tail_of = t\<rparr> =
      Inr (m, \<lparr>avail = frames b ms, tail_of = t\<rparr>)"
    using Cons.prems recv_frame_of [OF laws, of m "frames b ms" t] by simp
  show ?case
  proof (cases m)
    case (ReqHeartbeat seq)
    let ?w = "w\<lparr>written := written w @ frame_of b (RespHeartbeat seq)\<rparr>"
    have "send_to b w (RespHeartbeat seq) = (Inr (), ?w)"
      using Cons.prems ReqHeartbeat by (intro send_frame_of) simp_all
    then show ?thesis
      using Cons.IH [of ?w "Suc i" log] Cons.prems recv ReqHeartbeat
      by (simp add: server_heartbeat.simps [of b _ i] assms(2) is_request_def)
  qed (use Cons.IH [of w "Suc i" "log @ [m]"] Cons.prems recv in
      \<open>simp_all add: server_heartbeat.simps [of b _ i] assms(2) is_request_def\<close>)
qed

section \<open>The client\<close>

fun client_log :: "u64 \<Rightarrow> tunnel_message list \<Rightarrow> tunnel_message list" where
  "client_log seq [] = []"
| "client_log seq (m # ms) =
     (if m = RespHeartbeat (seq + 1) then [] else [m]) @ client_log (seq + 1) ms"

definition requests :: "u64 \<Rightarrow> nat \<Rightarrow> tunnel_message list" where
  "requests seq n = map (\<lambda>i. ReqHeartbeat (seq + 1 + word_of_nat i)) [0..<n]"

lemma requests_Suc: "requests seq (Suc n) = ReqHeartbeat (seq + 1) # requests (seq + 1) n"
  by (simp add: requests_def upt_conv_Cons map_Suc_upt [symmetric] algebra_simps
      del: upt_Suc)

lemma client_heartbeat_run:
  assumes laws: "bincode_laws b" and "\<And>j. \<not> should_stop j"
    and "list_all (encodable b) ms" and "\<And>n. encodable b (ReqHeartbeat n)" and "budget w = None"
  shows "client_heartbeat b should_stop i seq \<lparr>avail = frames b ms, tail_of = t\<rparr> w log =
    \<lparr>outcome = (case t of
        Stalled \<Rightarrow> HbTimeout (seq + 1 + word_of_nat (length ms))
      | Closed \<Rightarrow> HbRecvFailed (ReadFailed UnexpectedEof)),
     reader = \<lparr>avail = [], tail_of = t\<rparr>,
     writer = w\<lparr>written := written w @ frames b (requests seq (Suc (length ms)))\<rparr>,
     warned = log @ client_log seq ms\<rparr>"
  using assms(3,5)
proof (induction ms arbitrary: i seq w log)
  case Nil
  then show ?case
    using send_frame_of [OF assms(4), of w "seq + 1"]
    by (cases t) (simp_all add: client_heartbeat.simps [of b] assms(2) recv_nothing
        tail_error_def requests_def Let_def)
next
  case (Cons m ms)
  let ?w = "w\<lparr>written := written w @ frame_of b (ReqHeartbeat (seq + 1))\<rparr>"
  let ?log = "log @ (if m = RespHeartbeat (seq + 1) then [] else [m])"
  have recv: "recv_from b \<lparr>avail = frames b (m # ms), tail_of = t\<rparr> =
      Inr (m, \<lparr>avail = frames b ms, tail_of = t\<rparr>)"
    using Cons.prems recv_frame_of [OF laws, of m "frames b ms" t] by simp
  have "client_heartbeat b should_stop i seq \<lparr>avail = frames b (m # ms), tail_of = t\<rparr> w log =
      client_heartbeat b should_stop (Suc i) (seq + 1) \<lparr>avail = frames b ms, tail_of = t\<rparr> ?w ?log"
    using send_frame_of [OF assms(4), of w "seq + 1"] Cons.prems recv
    by (subst client_heartbeat.simps) (cases m, auto simp: assms(2) Let_def)
  then show ?case
    using Cons.IH [of ?w "Suc i" "seq + 1" ?log] Cons.prems
    by (cases t) (simp_all add: requests_Suc [of seq "Suc (length ms)"] algebra_simps)
qed

section \<open>Properties\<close>

lemma encodable_ping: "encodable ping_bincode (ReqHeartbeat n) \<and> encodable ping_bincode (RespHeartbeat n)"
  by (simp add: encodable_def ping_bincode_def MAX_TUNNEL_MESSAGE_SIZE_def)

lemma replies_to_requests:
  "concat (map reply_to (requests seq n)) = map (\<lambda>i. RespHeartbeat (seq + 1 + word_of_nat i)) [0..<n]"
  by (induction n) (simp_all add: requests_def)

lemma matching_replies_not_logged:
  "client_log seq (map (\<lambda>i. RespHeartbeat (seq + 1 + word_of_nat i)) [0..<n]) = []"
proof (induction n arbitrary: seq)
  case (Suc n)
  have "map (\<lambda>i. RespHeartbeat (seq + 1 + word_of_nat i)) [0..<Suc n] =
      RespHeartbeat (seq + 1) # map (\<lambda>i. RespHeartbeat (seq + 1 + 1 + word_of_nat i)) [0..<n]"
    by (simp add: upt_conv_Cons map_Suc_upt [symmetric] algebra_simps del: upt_Suc)
  then show ?case using Suc [of "seq + 1"] by simp
qed simp

text \<open>
  The responder answers every heartbeat request with its own sequence number, in the
  order they came, answers nothing else (other messages are only logged), and stops with an
  error when the stream closes; on a silent stream it keeps waiting.
\<close>

lemma server_heartbeat_echoes:
  assumes "bincode_laws b" and "list_all (encodable b) ms"
    and "list_all (encodable b) (concat (map reply_to ms))" and "budget w = None"
  shows "server_heartbeat b (\<lambda>_. False) 0 \<lparr>avail = frames b ms, tail_of = t\<rparr> w [] =
    \<lparr>outcome = (case t of Stalled \<Rightarrow> HbWaiting | Closed \<Rightarrow> HbRecvFailed (ReadFailed UnexpectedEof)),
     reader = \<lparr>avail = [], tail_of = t\<rparr>,
     writer = w\<lparr>written := written w @ frames b (concat (map reply_to ms))\<rparr>,
     warned = filter (\<lambda>m. \<not> is_request m) ms\<rparr>"
  using server_heartbeat_run [OF assms(1) _ assms(2-4), of "\<lambda>_. False" 0 t "[]"] by simp

lemma server_heartbeat_echoes_witness:
  "server_heartbeat ping_bincode (\<lambda>_. False) 0
     \<lparr>avail = frames ping_bincode [ReqHeartbeat 1, RespHeartbeat 9, ReqHeartbeat 2], tail_of = Closed\<rparr>
     open_sink [] =
   \<lparr>outcome = (case Closed of Stalled \<Rightarrow> HbWaiting | Closed \<Rightarrow> HbRecvFailed (ReadFailed UnexpectedEof)),
    reader = \<lparr>avail = [], tail_of = Closed\<rparr>,
    writer = open_sink\<lparr>written := written open_sink @ frames ping_bincode
      (concat (map reply_to [ReqHeartbeat 1, RespHeartbeat 9, ReqHeartbeat 2]))\<rparr>,
    warned = filter (\<lambda>m. \<not> is_request m) [ReqHeartbeat 1, RespHeartbeat 9, ReqHeartbeat 2]\<rparr>"
  by (rule server_heartbeat_echoes [OF ping_bincode_laws])
    (simp_all add: encodable_ping open_sink_def)

text \<open>
  The client's loop: with \<open>n\<close> responses on the stream it has sent exactly the
  requests numbered \<open>1\<close> to \<open>n + 1\<close> (modulo \<open>2 ^ 64\<close>), each of them after the
  response to the previous one; it then fails with the timeout of request \<open>n + 1\<close> when
  the server is silent, or with the read error when the stream closed. A response that is
  not the expected one is only logged.
\<close>

lemma client_heartbeat_sequence:
  assumes "bincode_laws b" and "list_all (encodable b) ms"
    and "\<forall>n. encodable b (ReqHeartbeat n)" and "budget w = None"
  shows "client_heartbeat b (\<lambda>_. False) 0 0 \<lparr>avail = frames b ms, tail_of = t\<rparr> w [] =
    \<lparr>outcome = (case t of
        Stalled \<Rightarrow> HbTimeout (1 + word_of_nat (length ms))
      | Closed \<Rightarrow> HbRecvFailed (ReadFailed UnexpectedEof)),
     reader = \<lparr>avail = [], tail_of = t\<rparr>,
     writer = w\<lparr>written := written w @ frames b (requests 0 (Suc (length ms)))\<rparr>,
     warned = client_log 0 ms\<rparr>"
  using client_heartbeat_run [OF assms(1) _ assms(2) _ assms(4), of "\<lambda>_. False" 0 0 t "[]"] assms(3)
  by (cases t) simp_all

lemma client_heartbeat_sequence_witness:
  "client_heartbeat ping_bincode (\<lambda>_. False) 0 0
     \<lparr>avail = frames ping_bincode [RespHeartbeat 1, RespHeartbeat 1], tail_of = Stalled\<rparr> open_sink [] =
   \<lparr>outcome = (case Stalled of
        Stalled \<Rightarrow> HbTimeout (1 + word_of_nat (length [RespHeartbeat 1, RespHeartbeat 1]))
      | Closed \<Rightarrow> HbRecvFailed (ReadFailed UnexpectedEof)),
    reader = \<lparr>avail = [], tail_of = Stalled\<rparr>,
    writer = open_sink\<lparr>written := written open_sink @
      frames ping_bincode (requests 0 (Suc (length [RespHeartbeat 1, RespHeartbeat 1])))\<rparr>,
    warned = client_log 0 [RespHeartbeat 1, RespHeartbeat 1]\<rparr>"
  by (rule client_heartbeat_sequence [OF ping_bincode_laws])
    (simp_all add: encodable_ping open_sink_def)

text \<open>
  C23. Client and server agree: the server's answers to the client's first \<open>n\<close> requests,
  read by the client, are all the expected ones, so nothing is logged, and make it send
  precisely those \<open>n\<close> requests and one more.
\<close>

theorem heartbeat_lockstep:
  assumes "bincode_laws b"
    and "\<forall>n. encodable b (ReqHeartbeat n) \<and> encodable b (RespHeartbeat n)"
  defines "srv \<equiv> \<lambda>n. server_heartbeat b (\<lambda>_. False) 0
      \<lparr>avail = frames b (requests 0 n), tail_of = Stalled\<rparr> open_sink []"
  defines "cli \<equiv> \<lambda>n. client_heartbeat b (\<lambda>_. False) 0 0
      \<lparr>avail = written (writer (srv n)), tail_of = Stalled\<rparr> open_sink []"
  shows "warned (srv n) = [] \<and> warned (cli n) = [] \<and>
    written (writer (cli n)) = frames b (requests 0 (Suc n))"
proof -
  have req: "list_all (encodable b) (requests 0 n)"
    using assms(2) by (simp add: requests_def list_all_iff)
  have resp: "list_all (encodable b) (concat (map reply_to (requests 0 n)))"
    using assms(2) by (simp add: replies_to_requests list_all_iff)
  have srv: "warned (srv n) = []"
    "written (writer (srv n)) = frames b (concat (map reply_to (requests 0 n)))"
    using server_heartbeat_run [OF assms(1) _ req resp, of "\<lambda>_. False" open_sink 0 Stalled "[]"]
    by (simp_all add: srv_def open_sink_def requests_def is_request_def filter_empty_conv)
  have "length (concat (map reply_to (requests 0 n))) = n"
    "client_log 0 (concat (map reply_to (requests 0 n))) = []"
    using matching_replies_not_logged [of 0 n] by (simp_all add: replies_to_requests)
  then show ?thesis
    using client_heartbeat_run [OF assms(1) _ resp, of "\<lambda>_. False" open_sink 0 0 Stalled "[]"]
      assms(2) srv by (simp add: cli_def open_sink_def)
qed

theorem heartbeat_lockstep_witness:
  "warned (client_heartbeat ping_bincode (\<lambda>_. False) 0 0
     \<lparr>avail = written (writer (server_heartbeat ping_bincode (\<lambda>_. False) 0
        \<lparr>avail = frames ping_bincode (requests 0 3), tail_of = Stalled\<rparr> open_sink [])),
      tail_of = Stalled\<rparr> open_sink []) = []"
  using heartbeat_lockstep [OF ping_bincode_laws, of 3] encodable_ping by blast

end
