(* ===== verification/Pem.thy ===== *)
theory Pem
  imports Rust_Std
begin

text \<open>
  \<^verbatim>\<open>src/src/pem_util.rs\<close>: certificates and private keys from PEM files. The file
  system and the parser (crate \<^verbatim>\<open>rustls_pemfile\<close>) are the fields of
  \<open>pem_env\<close> and, for keys, of \<open>pem_key_env\<close>.
\<close>

datatype 'key pem_item = Pkcs1Key 'key | Pkcs8Key 'key | Sec1Key 'key | OtherItem

text \<open>
  \<open>pem_certs\<close> gives one result per certificate section, \<open>None\<close> for a section that cannot
  be decoded; \<open>pem_read_one\<close> gives the first item, if there is one, or fails (\<open>Inl\<close>).
\<close>

record 'cert pem_env =
  pem_file :: "string \<Rightarrow> bytes option"
  pem_certs :: "bytes \<Rightarrow> 'cert option list"

record ('cert, 'key) pem_key_env = "'cert pem_env" +
  pem_read_one :: "bytes \<Rightarrow> unit + 'key pem_item option"

datatype pem_error = CertFileUnreadable | KeyFileUnreadable | KeyParseFailed | UnexpectedKey

definition load_certificates_from_pem ::
    "('cert, 'm) pem_env_scheme \<Rightarrow> string \<Rightarrow> pem_error + 'cert list" where
  "load_certificates_from_pem env path =
     (case pem_file env path of
        None \<Rightarrow> Inl CertFileUnreadable
      | Some cert_buf \<Rightarrow> Inr (List.map_filter (\<lambda>c. c) (pem_certs env cert_buf)))"

datatype 'key private_key = Pkcs1 'key | Pkcs8 'key | Sec1 'key

definition load_private_key_from_pem ::
    "('cert, 'key) pem_key_env \<Rightarrow> string \<Rightarrow> pem_error + 'key private_key" where
  "load_private_key_from_pem env path =
     (case pem_file env path of
        None \<Rightarrow> Inl KeyFileUnreadable
      | Some buf \<Rightarrow>
          (case pem_read_one env buf of
             Inl _ \<Rightarrow> Inl KeyParseFailed
           | Inr (Some (Pkcs1Key k)) \<Rightarrow> Inr (Pkcs1 k)
           | Inr (Some (Pkcs8Key k)) \<Rightarrow> Inr (Pkcs8 k)
           | Inr (Some (Sec1Key k)) \<Rightarrow> Inr (Sec1 k)
           | Inr _ \<Rightarrow> Inl UnexpectedKey))"

lemma load_certificates_set:
  "load_certificates_from_pem env path = Inr certs \<Longrightarrow>
     \<exists>buf. pem_file env path = Some buf \<and> set certs = {c. Some c \<in> set (pem_certs env buf)}"
  by (auto simp: load_certificates_from_pem_def map_filter_def image_iff split: option.splits)
    (metis option.sel)

end
