(* ===== verification/Server_Run.thy ===== *)
theory Server_Run
  imports Server Heartbeat Pem
begin

text \<open>
  The life of a server in \<^verbatim>\<open>src/src/server.rs\<close>: its certificate and QUIC
  configuration, binding and the daily reload, the accept loop that logs connections in and
  runs their tunnels, the periodic clean-up, and the heartbeat responder of a connection.
  The self-signed certificate (crate \<^verbatim>\<open>rcgen\<close>), the checks of \<^verbatim>\<open>rustls\<close> and
  the QUIC endpoint are arguments.
\<close>

section \<open>The QUIC configuration\<close>

record ('cert, 'key) server_env =
  sv_pem :: "('cert, 'key) pem_key_env"
  self_signed :: "string list \<Rightarrow> ('cert \<times> 'key) option"
  single_cert_ok :: "'cert list \<Rightarrow> 'key private_key \<Rightarrow> bool"
  quic_crypto_ok :: bool
  transport_default :: transport_config

datatype certs_error = SelfSignFailed | CertFile pem_error | KeyFile pem_error

definition read_certs_and_key ::
    "('cert, 'key) server_env \<Rightarrow> string \<Rightarrow> string \<Rightarrow> certs_error + 'cert list \<times> 'key private_key" where
  "read_certs_and_key env certs_at key_at =
     (if certs_at = []
      then (case self_signed env [''localhost''] of
              None \<Rightarrow> Inl SelfSignFailed
            | Some (cert, key) \<Rightarrow> Inr ([cert], Pkcs8 key))
      else try_then (map_err CertFile (load_certificates_from_pem (sv_pem env) certs_at)) (\<lambda>certs.
           try_then (map_err KeyFile (load_private_key_from_pem (sv_pem env) key_at)) (\<lambda>key.
             Inr (certs, key))))"

record ('cert, 'key) quinn_config =
  qc_certs :: "'cert list"
  qc_key :: "'key private_key"
  qc_transport :: transport_config

text \<open>
  \<^verbatim>\<open>load_quinn_server_config\<close>. A certificate that does not fit its key is not an error
  but a panic: the result of \<^verbatim>\<open>with_single_cert\<close> is unwrapped.
\<close>

datatype 'a loading = Loaded 'a | LoadFailed certs_error | NoQuicCrypto | Panicked

definition load_quinn_server_config ::
    "('cert, 'key) server_env \<Rightarrow> server_config \<Rightarrow> ('cert, 'key) quinn_config loading" where
  "load_quinn_server_config env config =
     (case read_certs_and_key env (sc_cert_path config) (sc_key_path config) of
        Inl e \<Rightarrow> LoadFailed e
      | Inr (certs, key) \<Rightarrow>
          if \<not> single_cert_ok env certs key then Panicked
          else if \<not> quic_crypto_ok env then NoQuicCrypto
          else Loaded
            \<lparr>qc_certs = certs, qc_key = key,
             qc_transport = build_quic_transport_config (transport_default env)
               (sc_quic_timeout_ms config) (sc_quic_receive_window config)
               (sc_stream_receive_window config) (sc_quic_send_window config)\<rparr>)"

section \<open>The server\<close>

text \<open>
  The live endpoint with its address and current configuration, whether the endpoint still
  waits in the state to be served, whether the reload task runs, whether a panic poisoned
  the lock, whether the accept loop runs, the connections' tasks with how far each has come,
  the connections that closed, and the tables. \<open>granted\<close> is a history of the logins that
  succeeded; the last four fields are one of the inbound sessions opened and of the \<open>Quit\<close>s
  sent to their listeners.
\<close>

datatype task_stage = LoggedIn | Registered | Running

record ('cert, 'key) server =
  sv_config :: server_config
  sv_endpoint :: "(socket_addr \<times> ('cert, 'key) quinn_config) option"
  sv_available :: bool
  sv_reloading :: bool
  sv_poisoned :: bool
  sv_serving :: bool
  sv_state :: server_state
  sv_tasks :: "(task_stage \<times> nat tunnel_type \<times> timeout_config) list"
  sv_closed :: "conn set"
  granted :: "(conn \<times> login_info) list"
  tcp_opened :: "conn list"
  udp_opened :: "conn list"
  tcp_quit :: "conn list"
  udp_quit :: "conn list"

definition server_new :: "server_config \<Rightarrow> ('cert, 'key) server" where
  "server_new config =
     \<lparr>sv_config = config, sv_endpoint = None, sv_available = False, sv_reloading = False,
      sv_poisoned = False, sv_serving = False, sv_state = server_state_new, sv_tasks = [],
      sv_closed = {}, granted = [], tcp_opened = [], udp_opened = [], tcp_quit = [], udp_quit = []\<rparr>"

datatype bind_error = BadServerAddr string | ConfigFailed | EndpointFailed socket_addr | BindPanicked

definition bind ::
    "('cert, 'key) server_env \<Rightarrow> (socket_addr \<Rightarrow> bool) \<Rightarrow> ('cert, 'key) server \<Rightarrow>
     (bind_error + socket_addr) \<times> ('cert, 'key) server" where
  "bind env endpoint_ok sv =
     (let config = sv_config sv in
      if sv_poisoned sv then (Inl BindPanicked, sv)
      else case parse_socket_addr (sc_addr config) of
             None \<Rightarrow> (Inl (BadServerAddr (sc_addr config)), sv)
           | Some addr \<Rightarrow>
               (case load_quinn_server_config env config of
                  Loaded q \<Rightarrow>
                    if endpoint_ok addr
                    then (Inr addr, sv\<lparr>sv_endpoint := Some (addr, q), sv_available := True, sv_reloading := True\<rparr>)
                    else (Inl (EndpointFailed addr), sv)
                | Panicked \<Rightarrow> (Inl BindPanicked, sv\<lparr>sv_poisoned := True\<rparr>)
                | _ \<Rightarrow> (Inl ConfigFailed, sv)))"

text \<open>One round of the reload task, on what the files hold by then.\<close>

definition reload :: "('cert, 'key) server_env \<Rightarrow> ('cert, 'key) server \<Rightarrow> ('cert, 'key) server" where
  "reload env sv =
     (case load_quinn_server_config env (sv_config sv) of
        Loaded q \<Rightarrow> sv\<lparr>sv_endpoint := map_option (\<lambda>(addr, _). (addr, q)) (sv_endpoint sv)\<rparr>
      | Panicked \<Rightarrow> sv\<lparr>sv_reloading := False\<rparr>
      | _ \<Rightarrow> sv)"

text \<open>
  \<^verbatim>\<open>serve\<close> takes the endpoint out of the state, so it runs once, and it panics on a
  poisoned lock. A connection of the loop is handled by a task of its own: the QUIC handshake
  (\<open>None\<close>: it failed) and the login, after which the task enters its connection in the
  table, and after that its session, when it is an inbound tunnel's.
\<close>

definition serve :: "('cert, 'key) server \<Rightarrow> bool \<times> ('cert, 'key) server" where
  "serve sv =
     (if sv_available sv \<and> \<not> sv_poisoned sv then (True, sv\<lparr>sv_available := False, sv_serving := True\<rparr>)
      else (False, sv))"

definition serve_connection ::
    "bincode \<Rightarrow> sockets \<Rightarrow> bool \<Rightarrow> conn \<Rightarrow> (sink \<times> instream) option option \<Rightarrow> ('cert, 'key) server \<Rightarrow>
     (auth_error option + nat tunnel_type) \<times> ('cert, 'key) server" where
  "serve_connection b os ipv6 c incoming sv =
     (case incoming of
        None \<Rightarrow> (Inl None, sv)
      | Some login_stream \<Rightarrow>
          (case authenticate_connection b os ipv6 (sv_config sv) c login_stream of
             (Inl e, _) \<Rightarrow> (Inl (Some e), sv)
           | (Inr (tt, timeouts), _) \<Rightarrow>
               (Inr tt, sv\<lparr>sv_tasks := sv_tasks sv @ [(LoggedIn, tt, timeouts)],
                  granted := granted sv @
                    (case login_stream of
                       Some (_, s) \<Rightarrow>
                         (case recv_from b s of Inr (ReqLogin li, _) \<Rightarrow> [(c, li)] | _ \<Rightarrow> [])
                     | None \<Rightarrow> [])\<rparr>)))"

definition register_task :: "nat \<Rightarrow> ('cert, 'key) server \<Rightarrow> ('cert, 'key) server" where
  "register_task i sv =
     (case sv_tasks sv ! i of
        (_, tt, timeouts) \<Rightarrow>
          sv\<lparr>sv_state := push_connection tt (sv_state sv),
             sv_tasks := (sv_tasks sv)[i := (Registered, tt, timeouts)]\<rparr>)"

fun session_conns :: "'s tunnel_type \<Rightarrow> conn list \<times> conn list" where
  "session_conns (TcpIn c _) = ([c], [])"
| "session_conns (UdpIn c _) = ([], [c])"
| "session_conns _ = ([], [])"

definition run_task :: "nat \<Rightarrow> ('cert, 'key) server \<Rightarrow> ('cert, 'key) server" where
  "run_task i sv =
     (case sv_tasks sv ! i of
        (_, tt, timeouts) \<Rightarrow>
          sv\<lparr>sv_state := push_session tt (sv_state sv),
             sv_tasks := (sv_tasks sv)[i := (Running, tt, timeouts)],
             tcp_opened := tcp_opened sv @ fst (session_conns tt),
             udp_opened := udp_opened sv @ snd (session_conns tt)\<rparr>)"

definition sweep :: "conn set \<Rightarrow> conn set \<Rightarrow> conn set \<Rightarrow> ('cert, 'key) server \<Rightarrow> ('cert, 'key) server" where
  "sweep closed1 closed2 closed3 sv =
     (case clear_expired_sessions closed1 closed2 closed3 (sv_state sv) of
        ((udp, tcp), st) \<Rightarrow>
          sv\<lparr>sv_state := st, sv_closed := closed3, tcp_quit := tcp_quit sv @ tcp,
             udp_quit := udp_quit sv @ udp\<rparr>)"

text \<open>The capabilities the server reports, given whether the host has a usable IPv6 route.\<close>

definition build_server_capabilities :: "bool \<Rightarrow> server_capabilities" where
  "build_server_capabilities has_usable_ipv6_route = \<lparr>ipv6_supported = has_usable_ipv6_route\<rparr>"

section \<open>The heartbeat responder\<close>

text \<open>
  \<^verbatim>\<open>start_heartbeat_responder\<close>: the responder runs until the connection closes; when it
  fails on an open connection it closes it. The result is what became of the send half, which
  is dropped, and so finished, when the task ends, and the code and reason of the close.
\<close>

definition start_heartbeat_responder ::
    "bincode \<Rightarrow> bool \<Rightarrow> (nat \<Rightarrow> bool) \<Rightarrow> bool \<Rightarrow> instream \<Rightarrow> sink \<Rightarrow> sink \<times> (u32 \<times> string) option" where
  "start_heartbeat_responder b closed_first closed_at closed_after quic_recv quic_send =
     (if closed_first then (quic_send\<lparr>finished := True\<rparr>, None)
      else let r = server_heartbeat b closed_at 0 quic_recv quic_send [] in
           case outcome r of
             HbWaiting \<Rightarrow> (writer r, None)
           | HbStopped \<Rightarrow> ((writer r)\<lparr>finished := True\<rparr>, None)
           | _ \<Rightarrow> ((writer r)\<lparr>finished := True\<rparr>,
                  if closed_after then None else Some (1, ''heartbeat failed'')))"

section \<open>Steps\<close>

text \<open>
  The tasks of the server interleave: a connection's task takes its steps one by one, a
  connection may close at any moment for good, and the clean-up runs whenever its timer says.
\<close>

inductive server_run_step ::
    "('cert, 'key) server_env set \<Rightarrow> ('cert, 'key) server \<Rightarrow> ('cert, 'key) server \<Rightarrow> bool" for envs where
  binds: "env \<in> envs \<Longrightarrow> server_run_step envs sv (snd (bind env endpoint_ok sv))"
| reloads: "env \<in> envs \<Longrightarrow> sv_reloading sv \<Longrightarrow> server_run_step envs sv (reload env sv)"
| serves: "server_run_step envs sv (snd (serve sv))"
| connects: "sv_serving sv \<Longrightarrow> \<not> sv_poisoned sv \<Longrightarrow>
    server_run_step envs sv (snd (serve_connection b os ipv6 c incoming sv))"
| registers: "\<not> sv_poisoned sv \<Longrightarrow> i < length (sv_tasks sv) \<Longrightarrow> fst (sv_tasks sv ! i) = LoggedIn \<Longrightarrow>
    server_run_step envs sv (register_task i sv)"
| runs: "\<not> sv_poisoned sv \<Longrightarrow> i < length (sv_tasks sv) \<Longrightarrow> fst (sv_tasks sv ! i) = Registered \<Longrightarrow>
    server_run_step envs sv (run_task i sv)"
| closes: "server_run_step envs sv (sv\<lparr>sv_closed := insert c (sv_closed sv)\<rparr>)"
| sweeps: "\<not> sv_poisoned sv \<Longrightarrow> sv_closed sv \<subseteq> closed1 \<Longrightarrow> closed1 \<subseteq> closed2 \<Longrightarrow> closed2 \<subseteq> closed3 \<Longrightarrow>
    server_run_step envs sv (sweep closed1 closed2 closed3 sv)"

fun task_conn :: "task_stage \<times> 's tunnel_type \<times> timeout_config \<Rightarrow> conn" where
  "task_conn (_, tt, _) = tunnel_conn tt"

text \<open>
  What holds of a running server: the configuration in use is one that some reading of the
  files gave in full, an endpoint that waits is a bound one, and every connection in the
  tables and every task logged in with the password.
\<close>

definition server_run_inv ::
    "('cert, 'key) server_env set \<Rightarrow> server_config \<Rightarrow> ('cert, 'key) server \<Rightarrow> bool" where
  "server_run_inv envs config sv \<longleftrightarrow>
     sv_config sv = config \<and>
     (sv_available sv \<or> sv_reloading sv \<or> sv_serving sv \<longrightarrow> sv_endpoint sv \<noteq> None) \<and>
     (\<forall>addr q. sv_endpoint sv = Some (addr, q) \<longrightarrow> parse_socket_addr (sc_addr config) = Some addr \<and>
        (\<exists>env \<in> envs. load_quinn_server_config env config = Loaded q)) \<and>
     set (connections (sv_state sv)) \<union> task_conn ` set (sv_tasks sv) \<subseteq> fst ` set (granted sv) \<and>
     (\<forall>e \<in> set (granted sv). li_password (snd e) = sc_password config)"

text \<open>
  And of its sessions: those opened are in the table or were told to quit, which happens only
  after their connection closed; the connection of a session or of a task past the first lock
  is in the table unless it closed.
\<close>

definition sessions_inv :: "('cert, 'key) server \<Rightarrow> bool" where
  "sessions_inv sv \<longleftrightarrow>
     mset (tcp_opened sv) = mset (tcp_sessions (sv_state sv)) + mset (tcp_quit sv) \<and>
     mset (udp_opened sv) = mset (udp_sessions (sv_state sv)) + mset (udp_quit sv) \<and>
     set (tcp_quit sv) \<union> set (udp_quit sv) \<subseteq> sv_closed sv \<and>
     set (tcp_sessions (sv_state sv)) \<union> set (udp_sessions (sv_state sv)) \<subseteq>
       set (connections (sv_state sv)) \<union> sv_closed sv \<and>
     (\<forall>t \<in> set (sv_tasks sv). fst t \<noteq> LoggedIn \<longrightarrow>
        task_conn t \<in> set (connections (sv_state sv)) \<union> sv_closed sv)"

lemma push_connection_tables [simp]:
  "connections (push_connection tt st) = connections st @ [tunnel_conn tt]"
  "tcp_sessions (push_connection tt st) = tcp_sessions st" "udp_sessions (push_connection tt st) = udp_sessions st"
  by (simp_all add: push_connection_def)

lemma push_session_tables [simp]:
  "connections (push_session tt st) = connections st"
  "tcp_sessions (push_session tt st) = tcp_sessions st @ fst (session_conns tt)"
  "udp_sessions (push_session tt st) = udp_sessions st @ snd (session_conns tt)"
  by (cases tt; simp)+

lemma session_conns_own: "set (fst (session_conns tt)) \<union> set (snd (session_conns tt)) \<subseteq> {tunnel_conn tt}"
  by (cases tt) simp_all

text \<open>A login that gets a tunnel had the password, and its tunnel is the connection's own.\<close>

lemma authenticated:
  assumes "authenticate_connection b os ipv6 config c login_stream = (Inr (tt :: nat tunnel_type, timeouts), k')"
  shows "\<exists>k s li s'. login_stream = Some (k, s) \<and> recv_from b s = Inr (ReqLogin li, s') \<and>
    li_password li = sc_password config \<and> tunnel_conn tt = c"
proof (cases login_stream)
  case None
  then show ?thesis using assms by (simp add: authenticate_connection_def)
next
  case (Some ks)
  then obtain k s where ks: "login_stream = Some (k, s)" by (cases ks) simp
  show ?thesis
  proof (cases "\<exists>li s'. recv_from b s = Inr (ReqLogin li, s')")
    case False
    then obtain e where "authenticate_connection b os ipv6 config c (Some (k, s)) =
        (Inl e :: auth_error + nat tunnel_type \<times> timeout_config, Some k)"
      using authenticate_no_login [of b s] by blast
    then show ?thesis using assms ks by simp
  next
    case True
    then obtain li s' where li: "recv_from b s = Inr (ReqLogin li, s')" by blast
    have pw: "li_password li = sc_password config"
    proof (rule ccontr)
      assume "li_password li \<noteq> sc_password config"
      then show False using assms by (simp add: ks authenticate_wrong_password [OF li])
    qed
    from assms obtain k1 where "login_tunnel b os config c li k = (Inr tt, k1)"
      unfolding ks authenticate_login [OF li pw] by (auto split: prod.splits sum.splits)
    with li pw ks show ?thesis using login_tunnel_Inr by blast
  qed
qed

lemma serve_connection_cases:
  obtains (refused) e where "serve_connection b os ipv6 c incoming sv = (Inl e, sv)"
  | (granted) k s li s' tt timeouts k' where
      "incoming = Some (Some (k, s))" and "recv_from b s = Inr (ReqLogin li, s')"
      and "li_password li = sc_password (sv_config sv)"
      and "authenticate_connection b os ipv6 (sv_config sv) c (Some (k, s)) = (Inr (tt :: nat tunnel_type, timeouts), k')"
      and "tunnel_conn tt = c"
      and "serve_connection b os ipv6 c incoming sv =
        (Inr tt, sv\<lparr>sv_tasks := sv_tasks sv @ [(LoggedIn, tt, timeouts)], granted := granted sv @ [(c, li)]\<rparr>)"
proof (cases incoming)
  case None
  then show ?thesis by (intro refused [of None]) (simp add: serve_connection_def)
next
  case (Some login_stream)
  obtain r k' where auth: "authenticate_connection b os ipv6 (sv_config sv) c login_stream =
      (r :: auth_error + nat tunnel_type \<times> timeout_config, k')" by (rule prod.exhaust)
  show ?thesis
  proof (cases r)
    case (Inl e)
    then show ?thesis using Some auth by (intro refused [of "Some e"]) (simp add: serve_connection_def)
  next
    case (Inr tto)
    then obtain tt timeouts where auth': "authenticate_connection b os ipv6 (sv_config sv) c login_stream =
        (Inr (tt :: nat tunnel_type, timeouts), k')" using auth by (cases tto) blast
    from authenticated [OF auth'] obtain k s li s' where li: "login_stream = Some (k, s)"
      "recv_from b s = Inr (ReqLogin li, s')" "li_password li = sc_password (sv_config sv)" "tunnel_conn tt = c"
      by blast
    show ?thesis
      using Some auth' li by (intro granted [of k s li s' tt timeouts k']) (simp_all add: serve_connection_def)
  qed
qed

text \<open>A task of the list that moves on to its next stage.\<close>

lemma task_moves:
  assumes "i < length ts"
  obtains stage tt timeouts where "ts ! i = (stage, tt, timeouts)" "(stage, tt, timeouts) \<in> set ts"
    "\<And>new. set (ts[i := (new, tt, timeouts)]) \<subseteq> insert (new, tt, timeouts) (set ts)"
  using assms set_update_subset_insert nth_mem [OF assms] by (metis prod_cases3)

lemma server_run_inv_step:
  assumes inv: "server_run_inv envs config sv" and step: "server_run_step envs sv sv'"
  shows "server_run_inv envs config sv'"
  using step inv
proof (cases rule: server_run_step.cases)
  case (binds env endpoint_ok)
  then show ?thesis using inv
    by (auto simp: bind_def Let_def server_run_inv_def split: option.split loading.split)
next
  case (reloads env)
  then show ?thesis using inv
    by (auto simp: reload_def server_run_inv_def split: loading.split)
next
  case serves
  then show ?thesis using inv by (auto simp: serve_def server_run_inv_def)
next
  case (connects b os ipv6 c incoming)
  show ?thesis
  proof (cases rule: serve_connection_cases [of b os ipv6 c incoming sv])
    case (refused e)
    then show ?thesis using connects inv by simp
  next
    case (granted k s li s' tt timeouts k')
    then show ?thesis using connects inv by (auto simp: server_run_inv_def)
  qed
next
  case (registers i)
  from registers(3) obtain stage tt to where t: "sv_tasks sv ! i = (stage, tt, to)"
    "(stage, tt, to) \<in> set (sv_tasks sv)"
    "\<And>new. set ((sv_tasks sv)[i := (new, tt, to)]) \<subseteq> insert (new, tt, to) (set (sv_tasks sv))"
    by (rule task_moves) blast
  have sub: "task_conn ` set (sv_tasks sv) \<subseteq> fst ` set (granted sv)" using inv by (simp add: server_run_inv_def)
  then have "tunnel_conn tt \<in> fst ` set (granted sv)" using t(2) by (metis image_subset_iff task_conn.simps)
  moreover have "task_conn ` set ((sv_tasks sv)[i := (Registered, tt, to)]) \<subseteq> fst ` set (granted sv)"
    by (rule order.trans [OF image_mono [OF t(3)]]) (use sub calculation in simp)
  ultimately show ?thesis using registers(1) inv t(1)
    by (simp add: server_run_inv_def register_task_def)
next
  case (runs i)
  from runs(3) obtain stage tt to where t: "sv_tasks sv ! i = (stage, tt, to)"
    "(stage, tt, to) \<in> set (sv_tasks sv)"
    "\<And>new. set ((sv_tasks sv)[i := (new, tt, to)]) \<subseteq> insert (new, tt, to) (set (sv_tasks sv))"
    by (rule task_moves) blast
  have sub: "task_conn ` set (sv_tasks sv) \<subseteq> fst ` set (granted sv)" using inv by (simp add: server_run_inv_def)
  then have own: "tunnel_conn tt \<in> fst ` set (granted sv)" using t(2) by (metis image_subset_iff task_conn.simps)
  have "task_conn ` set ((sv_tasks sv)[i := (Running, tt, to)]) \<subseteq> fst ` set (granted sv)"
    by (rule order.trans [OF image_mono [OF t(3)]]) (use sub own in simp)
  then show ?thesis using runs(1) inv t(1)
    by (simp add: server_run_inv_def run_task_def)
next
  case (closes c)
  then show ?thesis using inv by (simp add: server_run_inv_def)
next
  case (sweeps closed1 closed2 closed3)
  then show ?thesis using inv
    by (auto simp: server_run_inv_def sweep_def clear_expired_sessions_def)
qed

lemma mset_partition:
  assumes "mset opened = mset xs + mset quit"
  shows "mset opened = mset (filter (\<lambda>c. c \<notin> A) xs) + mset (quit @ filter (\<lambda>c. c \<in> A) xs)"
proof -
  have "mset xs = mset (filter (\<lambda>c. c \<notin> A) xs) + mset (filter (\<lambda>c. c \<in> A) xs)"
    by (induction xs) (simp_all del: mset_filter)
  with assms show ?thesis by (simp del: mset_filter)
qed

lemma sweep_sessions:
  assumes inv: "sessions_inv sv" and "sv_closed sv \<subseteq> A" "A \<subseteq> B" "B \<subseteq> C"
  shows "sessions_inv (sweep A B C sv)"
proof -
  let ?st = "sv_state sv"
  have "mset (tcp_opened sv) = mset (filter (\<lambda>c. c \<notin> C) (tcp_sessions ?st)) +
      mset (tcp_quit sv @ filter (\<lambda>c. c \<in> C) (tcp_sessions ?st))"
    using inv by (intro mset_partition) (simp only: sessions_inv_def)
  moreover have "mset (udp_opened sv) = mset (filter (\<lambda>c. c \<notin> B) (udp_sessions ?st)) +
      mset (udp_quit sv @ filter (\<lambda>c. c \<in> B) (udp_sessions ?st))"
    using inv by (intro mset_partition) (simp only: sessions_inv_def)
  moreover have "set (filter (\<lambda>c. c \<in> C) (tcp_sessions ?st)) \<union> set (filter (\<lambda>c. c \<in> B) (udp_sessions ?st)) \<subseteq> C"
    using assms(4) by auto
  moreover have "set (connections ?st) \<union> sv_closed sv \<subseteq> set (filter (\<lambda>c. c \<notin> A) (connections ?st)) \<union> C"
    using assms(2-4) by auto
  ultimately show ?thesis using inv assms(2-4)
    unfolding sessions_inv_def sweep_def clear_expired_sessions_def by simp blast
qed

lemma register_sessions:
  assumes inv: "sessions_inv sv" and i: "i < length (sv_tasks sv)"
  shows "sessions_inv (register_task i sv)"
proof -
  from i obtain stage tt to where t: "sv_tasks sv ! i = (stage, tt, to)"
    "\<And>new. set ((sv_tasks sv)[i := (new, tt, to)]) \<subseteq> insert (new, tt, to) (set (sv_tasks sv))"
    by (rule task_moves) blast
  have "\<forall>u \<in> set ((sv_tasks sv)[i := (Registered, tt, to)]). fst u \<noteq> LoggedIn \<longrightarrow>
      task_conn u \<in> set (connections (sv_state sv) @ [tunnel_conn tt]) \<union> sv_closed sv"
    using inv t(2) [of Registered] by (fastforce simp: sessions_inv_def)
  with inv t(1) show ?thesis
    unfolding sessions_inv_def register_task_def by (simp add: subset_iff)
qed

lemma run_sessions:
  assumes inv: "sessions_inv sv" and i: "i < length (sv_tasks sv)" "fst (sv_tasks sv ! i) \<noteq> LoggedIn"
  shows "sessions_inv (run_task i sv)"
proof -
  from i(1) obtain stage tt to where t: "sv_tasks sv ! i = (stage, tt, to)" "(stage, tt, to) \<in> set (sv_tasks sv)"
    "\<And>new. set ((sv_tasks sv)[i := (new, tt, to)]) \<subseteq> insert (new, tt, to) (set (sv_tasks sv))"
    by (rule task_moves) blast
  have own: "tunnel_conn tt \<in> set (connections (sv_state sv)) \<union> sv_closed sv"
    using inv t(1,2) i(2) by (fastforce simp: sessions_inv_def)
  have "\<forall>u \<in> set ((sv_tasks sv)[i := (Running, tt, to)]). fst u \<noteq> LoggedIn \<longrightarrow>
      task_conn u \<in> set (connections (sv_state sv)) \<union> sv_closed sv"
    using inv t(3) [of Running] own by (fastforce simp: sessions_inv_def)
  moreover have "set (fst (session_conns tt)) \<union> set (snd (session_conns tt)) \<subseteq>
      set (connections (sv_state sv)) \<union> sv_closed sv"
    using session_conns_own [of tt] own by blast
  ultimately show ?thesis using inv t(1)
    unfolding sessions_inv_def run_task_def by simp
qed

lemma sessions_inv_step:
  assumes inv: "sessions_inv sv" and step: "server_run_step envs sv sv'"
  shows "sessions_inv sv'"
  using step inv
proof (cases rule: server_run_step.cases)
  case (connects b os ipv6 c incoming)
  then show ?thesis using inv
    by (cases rule: serve_connection_cases [of b os ipv6 c incoming sv]) (auto simp: sessions_inv_def)
qed (auto simp: bind_def reload_def serve_def Let_def register_sessions run_sessions sweep_sessions
    split: option.split loading.split, auto simp: sessions_inv_def)

interpretation server_run: invariant_system "\<lambda>sv. sv = server_new config" "server_run_step envs" "server_run_inv envs config"
  for config envs
  by (rule invariant_system.intro)
    (simp_all add: server_run_inv_step, simp add: server_run_inv_def server_new_def server_state_new_def)

interpretation server_sessions: invariant_system "\<lambda>sv. sv = server_new config" "server_run_step envs" sessions_inv
  for config envs
  by (rule invariant_system.intro)
    (simp_all add: sessions_inv_step, simp add: sessions_inv_def server_new_def server_state_new_def)

text \<open>What a loaded configuration holds.\<close>

lemma load_Loaded:
  "load_quinn_server_config env config = Loaded q \<Longrightarrow>
     read_certs_and_key env (sc_cert_path config) (sc_key_path config) = Inr (qc_certs q, qc_key q) \<and>
     single_cert_ok env (qc_certs q) (qc_key q) \<and>
     qc_transport q = build_quic_transport_config (transport_default env) (sc_quic_timeout_ms config)
       (sc_quic_receive_window config) (sc_stream_receive_window config) (sc_quic_send_window config)"
  by (auto simp: load_quinn_server_config_def split: sum.splits if_splits)

lemma reload_endpoint:
  "sv_endpoint (reload env sv) =
     (case load_quinn_server_config env (sv_config sv) of
        Loaded q \<Rightarrow> map_option (\<lambda>(addr, _). (addr, q)) (sv_endpoint sv)
      | _ \<Rightarrow> sv_endpoint sv)"
  by (simp add: reload_def split: loading.split)

section \<open>Properties\<close>

text \<open>
  C14. The life of a server, in every state it can reach by binding, daily reloads, serving,
  connections and clean-ups, whatever the certificate files hold at each of these moments:
  every connection in its table logged in with the server's password; the endpoint listens
  on the configured address with a certificate and key that were read together, fit each
  other, and carry the configured transport parameters; a reload that does not load leaves
  the endpoint's configuration as it was, and one that loads replaces it; and the accept
  loop of a bound endpoint can be started once.
\<close>

theorem server_life:
  assumes "reachable (\<lambda>sv. sv = server_new config) (server_run_step envs) sv"
  shows "(\<forall>c \<in> set (connections (sv_state sv)).
      \<exists>li. (c, li) \<in> set (granted sv) \<and> li_password li = sc_password config) \<and>
    (\<forall>addr q. sv_endpoint sv = Some (addr, q) \<longrightarrow>
      parse_socket_addr (sc_addr config) = Some addr \<and>
      (\<exists>env \<in> envs. read_certs_and_key env (sc_cert_path config) (sc_key_path config) = Inr (qc_certs q, qc_key q) \<and>
        single_cert_ok env (qc_certs q) (qc_key q) \<and>
        qc_transport q = build_quic_transport_config (transport_default env) (sc_quic_timeout_ms config)
          (sc_quic_receive_window config) (sc_stream_receive_window config) (sc_quic_send_window config))) \<and>
    (\<forall>env. sv_endpoint (reload env sv) =
      (case load_quinn_server_config env config of
         Loaded q \<Rightarrow> map_option (\<lambda>(addr, _). (addr, q)) (sv_endpoint sv)
       | _ \<Rightarrow> sv_endpoint sv)) \<and>
    \<not> fst (serve (snd (serve sv)))"
proof (intro conjI allI impI ballI)
  have inv: "server_run_inv envs config sv" by (rule server_run.reachable_inv [OF assms])
  show "\<exists>li. (c, li) \<in> set (granted sv) \<and> li_password li = sc_password config"
    if "c \<in> set (connections (sv_state sv))" for c
  proof -
    from inv have "c \<in> fst ` set (granted sv)" "\<forall>e \<in> set (granted sv). li_password (snd e) = sc_password config"
      using that by (auto simp: server_run_inv_def)
    then show ?thesis by force
  qed
  show "sv_endpoint (reload env sv) =
      (case load_quinn_server_config env config of
         Loaded q \<Rightarrow> map_option (\<lambda>(addr, _). (addr, q)) (sv_endpoint sv)
       | _ \<Rightarrow> sv_endpoint sv)" for env
    using inv by (simp add: reload_endpoint server_run_inv_def)
  show "\<not> fst (serve (snd (serve sv)))" by (simp add: serve_def)
  fix addr q
  assume q: "sv_endpoint sv = Some (addr, q)"
  with inv show "parse_socket_addr (sc_addr config) = Some addr" by (simp add: server_run_inv_def)
  from inv q obtain env where "env \<in> envs" "load_quinn_server_config env config = Loaded q"
    by (auto simp: server_run_inv_def)
  then show "\<exists>env \<in> envs. read_certs_and_key env (sc_cert_path config) (sc_key_path config) = Inr (qc_certs q, qc_key q) \<and>
        single_cert_ok env (qc_certs q) (qc_key q) \<and>
        qc_transport q = build_quic_transport_config (transport_default env) (sc_quic_timeout_ms config)
          (sc_quic_receive_window config) (sc_stream_receive_window config) (sc_quic_send_window config)"
    by (intro bexI [of _ env]) (rule load_Loaded)
qed

text \<open>A server with a self-signed certificate that serves the login of the examples.\<close>

definition example_server_env :: "(nat, nat) server_env" where
  "example_server_env =
     \<lparr>sv_pem = \<lparr>pem_file = (\<lambda>_. None), pem_certs = (\<lambda>_. []), pem_read_one = (\<lambda>_. Inr None)\<rparr>,
      self_signed = (\<lambda>_. Some (5, 6)), single_cert_ok = (\<lambda>certs _. certs \<noteq> []), quic_crypto_ok = True,
      transport_default =
        \<lparr>tr_stream_receive_window = 1, tr_receive_window = 1, tr_send_window = 1,
         tr_max_concurrent_bidi_streams = 1, tr_max_idle_timeout = None, tr_keep_alive_interval = None,
         tr_congestion = Bbr\<rparr>\<rparr>"

definition example_bound :: "(nat, nat) server" where
  "example_bound = snd (bind example_server_env (\<lambda>_. True) (server_new example_server))"

definition example_serving :: "(nat, nat) server" where
  "example_serving = snd (serve example_bound)"

definition example_logged_in :: "(nat, nat) server" where
  "example_logged_in = snd (serve_connection login_bincode no_sockets False 7
     (Some (Some (open_sink, \<lparr>avail = [0, 0, 0, 1, 1], tail_of = Stalled\<rparr>))) example_serving)"

definition example_served :: "(nat, nat) server" where
  "example_served = register_task 0 example_logged_in"

lemma example_addr: "parse_socket_addr ''0.0.0.0:3515'' = Some (V4 0 3515)"
proof -
  have "read_octets (Suc (Suc (Suc (Suc 0)))) True 0 ''0.0.0.0:3515'' = Some (0, '':3515'')"
    by (simp add: addr_parser_defs)
  then have "read_octets 4 True 0 ''0.0.0.0:3515'' = Some (0, '':3515'')" by (simp add: numeral_eq_Suc)
  then show ?thesis by (simp add: addr_parser_defs)
qed

lemma example_serving_state:
  "sv_serving example_serving \<and> \<not> sv_poisoned example_serving \<and> sv_tasks example_serving = [] \<and>
   sv_config example_serving = example_server \<and> sv_state example_serving = server_state_new \<and> granted example_serving = []"
proof -
  have a: "parse_socket_addr (sc_addr example_server) = Some (V4 0 3515)"
    by (simp add: example_server_def example_addr)
  obtain q where "load_quinn_server_config example_server_env example_server = Loaded q"
    by (simp add: load_quinn_server_config_def read_certs_and_key_def example_server_env_def example_server_def)
  with a show ?thesis
    by (simp add: example_serving_def example_bound_def bind_def server_new_def serve_def Let_def)
qed

lemma example_logged_in_state:
  "\<not> sv_poisoned example_logged_in \<and> connections (sv_state example_logged_in) = [] \<and>
   sv_tasks example_logged_in =
     [(LoggedIn, DynamicUpstreamTcpOut 7, \<lparr>to_tcp_ms = 60000, to_udp_ms = 5000\<rparr>)]"
proof -
  have pw: "li_password (example_login ''pw'') = sc_password example_server"
    by (simp add: example_login_def example_server_def)
  obtain k' where a: "authenticate_connection login_bincode no_sockets False example_server 7
      (Some (open_sink, \<lparr>avail = [0, 0, 0, 1, 1], tail_of = Stalled\<rparr>)) =
      (Inr (DynamicUpstreamTcpOut 7 :: nat tunnel_type, \<lparr>to_tcp_ms = 60000, to_udp_ms = 5000\<rparr>), k')"
    unfolding authenticate_login [OF recv_example_login(1) pw]
    by (simp add: login_tunnel_def example_login_def login_bincode_def send_to_def open_sink_def
        example_server_def effective_timeout_def)
  have "connections server_state_new = []" by (simp add: server_state_new_def)
  then show ?thesis
    by (simp add: example_logged_in_def serve_connection_def example_serving_state a)
qed

lemma example_served_connections: "connections (sv_state example_served) = [7]"
  using example_logged_in_state by (simp add: example_served_def register_task_def)

lemma example_serving_history:
  "sv_closed example_serving = {} \<and> tcp_quit example_serving = [] \<and> udp_quit example_serving = [] \<and>
   tcp_opened example_serving = []"
  by (simp add: example_serving_def example_bound_def serve_def bind_def server_new_def Let_def
      split: option.split loading.split)

lemma example_serving_reachable:
  "reachable (\<lambda>sv. sv = server_new example_server) (server_run_step {example_server_env}) example_serving"
proof -
  have "reachable (\<lambda>sv. sv = server_new example_server) (server_run_step {example_server_env}) example_bound"
    unfolding example_bound_def by (rule reach_step [OF reach_init]) (rule refl, rule binds, simp)
  then show ?thesis
    unfolding example_serving_def by (rule reach_step) (rule serves)
qed

lemma example_logged_in_reachable:
  "reachable (\<lambda>sv. sv = server_new example_server) (server_run_step {example_server_env}) example_logged_in"
  unfolding example_logged_in_def
  by (rule reach_step [OF example_serving_reachable]) (rule connects; simp add: example_serving_state)

theorem server_life_witness:
  "connections (sv_state example_served) = [7] \<and>
   (\<exists>li. (7, li) \<in> set (granted example_served) \<and> li_password li = ''pw'') \<and>
   \<not> fst (serve (snd (serve example_served)))"
proof -
  have r: "reachable (\<lambda>sv. sv = server_new example_server) (server_run_step {example_server_env}) example_served"
    unfolding example_served_def
    by (rule reach_step [OF example_logged_in_reachable])
      (rule registers; simp add: example_logged_in_state)
  show ?thesis
    using server_life [OF r] example_served_connections by (simp add: example_server_def)
qed

text \<open>
  C29. Inbound sessions and the clean-up, in every state a server reaches while logins,
  connections that close at any moment and clean-ups interleave, a connection's task taking
  the lock once for its connection and again for its session: every session opened is either
  in the table or has had its listener told to quit, each exactly once, and only sessions of closed
  connections were; the connection of a session in the table, and of every task past its
  first lock, is in the table of connections unless it closed; a clean-up leaves nothing of
  the connections that were closed when it began, tells the listeners of all their sessions
  to quit, and keeps every connection that is still open when it ends, and its sessions.
\<close>

theorem expired_sessions_cleared:
  assumes "reachable (\<lambda>sv. sv = server_new config) (server_run_step envs) sv"
    and "sv_closed sv \<subseteq> closed1" "closed1 \<subseteq> closed2" "closed2 \<subseteq> closed3"
    and "sv' = sweep closed1 closed2 closed3 sv"
  shows "mset (tcp_opened sv) = mset (tcp_sessions (sv_state sv)) + mset (tcp_quit sv) \<and>
    mset (udp_opened sv) = mset (udp_sessions (sv_state sv)) + mset (udp_quit sv) \<and>
    set (tcp_quit sv) \<union> set (udp_quit sv) \<subseteq> sv_closed sv \<and>
    set (tcp_sessions (sv_state sv)) \<union> set (udp_sessions (sv_state sv)) \<subseteq>
      set (connections (sv_state sv)) \<union> sv_closed sv \<and>
    (\<forall>t \<in> set (sv_tasks sv). fst t \<noteq> LoggedIn \<longrightarrow>
      task_conn t \<in> set (connections (sv_state sv)) \<union> sv_closed sv) \<and>
    (set (connections (sv_state sv')) \<union> set (tcp_sessions (sv_state sv')) \<union>
       set (udp_sessions (sv_state sv'))) \<inter> sv_closed sv = {} \<and>
    mset (tcp_opened sv') = mset (tcp_sessions (sv_state sv')) + mset (tcp_quit sv') \<and>
    mset (udp_opened sv') = mset (udp_sessions (sv_state sv')) + mset (udp_quit sv') \<and>
    set (connections (sv_state sv)) - closed3 \<subseteq> set (connections (sv_state sv')) \<and>
    set (tcp_sessions (sv_state sv)) - closed3 \<subseteq> set (tcp_sessions (sv_state sv')) \<and>
    set (udp_sessions (sv_state sv)) - closed3 \<subseteq> set (udp_sessions (sv_state sv'))"
proof -
  have inv: "sessions_inv sv" by (rule server_sessions.reachable_inv [OF assms(1)])
  have inv': "sessions_inv sv'" unfolding assms(5) by (rule sweep_sessions [OF inv assms(2-4)])
  have swept: "set (connections (sv_state sv')) = set (connections (sv_state sv)) - closed1"
    "set (tcp_sessions (sv_state sv')) = set (tcp_sessions (sv_state sv)) - closed3"
    "set (udp_sessions (sv_state sv')) = set (udp_sessions (sv_state sv)) - closed2"
    by (auto simp: assms(5) sweep_def clear_expired_sessions_def)
  have "(set (connections (sv_state sv')) \<union> set (tcp_sessions (sv_state sv')) \<union>
       set (udp_sessions (sv_state sv'))) \<inter> sv_closed sv = {}"
    "set (connections (sv_state sv)) - closed3 \<subseteq> set (connections (sv_state sv'))"
    "set (tcp_sessions (sv_state sv)) - closed3 \<subseteq> set (tcp_sessions (sv_state sv'))"
    "set (udp_sessions (sv_state sv)) - closed3 \<subseteq> set (udp_sessions (sv_state sv'))"
    unfolding swept using assms(2-4) by blast+
  then show ?thesis using inv inv' unfolding sessions_inv_def by blast
qed

text \<open>
  The login of an inbound TCP tunnel, and a server in which the clean-up runs between the two
  locks of its task: the connection closes and leaves the table before the session enters it.
\<close>

definition inbound_login :: login_info where
  "inbound_login = \<lparr>li_password = ''pw'',
     li_tunnel = NetworkBased \<lparr>tc_mode = TIn, local_server_addr = None,
       tc_upstream = \<lparr>upstream_addr = Some (V4 localhost_v4 8080), upstream_kind = Tcp\<rparr>\<rparr>,
     li_tcp_timeout_ms = 0, li_udp_timeout_ms = 0\<rparr>"

definition inbound_bincode :: bincode where
  "inbound_bincode = \<lparr>encode_to_vec = (\<lambda>_. Some [9]),
     decode_from_slice = (\<lambda>bs. if bs = [1] then Some (ReqLogin inbound_login, 1) else None)\<rparr>"

definition late_logged_in :: "(nat, nat) server" where
  "late_logged_in = snd (serve_connection inbound_bincode \<lparr>bind_tcp = Some, bind_udp = Some\<rparr> False 3
     (Some (Some (open_sink, \<lparr>avail = [0, 0, 0, 1, 1], tail_of = Stalled\<rparr>))) example_serving)"

definition late_session :: "(nat, nat) server" where
  "late_session = run_task 0 (sweep {3} {3} {3} (register_task 0 late_logged_in))"

lemma late_logged_in_state:
  "\<not> sv_poisoned late_logged_in \<and> sv_state late_logged_in = server_state_new \<and> sv_closed late_logged_in = {} \<and>
   tcp_quit late_logged_in = [] \<and> udp_quit late_logged_in = [] \<and> tcp_opened late_logged_in = [] \<and>
   (\<exists>srv to. sv_tasks late_logged_in = [(LoggedIn, TcpIn 3 srv, to)])"
proof -
  let ?s = "\<lparr>avail = [0, 0, 0, 1, 1], tail_of = Stalled\<rparr>"
  have recv: "recv_from inbound_bincode ?s = Inr (ReqLogin inbound_login, \<lparr>avail = [], tail_of = Stalled\<rparr>)"
    by (simp add: recv_from_def read_exact_def byte_simps MAX_TUNNEL_MESSAGE_SIZE_def inbound_bincode_def)
  have pw: "li_password inbound_login = sc_password example_server"
    by (simp add: inbound_login_def example_server_def)
  have "login_tunnel inbound_bincode \<lparr>bind_tcp = Some, bind_udp = Some\<rparr> example_server 3 inbound_login open_sink =
      (Inr (TcpIn 3 example_tcp), open_sink)"
    by (simp add: login_tunnel_def inbound_login_def derive_tunnel_type_def obtain_upstream_addr_def
        tcp_bind_and_start_def example_tcp_def localhost_v4_def)
  moreover obtain k' where "send_to inbound_bincode open_sink (RespSuccess \<lparr>ipv6_supported = False\<rparr>) = (Inr (), k')"
    by (simp add: inbound_bincode_def send_to_def open_sink_def)
  ultimately obtain to where a: "authenticate_connection inbound_bincode \<lparr>bind_tcp = Some, bind_udp = Some\<rparr> False
      example_server 3 (Some (open_sink, ?s)) = (Inr (TcpIn 3 example_tcp, to), Some k')"
    unfolding authenticate_login [OF recv pw] by simp
  have "sv_closed example_serving = {}" "tcp_quit example_serving = []" "udp_quit example_serving = []"
    "tcp_opened example_serving = []" using example_serving_history by simp_all
  with a show ?thesis by (simp add: late_logged_in_def serve_connection_def example_serving_state)
qed

lemma late_session_state:
  "connections (sv_state late_session) = [] \<and> tcp_sessions (sv_state late_session) = [3] \<and>
   sv_closed late_session = {3} \<and> tcp_quit late_session = [] \<and> tcp_opened late_session = [3]"
proof -
  obtain srv to where "sv_tasks late_logged_in = [(LoggedIn, TcpIn 3 srv, to)]"
    using late_logged_in_state by blast
  then show ?thesis using late_logged_in_state
    by (simp add: late_session_def run_task_def sweep_def register_task_def clear_expired_sessions_def
        server_state_new_def)
qed

lemma late_session_reachable:
  "reachable (\<lambda>sv. sv = server_new example_server) (server_run_step {example_server_env}) late_session"
proof -
  let ?r = "reachable (\<lambda>sv. sv = server_new example_server) (server_run_step {example_server_env})"
  obtain srv to where t: "sv_tasks late_logged_in = [(LoggedIn, TcpIn 3 srv, to)]"
    using late_logged_in_state by blast
  note st = late_logged_in_state t
  have "?r late_logged_in" unfolding late_logged_in_def
    by (rule reach_step [OF example_serving_reachable]) (rule connects; simp add: example_serving_state)
  then have "?r (register_task 0 late_logged_in)"
    by (rule reach_step) (rule registers; simp add: st)
  then have "?r (sweep {3} {3} {3} (register_task 0 late_logged_in))"
    by (rule reach_step) (rule sweeps; simp add: register_task_def st)
  then show ?thesis unfolding late_session_def
    by (rule reach_step) (rule runs; simp add: sweep_def clear_expired_sessions_def register_task_def st)
qed

theorem expired_sessions_cleared_witness:
  "connections (sv_state late_session) = [] \<and> tcp_sessions (sv_state late_session) = [3] \<and>
   tcp_sessions (sv_state (sweep {3} {3} {3} late_session)) = [] \<and>
   mset (tcp_quit (sweep {3} {3} {3} late_session)) = {#3#}"
proof -
  have c: "sv_closed late_session \<subseteq> {3}" "tcp_sessions (sv_state (sweep {3} {3} {3} late_session)) = []"
    "tcp_opened (sweep {3} {3} {3} late_session) = [3]"
    using late_session_state by (simp_all add: sweep_def clear_expired_sessions_def)
  from expired_sessions_cleared [OF late_session_reachable c(1) order.refl order.refl refl] c(2,3) late_session_state
  show ?thesis by simp
qed

end
