(* ===== verification/Client_Net.thy ===== *)
theory Client_Net
  imports Config Pem
begin

text \<open>
  The part of \<^verbatim>\<open>src/src/client.rs\<close> that decides whom the client connects to: the
  server name it sends and the one it verifies, the certificate verifiers, the resolution of
  the server address, and the timing of connection attempts. TLS (rustls and the platform
  verifier) and DNS resolution are parameters.
\<close>

section \<open>Server names\<close>

fun sanitize_sni_names :: "(string \<Rightarrow> server_name option) \<Rightarrow> string list \<Rightarrow> string list" where
  "sanitize_sni_names sn [] = []"
| "sanitize_sni_names sn (name # names) =
     (let trimmed = trim name
      in if trimmed = [] then sanitize_sni_names sn names
         else case sn trimmed of
                Some DnsName \<Rightarrow> trimmed # sanitize_sni_names sn names
              | _ \<Rightarrow> sanitize_sni_names sn names)"

text \<open>The rotation counter is a \<^verbatim>\<open>usize\<close> that wraps.\<close>

definition select_sni_name :: "string list \<Rightarrow> usize \<Rightarrow> string \<Rightarrow> string \<times> usize" where
  "select_sni_name names sni_rotation verify_name =
     (if names = [] then (verify_name, sni_rotation)
      else (names ! (unat sni_rotation mod length names), sni_rotation + 1))"

section \<open>Certificate verification\<close>

text \<open>
  A verifier decides on the certificate the server shows for a server name, and on the
  handshake signatures of TLS 1.2 and 1.3.
\<close>

record ('cert, 'sig) verifier =
  verify_server_cert :: "'cert \<Rightarrow> string \<Rightarrow> bool"
  verify_tls12 :: "'sig \<Rightarrow> bool"
  verify_tls13 :: "'sig \<Rightarrow> bool"

record ('cert, 'sig) tls_env =
  platform_verifier :: "('cert, 'sig) verifier option"
  roots_verifier :: "'cert list \<Rightarrow> ('cert, 'sig) verifier"
  roots_buildable :: "'cert list \<Rightarrow> bool"
  tls_pem :: "'cert pem_env"
  addable_root :: "'cert \<Rightarrow> bool"
  crypto_tls12 :: "'sig \<Rightarrow> bool"
  name_class :: "string \<Rightarrow> server_name option"

definition insecure_cert_verifier :: "('cert, 'sig) tls_env \<Rightarrow> ('cert, 'sig) verifier" where
  "insecure_cert_verifier env =
     \<lparr>verify_server_cert = (\<lambda>_ _. True), verify_tls12 = crypto_tls12 env,
      verify_tls13 = crypto_tls12 env\<rparr>"

definition custom_sni_verifier ::
    "('cert, 'sig) verifier \<Rightarrow> string \<Rightarrow> ('cert, 'sig) verifier" where
  "custom_sni_verifier inner real_name =
     \<lparr>verify_server_cert = (\<lambda>cert _. verify_server_cert inner cert real_name),
      verify_tls12 = verify_tls12 inner, verify_tls13 = verify_tls13 inner\<rparr>"

datatype tls_error =
  NoPlatformVerifier | CertReadFailed | NoCertificates | RootRejected | NoRootsVerifier
  | InvalidVerifyName string

definition wrap_with_custom_sni_verifier ::
    "('cert, 'sig) tls_env \<Rightarrow> ('cert, 'sig) verifier \<Rightarrow> string \<Rightarrow> tls_error + ('cert, 'sig) verifier" where
  "wrap_with_custom_sni_verifier env inner verify_name =
     (case name_class env verify_name of
        None \<Rightarrow> Inl (InvalidVerifyName verify_name)
      | Some _ \<Rightarrow> Inr (custom_sni_verifier inner verify_name))"

definition is_ip_addr :: "string \<Rightarrow> bool" where
  "is_ip_addr addr \<longleftrightarrow> parse_socket_addr addr \<noteq> None"

text \<open>The text before the last colon, or all of it.\<close>

definition host_part :: "string \<Rightarrow> string" where
  "host_part addr = (case rsplit_once CHR '':'' addr of Some (host, _) \<Rightarrow> host | None \<Rightarrow> addr)"

definition with_sni ::
    "('cert, 'sig) tls_env \<Rightarrow> client_config \<Rightarrow> ('cert, 'sig) verifier \<Rightarrow> string \<Rightarrow>
     tls_error + ('cert, 'sig) verifier" where
  "with_sni env cfg inner verify_name =
     (if sni_names cfg = [] then Inr inner
      else wrap_with_custom_sni_verifier env inner verify_name)"

definition parse_client_config_and_domain ::
    "('cert, 'sig) tls_env \<Rightarrow> client_config \<Rightarrow> tls_error + ('cert, 'sig) verifier \<times> string" where
  "parse_client_config_and_domain env cfg =
     (let domain = host_part (server_addr cfg)
      in if cert_path cfg = [] then
           (if \<not> is_ip_addr (server_addr cfg) then
              (case platform_verifier env of
                 None \<Rightarrow> Inl NoPlatformVerifier
               | Some inner \<Rightarrow> try_then (with_sni env cfg inner domain) (\<lambda>v. Inr (v, domain)))
            else Inr (insecure_cert_verifier env, ''localhost''))
         else
           (case load_certificates_from_pem (tls_pem env) (cert_path cfg) of
              Inl _ \<Rightarrow> Inl CertReadFailed
            | Inr certs \<Rightarrow>
                if certs = [] then Inl NoCertificates
                else if \<not> list_all (addable_root env) certs then Inl RootRejected
                else if sni_names cfg \<noteq> [] \<and> \<not> roots_buildable env certs then Inl NoRootsVerifier
                else try_then (with_sni env cfg (roots_verifier env certs) domain)
                       (\<lambda>v. Inr (v, domain))))"

section \<open>The address of the server\<close>

definition DEFAULT_SERVER_PORT :: u16 where
  "DEFAULT_SERVER_PORT = 3515"

datatype lookup_strategy = Ipv4thenIpv6 | Ipv4Only

datatype query_ordering = QueryStatistics | UserProvidedOrder

record dns_config =
  strategy :: lookup_strategy
  num_concurrent_reqs :: nat
  ordering :: query_ordering

text \<open>
  A resolver is given the DoT server, the name servers (none of either means the system's
  resolver), the settings and the name.
\<close>

type_synonym resolver = "string \<Rightarrow> string list \<Rightarrow> dns_config \<Rightarrow> string \<Rightarrow> ip_addr option"

definition server_lookup_dns_config :: "bool \<Rightarrow> dns_config" where
  "server_lookup_dns_config ipv6 =
     \<lparr>strategy = (if ipv6 then Ipv4thenIpv6 else Ipv4Only), num_concurrent_reqs = 3,
      ordering = QueryStatistics\<rparr>"

definition filter_name_servers :: "string list \<Rightarrow> bool \<Rightarrow> string list" where
  "filter_name_servers name_servers ipv6 =
     (if ipv6 then name_servers
      else filter (\<lambda>entry. case parse_ip_addr entry of Some (IpV6 _) \<Rightarrow> False | _ \<Rightarrow> True) name_servers)"

definition lookup_server_ip ::
    "resolver \<Rightarrow> bool \<Rightarrow> string \<Rightarrow> string \<Rightarrow> string list \<Rightarrow> ip_addr option" where
  "lookup_server_ip res ipv6 domain dot_server name_servers =
     (let dns_config = server_lookup_dns_config ipv6;
          servers = filter_name_servers name_servers ipv6
      in if dot_server \<noteq> [] then res dot_server [] dns_config domain
         else if servers \<noteq> [] then res [] servers dns_config domain
         else res [] [] dns_config domain)"

datatype addr_error = InvalidAddress string | Unresolved string

fun first_dot :: "resolver \<Rightarrow> bool \<Rightarrow> string \<Rightarrow> string list \<Rightarrow> ip_addr option" where
  "first_dot res ipv6 domain [] = None"
| "first_dot res ipv6 domain (dot # dots) =
     (case lookup_server_ip res ipv6 domain dot [] of
        Some ip \<Rightarrow> Some ip
      | None \<Rightarrow> first_dot res ipv6 domain dots)"

definition resolve_server ::
    "resolver \<Rightarrow> bool \<Rightarrow> client_config \<Rightarrow> string \<Rightarrow> ip_addr option" where
  "resolve_server res ipv6 cfg domain =
     (case first_dot res ipv6 domain (dot_servers cfg) of
        Some ip \<Rightarrow> Some ip
      | None \<Rightarrow>
          (case lookup_server_ip res ipv6 domain [] (dns_servers cfg) of
             Some ip \<Rightarrow> Some ip
           | None \<Rightarrow> lookup_server_ip res ipv6 domain [] []))"

definition parse_server_addr ::
    "resolver \<Rightarrow> bool \<Rightarrow> client_config \<Rightarrow> addr_error + socket_addr" where
  "parse_server_addr res ipv6 cfg =
     (let addr = server_addr cfg
      in case parse_socket_addr addr of
           Some sa \<Rightarrow> Inr sa
         | None \<Rightarrow>
             try_then
               (case rsplit_once CHR '':'' addr of
                  None \<Rightarrow> Inr (addr, DEFAULT_SERVER_PORT)
                | Some (host, text) \<Rightarrow>
                    (case parse_u16 text of
                       None \<Rightarrow> Inl (InvalidAddress addr)
                     | Some port \<Rightarrow> Inr (host, port)))
               (\<lambda>(domain, port).
                  case resolve_server res ipv6 cfg domain of
                    Some ip \<Rightarrow> Inr (socket_addr_new ip port)
                  | None \<Rightarrow> Inl (Unresolved domain)))"

section \<open>Timing of attempts\<close>

definition RETRY_BACKOFF_MIN_MS :: u64 where
  "RETRY_BACKOFF_MIN_MS = 300"

definition CONNECT_TIMEOUT_MIN_SECS :: u64 where
  "CONNECT_TIMEOUT_MIN_SECS = 3"

definition CONNECT_TIMEOUT_MAX_SECS :: u64 where
  "CONNECT_TIMEOUT_MAX_SECS = 15"

definition retry_min_backoff_delay :: u64 where
  "retry_min_backoff_delay = RETRY_BACKOFF_MIN_MS"

definition retry_max_backoff_delay :: "client_config \<Rightarrow> u64" where
  "retry_max_backoff_delay cfg = max (wait_before_retry_ms cfg) RETRY_BACKOFF_MIN_MS"

definition connect_attempt_timeout_for :: "usize \<Rightarrow> u64" where
  "connect_attempt_timeout_for attempt =
     (let shift = unat (min attempt 63)
      in min (saturating_mul CONNECT_TIMEOUT_MIN_SECS (push_bit shift 1)) CONNECT_TIMEOUT_MAX_SECS)"

section \<open>Properties\<close>

lemma unat_min: "unat (min x y) = min (unat x) (unat (y :: 'a::len word))"
  by (simp add: min_def word_le_nat_alt)

lemma unat_push_bit_one:
  assumes "n < 64"
  shows "unat (push_bit n (1 :: u64)) = 2 ^ n"
proof -
  have "push_bit n (1 :: u64) = word_of_nat (2 ^ n)" by (simp add: push_bit_eq_mult)
  moreover have "(2 :: nat) ^ n < 2 ^ 64" using assms by (intro power_strict_increasing) simp_all
  ultimately show ?thesis by (simp add: unat_of_nat del: of_nat_power)
qed

lemma connect_timeout_value:
  "unat (connect_attempt_timeout_for attempt) = min (3 * 2 ^ min (unat attempt) 63) 15"
proof -
  let ?n = "unat (min attempt 63)"
  have n: "?n = min (unat attempt) 63" by (simp add: unat_min)
  then have "?n < 64" by simp
  then have p: "unat (push_bit ?n (1 :: u64)) = 2 ^ ?n" by (rule unat_push_bit_one)
  have "unat (connect_attempt_timeout_for attempt) = min (min (3 * 2 ^ ?n) (2 ^ 64 - 1)) 15"
    using p by (simp add: connect_attempt_timeout_for_def Let_def unat_min unat_saturating_mul
        CONNECT_TIMEOUT_MIN_SECS_def CONNECT_TIMEOUT_MAX_SECS_def)
  also have "\<dots> = min (3 * 2 ^ ?n) 15" by simp
  finally show ?thesis using n by simp
qed

text \<open>
  The timeout of a connection attempt doubles from 3 seconds and is capped at 15: it is
  3, 6, 12 and then 15 seconds, never outside 3 to 15 and never decreasing, for every attempt
  number up to the largest one; the shift and the multiplication never overflow.
\<close>

lemma attempt_timeout_bounds:
  "unat (connect_attempt_timeout_for attempt) =
     (if attempt = 0 then 3 else if attempt = 1 then 6 else if attempt = 2 then 12 else 15)"
proof -
  have w: "attempt = 0 \<longleftrightarrow> unat attempt = 0" "attempt = 1 \<longleftrightarrow> unat attempt = 1"
    "attempt = 2 \<longleftrightarrow> unat attempt = 2" by (simp_all add: word_unat_eq_iff)
  consider "unat attempt = 0" | "unat attempt = 1" | "unat attempt = 2" | "3 \<le> unat attempt"
    by linarith
  then show ?thesis
  proof cases
    case 4
    then have "(2 :: nat) ^ 3 \<le> 2 ^ min (unat attempt) 63" by (intro power_increasing) simp_all
    then have "min (3 * 2 ^ min (unat attempt) 63) 15 = (15 :: nat)" by simp
    with 4 show ?thesis unfolding w connect_timeout_value by simp
  qed (unfold w connect_timeout_value, simp_all)
qed

text \<open>
  C19. Whatever name the client puts on the wire, the certificate is judged by the configured
  trust (the platform's, or the given roots) against the host part of the configured server
  address. Verification is skipped in exactly one case: no certificate was given and the
  server address is an IP address with a port; then every certificate passes.
\<close>

theorem server_identity_checked:
  assumes "parse_client_config_and_domain env cfg = Inr (v, name)"
    and "select_sni_name (sni_names cfg) rotation name = (sni, rotation')"
  shows "if cert_path cfg = [] \<and> is_ip_addr (server_addr cfg)
         then verify_server_cert v cert sni
         else name = host_part (server_addr cfg) \<and>
           (\<exists>trust. (if cert_path cfg = [] then platform_verifier env = Some trust
               else \<exists>certs. load_certificates_from_pem (tls_pem env) (cert_path cfg) = Inr certs \<and>
                 certs \<noteq> [] \<and> roots_verifier env certs = trust) \<and>
             verify_server_cert v cert sni =
               verify_server_cert trust cert (host_part (server_addr cfg)) \<and>
             verify_tls13 v = verify_tls13 trust)"
proof -
  let ?host = "host_part (server_addr cfg)"
  have sni: "verify_server_cert v cert sni = verify_server_cert inner cert ?host \<and>
      verify_tls13 v = verify_tls13 inner \<and> name = ?host"
    if "try_then (with_sni env cfg inner ?host) (\<lambda>v. Inr (v, ?host)) = Inr (v, name)" for inner
  proof (cases "sni_names cfg = []")
    case True
    with that assms(2) show ?thesis by (auto simp: with_sni_def select_sni_name_def)
  next
    case False
    with that show ?thesis
      by (auto simp: with_sni_def wrap_with_custom_sni_verifier_def custom_sni_verifier_def
          split: option.splits elim!: try_then_InrE)
  qed
  show ?thesis
  proof (cases "cert_path cfg = []")
    case True
    then show ?thesis
      using assms(1) sni
      by (auto simp: parse_client_config_and_domain_def Let_def insecure_cert_verifier_def
          split: option.splits if_splits)
  next
    case False
    then obtain certs where "load_certificates_from_pem (tls_pem env) (cert_path cfg) = Inr certs"
      "certs \<noteq> []"
      "try_then (with_sni env cfg (roots_verifier env certs) ?host) (\<lambda>v. Inr (v, ?host)) = Inr (v, name)"
      using assms(1) by (auto simp: parse_client_config_and_domain_def Let_def
          split: sum.splits if_splits)
    with sni [OF this(3)] False show ?thesis by auto
  qed
qed

definition sample_env :: "(string, nat) tls_env" where
  "sample_env =
     \<lparr>platform_verifier = Some \<lparr>verify_server_cert = (=), verify_tls12 = (\<lambda>_. True),
        verify_tls13 = (\<lambda>_. True)\<rparr>,
      roots_verifier = (\<lambda>certs. \<lparr>verify_server_cert = (\<lambda>c n. c \<in> set certs), verify_tls12 = (\<lambda>_. True),
        verify_tls13 = (\<lambda>_. True)\<rparr>), roots_buildable = (\<lambda>_. True),
      tls_pem = \<lparr>pem_file = (\<lambda>_. None), pem_certs = (\<lambda>_. [])\<rparr>, addable_root = (\<lambda>_. True),
      crypto_tls12 = (\<lambda>_. True), name_class = (\<lambda>_. Some DnsName)\<rparr>"

definition sample_config :: client_config where
  "sample_config = (client_config_of 1 example_args (5000, 15000) [] [])
     \<lparr>cert_path := [], server_addr := ''a.b:1'', sni_names := [''x'']\<rparr>"

lemma sample_addr: "parse_socket_addr ''a.b:1'' = None"
proof -
  have four: "(4 :: nat) = Suc 3" by simp
  have "read_octets 4 True 0 ''a.b:1'' = None"
    unfolding four by (simp only: read_octets.simps) (simp add: read_separator_def read_number_def to_digit_def)
  then show ?thesis
    by (simp add: parse_socket_addr_def parse_with_def read_socket_addr_v4_def
        read_socket_addr_v6_def read_ipv4_addr_def read_given_char_def)
qed

lemma sample_host: "host_part ''a.b:1'' = ''a.b''"
  by (simp add: host_part_def)

theorem server_identity_checked_witness:
  "\<exists>v. parse_client_config_and_domain sample_env sample_config = Inr (v, ''a.b'') \<and>
     fst (select_sni_name (sni_names sample_config) 0 ''a.b'') = ''x'' \<and>
     verify_server_cert v ''a.b'' ''x''"
proof -
  have sel: "sni_names sample_config = [''x'']" "cert_path sample_config = []"
    "server_addr sample_config = ''a.b:1''" by (simp_all add: sample_config_def)
  let ?v = "custom_sni_verifier (the (platform_verifier sample_env)) ''a.b''"
  have p: "parse_client_config_and_domain sample_env sample_config = Inr (?v, ''a.b'')"
    by (simp add: parse_client_config_and_domain_def sel is_ip_addr_def sample_addr sample_host
        sample_env_def with_sni_def wrap_with_custom_sni_verifier_def Let_def)
  have s: "select_sni_name (sni_names sample_config) 0 ''a.b'' = (''x'', 1)"
    by (simp add: sel select_sni_name_def)
  from server_identity_checked [OF p s, of "''a.b''"] p s show ?thesis
    by (auto simp: sel is_ip_addr_def sample_addr sample_host sample_env_def)
qed

text \<open>
  The names on the wire are used in turn: any full round of calls uses the configured
  names once each, in their order, starting where the counter stands.
\<close>

lemma sni_round_robin:
  assumes "names \<noteq> []" and "unat rotation + length names \<le> 2 ^ 64"
  shows "map (\<lambda>i. fst (select_sni_name names (rotation + word_of_nat i) verify_name))
           [0..<length names] = rotate (unat rotation) names"
proof (rule nth_equalityI)
  fix i assume "i < length (map (\<lambda>i. fst (select_sni_name names (rotation + word_of_nat i) verify_name))
           [0..<length names])"
  then have i: "i < length names" by simp
  have "unat (rotation + word_of_nat i) = (unat rotation + unat (word_of_nat i :: usize)) mod 2 ^ 64"
    by (simp add: unat_word_ariths)
  also have "unat (word_of_nat i :: usize) = i" using assms(2) i by (simp add: unat_of_nat)
  finally have u: "unat (rotation + word_of_nat i) = unat rotation + i" using assms(2) i by simp
  show "map (\<lambda>i. fst (select_sni_name names (rotation + word_of_nat i) verify_name))
           [0..<length names] ! i = rotate (unat rotation) names ! i"
    using i u assms(1) by (simp add: select_sni_name_def nth_rotate add.commute)
qed simp

lemma sni_round_robin_witness:
  "map (\<lambda>i. fst (select_sni_name [''a'', ''b'', ''c''] (4 + word_of_nat i) []))
     [0..<length [''a'', ''b'', ''c'']] = rotate (unat (4 :: usize)) [''a'', ''b'', ''c'']"
  by (rule sni_round_robin) simp_all

text \<open>
  Without the option for DoT servers the configuration holds one empty DoT server, and a
  lookup over it asks the system's resolver. So a server name is resolved by the system's
  resolver whenever that answers, and the configured name servers are not asked.
\<close>

lemma configured_dns_shadowed:
  assumes "dot_servers cfg = split_on CHR '','' []" and "parse_socket_addr (server_addr cfg) = None"
    and "rsplit_once CHR '':'' (server_addr cfg) = Some (host, ptxt)" and "parse_u16 ptxt = Some port"
    and "res [] [] (server_lookup_dns_config ipv6) host = Some ip"
  shows "parse_server_addr res ipv6 cfg = Inr (socket_addr_new ip port)"
  using assms
  by (simp add: parse_server_addr_def resolve_server_def lookup_server_ip_def filter_name_servers_def)

lemma configured_dns_shadowed_witness:
  "parse_server_addr (\<lambda>dot ns c host. Some (IpV4 (if ns = [] then 7 else 8))) False
     (sample_config\<lparr>dot_servers := split_on CHR '','' [], dns_servers := [''8.8.8.8'']\<rparr>) =
     Inr (socket_addr_new (IpV4 7) 1)"
  by (rule configured_dns_shadowed [where host = "''a.b''" and ptxt = "''1''"])
    (simp_all add: sample_config_def sample_addr parse_u16_def parse_uint_def to_digit_def
      digits_value_def)

definition server_lookups :: "resolver \<Rightarrow> bool \<Rightarrow> client_config \<Rightarrow> string \<Rightarrow> ip_addr option list" where
  "server_lookups res ipv6 cfg domain =
     map (\<lambda>dot. lookup_server_ip res ipv6 domain dot []) (dot_servers cfg) @
     [lookup_server_ip res ipv6 domain [] (dns_servers cfg), lookup_server_ip res ipv6 domain [] []]"

text \<open>
  A server name is resolved by the first of the lookups that answers, in the order DoT
  servers, configured name servers, system resolver; nothing else decides.
\<close>

lemma resolution_order:
  "resolve_server res ipv6 cfg domain =
     Option.bind (find (\<lambda>r. r \<noteq> None) (server_lookups res ipv6 cfg domain)) (\<lambda>r. r)"
proof -
  have dots: "first_dot res ipv6 domain dots =
      Option.bind (find (\<lambda>r. r \<noteq> None) (map (\<lambda>dot. lookup_server_ip res ipv6 domain dot []) dots)) (\<lambda>r. r)"
    for dots
    by (induction dots) (auto split: option.splits)
  have app: "Option.bind (find (\<lambda>r. r \<noteq> None) (xs @ ys)) (\<lambda>r. r) =
      (case Option.bind (find (\<lambda>r. r \<noteq> None) xs) (\<lambda>r. r) of
         None \<Rightarrow> Option.bind (find (\<lambda>r. r \<noteq> None) ys) (\<lambda>r. r) | Some x \<Rightarrow> Some x)"
    for xs ys :: "ip_addr option list"
    by (induction xs) auto
  show ?thesis
    unfolding server_lookups_def app dots [symmetric] resolve_server_def
    by (auto split: option.splits)
qed

end
