(* ===== verification/Event_Bus.thy ===== *)
theory Event_Bus
  imports Net_Types
begin

text \<open>
  \<^verbatim>\<open>src/src/tunnel_event_bus.rs\<close>: the events a tunnel reports, their descriptors
  and the bus that fans them out. The listeners' \<^verbatim>\<open>mpsc\<close> channels are part of the
  state: a channel has a queue that grows with every send, and a receiver that may be
  dropped, after which sending fails. The mutex makes each operation atomic, and a poisoned
  lock is entered all the same.
\<close>

record tunnel_stat =
  rx_bytes :: u64
  tx_bytes :: u64
  tx_dgrams :: u64
  rx_dgrams :: u64
  sent_packets :: u64
  lost_packets :: u64
  lost_bytes :: u64
  congestion_events :: u64
  active_conns :: u32
  rtt_ms :: u64
  cwnd_bytes :: u64
  current_mtu :: u16
  black_holes :: u64

datatype tunnel_id = Network usize | Channel usize upstream_type

record tunnel_descriptor =
  td_id :: tunnel_id
  td_proto :: upstream_type
  td_mode :: tunnel_mode

datatype tunnel_state = Connecting | Connected | Tunneling | Reconnecting

datatype tunnel_event_type = State tunnel_state | Log string | Stat tunnel_stat

datatype tunnel_source = SrcNetwork | SrcChannel

record tunnel_info =
  ti_source :: tunnel_source
  ti_id :: "usize option"
  ti_proto :: upstream_type
  ti_mode :: tunnel_mode

record tunnel_event =
  event_type :: tunnel_event_type
  timestamp :: string
  ev_tunnel :: "tunnel_info option"

definition tunnel_event_new ::
    "tunnel_event_type \<Rightarrow> string \<Rightarrow> tunnel_descriptor \<Rightarrow> tunnel_event" where
  "tunnel_event_new ty ts d =
     \<lparr>event_type = ty, timestamp = ts,
      ev_tunnel = Some (case td_id d of
         Network i \<Rightarrow>
           \<lparr>ti_source = SrcNetwork, ti_id = Some i, ti_proto = td_proto d, ti_mode = td_mode d\<rparr>
       | Channel i protocol \<Rightarrow>
           \<lparr>ti_source = SrcChannel, ti_id = Some i, ti_proto = protocol, ti_mode = td_mode d\<rparr>)\<rparr>"

definition new_without_tunnel :: "tunnel_event_type \<Rightarrow> string \<Rightarrow> tunnel_event" where
  "new_without_tunnel ty ts = \<lparr>event_type = ty, timestamp = ts, ev_tunnel = None\<rparr>"

section \<open>The bus\<close>

type_synonym chan_id = nat

record chan =
  queue :: "tunnel_event list"
  rx_alive :: bool

record event_bus =
  listeners :: "chan_id list"
  chans :: "chan list"

definition bus_new :: event_bus where
  "bus_new = \<lparr>listeners = [], chans = []\<rparr>"

text \<open>\<^verbatim>\<open>register\<close>: a fresh channel, whose sender joins the listeners.\<close>

definition register :: "event_bus \<Rightarrow> chan_id \<times> event_bus" where
  "register bus =
     (let c = length (chans bus)
      in (c, \<lparr>listeners = listeners bus @ [c],
              chans = chans bus @ [\<lparr>queue = [], rx_alive = True\<rparr>]\<rparr>))"

definition has_listeners :: "event_bus \<Rightarrow> bool" where
  "has_listeners bus \<longleftrightarrow> listeners bus \<noteq> []"

text \<open>\<^verbatim>\<open>Sender::send\<close> on one channel: it fails when the receiver is gone.\<close>

definition send_chan :: "tunnel_event \<Rightarrow> chan_id \<Rightarrow> chan list \<Rightarrow> bool \<times> chan list" where
  "send_chan e c cs =
     (if c < length cs \<and> rx_alive (cs ! c)
      then (True, cs[c := (cs ! c)\<lparr>queue := queue (cs ! c) @ [e]\<rparr>])
      else (False, cs))"

text \<open>
  \<^verbatim>\<open>post\<close>: \<^verbatim>\<open>retain\<close> visits the listeners in order, sends to each, and
  keeps those whose send succeeded.
\<close>

fun retain_send :: "tunnel_event \<Rightarrow> chan_id list \<Rightarrow> chan list \<Rightarrow> chan_id list \<times> chan list" where
  "retain_send e [] cs = ([], cs)"
| "retain_send e (c # ls) cs =
     (case send_chan e c cs of
        (ok, cs') \<Rightarrow>
          (case retain_send e ls cs' of
             (ls', cs'') \<Rightarrow> (if ok then c # ls' else ls', cs'')))"

definition post :: "tunnel_event \<Rightarrow> event_bus \<Rightarrow> event_bus" where
  "post e bus =
     (case retain_send e (listeners bus) (chans bus) of
        (ls, cs) \<Rightarrow> \<lparr>listeners = ls, chans = cs\<rparr>)"

text \<open>The listener's side: taking the next event, and dropping the receiver.\<close>

definition recv_event :: "chan_id \<Rightarrow> event_bus \<Rightarrow> tunnel_event option \<times> event_bus" where
  "recv_event c bus =
     (if c < length (chans bus) then
        (case queue (chans bus ! c) of
           [] \<Rightarrow> (None, bus)
         | e # q \<Rightarrow> (Some e, bus\<lparr>chans := (chans bus)[c := (chans bus ! c)\<lparr>queue := q\<rparr>]\<rparr>))
      else (None, bus))"

definition drop_receiver :: "chan_id \<Rightarrow> event_bus \<Rightarrow> event_bus" where
  "drop_receiver c bus =
     bus\<lparr>chans := (chans bus)[c := (chans bus ! c)\<lparr>queue := [], rx_alive := False\<rparr>]\<rparr>"

section \<open>Invariant\<close>

definition bus_inv :: "event_bus \<Rightarrow> bool" where
  "bus_inv bus \<longleftrightarrow> distinct (listeners bus) \<and> set (listeners bus) \<subseteq> {..<length (chans bus)} \<and>
     (\<forall>c < length (chans bus). rx_alive (chans bus ! c) \<longrightarrow> c \<in> set (listeners bus))"

abbreviation alive :: "event_bus \<Rightarrow> chan_id \<Rightarrow> bool" where
  "alive bus c \<equiv> c < length (chans bus) \<and> rx_alive (chans bus ! c)"

lemma send_chan_other:
  "send_chan e c cs = (ok, cs') \<Longrightarrow>
     length cs' = length cs \<and> ok = (c < length cs \<and> rx_alive (cs ! c)) \<and>
     (\<forall>d < length cs. cs' ! d =
        (if d = c \<and> rx_alive (cs ! d) then (cs ! d)\<lparr>queue := queue (cs ! d) @ [e]\<rparr> else cs ! d))"
  by (auto simp: send_chan_def nth_list_update split: if_splits)

lemma retain_send_spec:
  assumes "distinct ls" and "retain_send e ls cs = (ls', cs')"
  shows "length cs' = length cs \<and> ls' = filter (\<lambda>c. c < length cs \<and> rx_alive (cs ! c)) ls \<and>
    (\<forall>d < length cs. cs' ! d =
       (if d \<in> set ls \<and> rx_alive (cs ! d) then (cs ! d)\<lparr>queue := queue (cs ! d) @ [e]\<rparr> else cs ! d))"
  using assms
proof (induction ls arbitrary: cs ls' cs')
  case Nil
  then show ?case by simp
next
  case (Cons c ls)
  obtain ok cs1 where 1: "send_chan e c cs = (ok, cs1)" by fastforce
  obtain ls2 cs2 where 2: "retain_send e ls cs1 = (ls2, cs2)" by fastforce
  note s = send_chan_other [OF 1]
  have alive_same: "rx_alive (cs1 ! d) = rx_alive (cs ! d)" if "d < length cs" for d
    using s that by auto
  have "filter (\<lambda>c. c < length cs1 \<and> rx_alive (cs1 ! c)) ls =
      filter (\<lambda>c. c < length cs \<and> rx_alive (cs ! c)) ls"
    by (rule filter_cong) (use s alive_same in auto)
  moreover have "length cs2 = length cs1 \<and> ls2 = filter (\<lambda>c. c < length cs1 \<and> rx_alive (cs1 ! c)) ls \<and>
    (\<forall>d < length cs1. cs2 ! d =
       (if d \<in> set ls \<and> rx_alive (cs1 ! d) then (cs1 ! d)\<lparr>queue := queue (cs1 ! d) @ [e]\<rparr> else cs1 ! d))"
    using Cons.IH [OF _ 2] Cons.prems(1) by simp
  ultimately show ?case using Cons.prems 1 2 s alive_same by auto
qed

lemma post_spec:
  assumes "bus_inv bus"
  shows "listeners (post e bus) = filter (alive bus) (listeners bus)"
    and "length (chans (post e bus)) = length (chans bus)"
    and "\<And>d. d < length (chans bus) \<Longrightarrow> chans (post e bus) ! d =
      (if rx_alive (chans bus ! d)
       then (chans bus ! d)\<lparr>queue := queue (chans bus ! d) @ [e]\<rparr> else chans bus ! d)"
proof -
  obtain ls cs where r: "retain_send e (listeners bus) (chans bus) = (ls, cs)" by fastforce
  from retain_send_spec [OF _ r] assms
  show "listeners (post e bus) = filter (alive bus) (listeners bus)"
    and "length (chans (post e bus)) = length (chans bus)"
    and "\<And>d. d < length (chans bus) \<Longrightarrow> chans (post e bus) ! d =
      (if rx_alive (chans bus ! d)
       then (chans bus ! d)\<lparr>queue := queue (chans bus ! d) @ [e]\<rparr> else chans bus ! d)"
    by (auto simp: post_def r bus_inv_def)
qed

datatype bus_op = Register | Post tunnel_event | Recv chan_id | DropRx chan_id

fun bus_exec :: "bus_op \<Rightarrow> event_bus \<Rightarrow> event_bus" where
  "bus_exec Register bus = snd (register bus)"
| "bus_exec (Post e) bus = post e bus"
| "bus_exec (Recv c) bus = snd (recv_event c bus)"
| "bus_exec (DropRx c) bus = drop_receiver c bus"

lemma bus_inv_exec: "bus_inv bus \<Longrightarrow> bus_inv (bus_exec op bus)"
proof (cases op)
  case Register
  assume "bus_inv bus"
  then show ?thesis using Register
    by (auto simp: bus_inv_def register_def Let_def nth_append less_Suc_eq)
next
  case (Post e)
  assume inv: "bus_inv bus"
  show ?thesis
    using inv post_spec [OF inv, where e = e] Post by (auto simp: bus_inv_def)
next
  case (Recv c)
  assume "bus_inv bus"
  then show ?thesis using Recv
    by (auto simp: bus_inv_def recv_event_def nth_list_update split: list.splits)
next
  case (DropRx c)
  assume "bus_inv bus"
  then show ?thesis using DropRx
    by (cases "c < length (chans bus)")
      (auto simp: bus_inv_def drop_receiver_def nth_list_update split: if_splits)
qed

interpretation bus: invariant_system "\<lambda>s. s = bus_new" "\<lambda>s t. \<exists>op. t = bus_exec op s" bus_inv
proof (unfold_locales, goal_cases)
  case (1 s)
  then show ?case by (simp add: bus_new_def bus_inv_def)
next
  case (2 s t)
  then show ?case by (blast intro: bus_inv_exec)
qed

abbreviation bus_reachable :: "event_bus \<Rightarrow> bool" where
  "bus_reachable \<equiv> reachable (\<lambda>s. s = bus_new) (\<lambda>s t. \<exists>op. t = bus_exec op s)"

section \<open>Properties\<close>

definition post_all :: "tunnel_event list \<Rightarrow> event_bus \<Rightarrow> event_bus" where
  "post_all es bus = fold post es bus"

lemma post_all_queue:
  assumes "bus_inv bus" and "alive bus c"
  shows "bus_inv (post_all es bus) \<and> alive (post_all es bus) c \<and>
    queue (chans (post_all es bus) ! c) = queue (chans bus ! c) @ es"
  using assms
proof (induction es arbitrary: bus)
  case Nil
  then show ?case by (simp add: post_all_def)
next
  case (Cons e es)
  have "bus_inv (post e bus)" using bus_inv_exec [of bus "Post e"] Cons.prems by simp
  moreover have "alive (post e bus) c" and "queue (chans (post e bus) ! c) = queue (chans bus ! c) @ [e]"
    using Cons.prems(2) by (simp_all add: post_spec(2,3) [OF Cons.prems(1)])
  ultimately show ?case using Cons.IH [of "post e bus"] by (simp add: post_all_def)
qed

text \<open>
  No event is lost for a live listener: in every state the bus can reach, any burst of
  posts is appended, complete and in order, to the queue of each listener whose receiver
  still exists; and after one post the listeners are exactly those.
\<close>

lemma bus_delivery:
  assumes "bus_reachable bus" and "c < length (chans bus)" and "rx_alive (chans bus ! c)"
  shows "queue (chans (post_all es bus) ! c) = queue (chans bus ! c) @ es \<and>
    set (listeners (post e bus)) = {d. d < length (chans bus) \<and> rx_alive (chans bus ! d)} \<and>
    has_listeners (post e bus)"
proof -
  have inv: "bus_inv bus" by (rule bus.reachable_inv [OF assms(1)])
  have "set (listeners (post e bus)) = {d. d < length (chans bus) \<and> rx_alive (chans bus ! d)}"
    unfolding post_spec(1) [OF inv] using inv by (auto simp: bus_inv_def)
  moreover from this have "c \<in> set (listeners (post e bus))" using assms(2,3) by simp
  then have "has_listeners (post e bus)" by (metis has_listeners_def empty_iff empty_set)
  moreover have "queue (chans (post_all es bus) ! c) = queue (chans bus ! c) @ es"
    using post_all_queue [OF inv] assms(2,3) by simp
  ultimately show ?thesis by simp
qed

lemma bus_delivery_witness:
  "queue (chans (post_all [new_without_tunnel (Log ''a'') ''t'', new_without_tunnel (Log ''b'') ''t'']
      (snd (register bus_new))) ! 0) =
   queue (chans (snd (register bus_new)) ! 0) @
     [new_without_tunnel (Log ''a'') ''t'', new_without_tunnel (Log ''b'') ''t''] \<and>
   has_listeners (post (new_without_tunnel (Log ''a'') ''t'') (snd (register bus_new)))"
proof -
  have r: "bus_reachable (snd (register bus_new))"
    by (rule reach_step [OF reach_init, where s = bus_new])
      (auto intro: exI [of _ Register])
  have c: "0 < length (chans (snd (register bus_new)))"
    "rx_alive (chans (snd (register bus_new)) ! 0)"
    by (simp_all add: register_def bus_new_def)
  show ?thesis using bus_delivery [OF r c] by blast
qed

end
