(* ===== verification/Client.thy ===== *)
theory Client
  imports Client_Net Event_Bus Servers Tunnel_Message Codec_Stream
begin

text \<open>
  \<^verbatim>\<open>src/src/client.rs\<close>: the state all tunnels of a client share, its operations, the
  login over a new connection, the serving of a connection, and stopping.
  QUIC endpoints and connections are given by what the code reads of them and by the results
  of the calls on them.
\<close>

section \<open>State\<close>

datatype client_phase = CIdle | CStopping | CTerminated

text \<open>An endpoint with what \<^verbatim>\<open>local_addr()\<close> returns.\<close>

record endpoint =
  ep_id :: nat
  ep_local_addr :: "socket_addr option"

record conn_stats =
  udp_rx_bytes :: u64
  udp_rx_datagrams :: u64
  udp_tx_bytes :: u64
  udp_tx_datagrams :: u64
  path_sent_packets :: u64
  path_lost_packets :: u64
  path_lost_bytes :: u64
  path_congestion_events :: u64
  path_black_holes :: u64
  path_rtt_ms :: u64
  path_cwnd :: u64
  path_mtu :: u16

text \<open>
  The connection table maps the stable identifiers of the connections to the connections;
  they are kept as the list of the identifiers present.
\<close>

record 's client_state =
  st_tcp_servers :: "socket_addr \<rightharpoonup> 's tcp_server"
  st_udp_servers :: "socket_addr \<rightharpoonup> udp_server"
  st_tcp_receivers :: "socket_addr \<rightharpoonup> receiver"
  st_endpoint :: "endpoint option"
  st_connections :: "usize list"
  st_server_ipv6 :: "bool option"
  st_phase :: client_phase
  st_stat :: tunnel_stat
  st_bus :: event_bus

definition stat_default :: tunnel_stat where
  "stat_default =
     \<lparr>rx_bytes = 0, tx_bytes = 0, tx_dgrams = 0, rx_dgrams = 0, sent_packets = 0, lost_packets = 0,
      lost_bytes = 0, congestion_events = 0, active_conns = 0, rtt_ms = 0, cwnd_bytes = 0,
      current_mtu = 0, black_holes = 0\<rparr>"

definition client_state_new :: "'s client_state" where
  "client_state_new =
     \<lparr>st_tcp_servers = Map.empty, st_udp_servers = Map.empty, st_tcp_receivers = Map.empty,
      st_endpoint = None, st_connections = [], st_server_ipv6 = None, st_phase = CIdle,
      st_stat = stat_default, st_bus = bus_new\<rparr>"

definition should_quit :: "'s client_state \<Rightarrow> bool" where
  "should_quit st \<longleftrightarrow> st_phase st = CStopping \<or> st_phase st = CTerminated"

definition set_client_state :: "client_phase \<Rightarrow> 's client_state \<Rightarrow> 's client_state" where
  "set_client_state p st = st\<lparr>st_phase := p\<rparr>"

definition insert_connection :: "usize \<Rightarrow> 's client_state \<Rightarrow> 's client_state" where
  "insert_connection c st = st\<lparr>st_connections := c # removeAll c (st_connections st)\<rparr>"

definition remove_connection :: "usize \<Rightarrow> 's client_state \<Rightarrow> 's client_state" where
  "remove_connection c st = st\<lparr>st_connections := removeAll c (st_connections st)\<rparr>"

section \<open>Events\<close>

definition post_event :: "tunnel_event \<Rightarrow> 's client_state \<Rightarrow> 's client_state" where
  "post_event ev st = (if has_listeners (st_bus st) then st\<lparr>st_bus := post ev (st_bus st)\<rparr> else st)"

definition post_tunnel_log ::
    "string \<Rightarrow> tunnel_descriptor \<Rightarrow> string \<Rightarrow> 's client_state \<Rightarrow> 's client_state" where
  "post_tunnel_log now d msg = post_event (tunnel_event_new (Log msg) now d)"

definition post_tunnel_state ::
    "string \<Rightarrow> tunnel_descriptor \<Rightarrow> tunnel_state \<Rightarrow> 's client_state \<Rightarrow> 's client_state" where
  "post_tunnel_state now d ts = post_event (tunnel_event_new (State ts) now d)"

definition post_tunnel_stat ::
    "string \<Rightarrow> tunnel_descriptor \<Rightarrow> tunnel_stat \<Rightarrow> 's client_state \<Rightarrow> 's client_state" where
  "post_tunnel_stat now d stat = post_event (tunnel_event_new (Stat stat) now d)"

text \<open>
  \<^verbatim>\<open>build_tunnel_descriptor\<close>; the combination of a channel tunnel with the network
  as its input is unreachable and stays undefined.
\<close>

fun build_tunnel_descriptor :: "tunnel_id \<Rightarrow> tunnel \<Rightarrow> tunnel_descriptor" where
  "build_tunnel_descriptor i (NetworkBased cfg) =
     \<lparr>td_id = i, td_proto = upstream_kind (tc_upstream cfg), td_mode = tc_mode cfg\<rparr>"
| "build_tunnel_descriptor i (ChannelBased ty) = \<lparr>td_id = i, td_proto = ty, td_mode = TOut\<rparr>"

section \<open>Traffic statistics\<close>

definition add_connection_stats_to_total :: "conn_stats \<Rightarrow> 's client_state \<Rightarrow> 's client_state" where
  "add_connection_stats_to_total s st =
     (let t = st_stat st
      in st\<lparr>st_stat := t\<lparr>
           rx_bytes := rx_bytes t + udp_rx_bytes s,
           tx_bytes := tx_bytes t + udp_tx_bytes s,
           rx_dgrams := rx_dgrams t + udp_rx_datagrams s,
           tx_dgrams := tx_dgrams t + udp_tx_datagrams s,
           sent_packets := sent_packets t + path_sent_packets s,
           lost_packets := lost_packets t + path_lost_packets s,
           lost_bytes := lost_bytes t + path_lost_bytes s,
           congestion_events := congestion_events t + path_congestion_events s,
           black_holes := black_holes t + path_black_holes s\<rparr>\<rparr>)"

definition append_conn_stats_to_tunnel_stat :: "tunnel_stat \<Rightarrow> conn_stats \<Rightarrow> tunnel_stat" where
  "append_conn_stats_to_tunnel_stat t s =
     t\<lparr>rx_bytes := rx_bytes t + udp_rx_bytes s,
       tx_bytes := tx_bytes t + udp_tx_bytes s,
       rx_dgrams := rx_dgrams t + udp_rx_datagrams s,
       tx_dgrams := tx_dgrams t + udp_tx_datagrams s,
       sent_packets := sent_packets t + path_sent_packets s,
       lost_packets := lost_packets t + path_lost_packets s,
       lost_bytes := lost_bytes t + path_lost_bytes s,
       congestion_events := congestion_events t + path_congestion_events s,
       active_conns := active_conns t + 1,
       rtt_ms := max (rtt_ms t) (path_rtt_ms s),
       cwnd_bytes := max (cwnd_bytes t) (path_cwnd s),
       current_mtu := max (current_mtu t) (path_mtu s),
       black_holes := black_holes t + path_black_holes s\<rparr>"

definition build_tunnel_stat_from_connection :: "conn_stats \<Rightarrow> tunnel_stat" where
  "build_tunnel_stat_from_connection s = append_conn_stats_to_tunnel_stat stat_default s"

text \<open>
  One tick of the traffic reporter: the live connections, whose statistics are \<open>stats\<close>, and
  the total of the ended ones. The reporter ends with the tick that sees the client stop.
\<close>

definition reported_stat :: "(usize \<Rightarrow> conn_stats) \<Rightarrow> 's client_state \<Rightarrow> tunnel_stat" where
  "reported_stat stats st =
     (let live = foldl (\<lambda>t c. append_conn_stats_to_tunnel_stat t (stats c)) stat_default (st_connections st);
          t = st_stat st
      in live\<lparr>rx_bytes := rx_bytes live + rx_bytes t,
              tx_bytes := tx_bytes live + tx_bytes t,
              rx_dgrams := rx_dgrams live + rx_dgrams t,
              tx_dgrams := tx_dgrams live + tx_dgrams t,
              sent_packets := sent_packets live + sent_packets t,
              lost_packets := lost_packets live + lost_packets t,
              lost_bytes := lost_bytes live + lost_bytes t,
              congestion_events := congestion_events live + congestion_events t,
              black_holes := black_holes live + black_holes t\<rparr>)"

definition report_tick :: "string \<Rightarrow> (usize \<Rightarrow> conn_stats) \<Rightarrow> 's client_state \<Rightarrow> bool \<times> 's client_state" where
  "report_tick now stats st =
     (\<not> should_quit st, post_event (new_without_tunnel (Stat (reported_stat stats st)) now) st)"

section \<open>The endpoint\<close>

definition clear_cached_endpoint_if_idle :: "'s client_state \<Rightarrow> bool \<times> 's client_state" where
  "clear_cached_endpoint_if_idle st =
     (if st_connections st \<noteq> [] then (False, st)
      else (st_endpoint st \<noteq> None, st\<lparr>st_endpoint := None\<rparr>))"

text \<open>The cached endpoint to use for a remote address, if it is kept.\<close>

definition reuse_endpoint :: "socket_addr \<Rightarrow> 's client_state \<Rightarrow> endpoint option \<times> 's client_state" where
  "reuse_endpoint remote_addr st =
     (case st_endpoint st of
        None \<Rightarrow> (None, st)
      | Some ep \<Rightarrow>
          if (case ep_local_addr ep of Some a \<Rightarrow> is_ipv6 a = is_ipv6 remote_addr | None \<Rightarrow> False)
          then (Some ep, st)
          else (case clear_cached_endpoint_if_idle st of
                  (True, st') \<Rightarrow> (None, st')
                | (False, st') \<Rightarrow> (Some ep, st')))"

definition migration_addr :: "socket_addr \<Rightarrow> socket_addr" where
  "migration_addr current_addr = socket_addr_with_unspecified_ip_port (is_ipv6 current_addr)"

section \<open>Login\<close>

text \<open>What one stage of the login gives under its timeout, unless the client stops first.\<close>

datatype 'a stage = StageStopping | StageTimeout | StageFailed | StageOk 'a

datatype connect_error =
  PrepareFailed | EndpointFailed | ConnectRefused | Aborted string | TimedOut string
  | Failed string | LoginFailed string | UnexpectedResponse

definition run_login_stage :: "string \<Rightarrow> 'a stage \<Rightarrow> connect_error + 'a" where
  "run_login_stage name r =
     (case r of
        StageStopping \<Rightarrow> Inl (Aborted name)
      | StageTimeout \<Rightarrow> Inl (TimedOut name)
      | StageFailed \<Rightarrow> Inl (Failed name)
      | StageOk x \<Rightarrow> Inr x)"

text \<open>
  The peer of a login as the stages see it: whether \<^verbatim>\<open>Endpoint::connect\<close> accepts the
  address, the connection, its first stream, the sending of the request and the response.
\<close>

record login_io =
  io_connect :: bool
  io_connected :: "(usize \<times> conn_stats) stage"
  io_opened :: "unit stage"
  io_sent :: "unit stage"
  io_response :: "tunnel_message stage"

text \<open>
  \<^verbatim>\<open>login\<close>: the connection with whether its heartbeat task is started. The texts of the
  log events are not modelled: \<open>msg\<close> is any function that makes them.
\<close>

definition heartbeat_enabled :: "client_config \<Rightarrow> bool" where
  "heartbeat_enabled cfg \<longleftrightarrow> heartbeat_interval_ms cfg \<noteq> 0 \<and> heartbeat_timeout_ms cfg \<noteq> 0"

fun login_capabilities :: "tunnel_message \<Rightarrow> connect_error + server_capabilities" where
  "login_capabilities (RespSuccess caps) = Inr caps"
| "login_capabilities (RespFailure msg) = Inl (LoginFailed msg)"
| "login_capabilities _ = Inl UnexpectedResponse"

definition login_stages ::
    "login_io \<Rightarrow> connect_error + (usize \<times> conn_stats) \<times> server_capabilities" where
  "login_stages io =
     (if \<not> io_connect io then Inl ConnectRefused
      else try_then (run_login_stage ''connect'' (io_connected io)) (\<lambda>conn.
           try_then (run_login_stage ''open bidirectional connection'' (io_opened io)) (\<lambda>_.
           try_then (run_login_stage ''send login request'' (io_sent io)) (\<lambda>_.
           try_then (run_login_stage ''receive login response'' (io_response io)) (\<lambda>resp.
           try_then (login_capabilities resp) (\<lambda>caps. Inr (conn, caps)))))))"

text \<open>Whether the login gets as far as the log event that precedes the request.\<close>

definition reached_request :: "login_io \<Rightarrow> bool" where
  "reached_request io \<longleftrightarrow>
     io_connect io \<and> (case io_connected io of StageOk _ \<Rightarrow> True | _ \<Rightarrow> False) \<and>
     io_opened io = StageOk ()"

definition login ::
    "client_config \<Rightarrow> string \<Rightarrow> (nat \<Rightarrow> string) \<Rightarrow> tunnel_descriptor \<Rightarrow> login_io \<Rightarrow> 's client_state \<Rightarrow>
     (connect_error + usize \<times> bool) \<times> 's client_state" where
  "login cfg now msg d io st =
     (let st1 = post_tunnel_log now d (msg 0) (post_tunnel_state now d Connecting st);
          st2 = (if reached_request io then post_tunnel_log now d (msg 1) st1 else st1)
      in case login_stages io of
           Inl e \<Rightarrow> (Inl e, st2)
         | Inr ((c, stats), caps) \<Rightarrow>
             (Inr (c, heartbeat_enabled cfg),
              post_tunnel_stat now d (build_tunnel_stat_from_connection stats)
                (post_tunnel_log now d (msg 2)
                  (post_tunnel_state now d Connected
                    (st2\<lparr>st_server_ipv6 := Some (ipv6_supported caps)\<rparr>)))))"

text \<open>
  \<^verbatim>\<open>prepare_login_config\<close>: the trust decision stands for the TLS configuration,
  \<open>quic_ok\<close> says whether QUIC accepts it. The rotation of SNI names moves on before the
  server is resolved, so an address that cannot be resolved consumes a name.
\<close>

record ('cert, 'sig) login_config =
  lc_local_addr :: socket_addr
  lc_remote_addr :: socket_addr
  lc_verifier :: "('cert, 'sig) verifier"
  lc_transport :: transport_config
  lc_sni_name :: string

datatype prepare_error = TlsSetup tls_error | QuicSetup | AddrSetup addr_error

definition prepare_login_config ::
    "('cert, 'sig) tls_env \<Rightarrow> bool \<Rightarrow> transport_config \<Rightarrow> resolver \<Rightarrow> bool \<Rightarrow> client_config \<Rightarrow> usize \<Rightarrow>
     (prepare_error + ('cert, 'sig) login_config) \<times> usize" where
  "prepare_login_config env quic_ok dflt res ipv6 cfg rotation =
     (let transport_cfg = build_quic_transport_config dflt (quic_timeout_ms cfg)
            (quic_receive_window cfg) (stream_receive_window cfg) (quic_send_window cfg)
      in case parse_client_config_and_domain env cfg of
           Inl e \<Rightarrow> (Inl (TlsSetup e), rotation)
         | Inr (verifier, verify_name) \<Rightarrow>
             if \<not> quic_ok then (Inl QuicSetup, rotation)
             else
               (case select_sni_name (sni_names cfg) rotation verify_name of
                  (sni_name, rotation') \<Rightarrow>
                    (case parse_server_addr res ipv6 cfg of
                       Inl e \<Rightarrow> (Inl (AddrSetup e), rotation')
                     | Inr remote_addr \<Rightarrow>
                         (Inr \<lparr>lc_local_addr = socket_addr_with_unspecified_ip_port (is_ipv6 remote_addr),
                               lc_remote_addr = remote_addr, lc_verifier = verifier,
                               lc_transport = transport_cfg, lc_sni_name = sni_name\<rparr>, rotation'))))"

text \<open>
  The tunnels a client starts: one per configured tunnel, numbered by its position, and one
  per channel handed to it, numbered by a counter; and what each logs in with.
\<close>

definition network_tunnels :: "client_config \<Rightarrow> (tunnel_id \<times> tunnel) list" where
  "network_tunnels cfg =
     map (\<lambda>(index, t). (Network (of_nat index), NetworkBased t)) (enumerate 0 (tunnels cfg))"

definition channel_tunnel :: "upstream_type \<Rightarrow> usize \<Rightarrow> (tunnel_id \<times> tunnel) \<times> usize" where
  "channel_tunnel ty next_tunnel_id =
     ((Channel next_tunnel_id ty, ChannelBased ty), next_tunnel_id + 1)"

definition client_login_info :: "client_config \<Rightarrow> tunnel \<Rightarrow> login_info" where
  "client_login_info cfg t =
     \<lparr>li_password = password cfg, li_tunnel = t,
      li_tcp_timeout_ms = tcp_timeout_ms cfg, li_udp_timeout_ms = udp_timeout_ms cfg\<rparr>"

text \<open>
  \<^verbatim>\<open>connect_once\<close>: \<open>prepared\<close> is the remote address when the login
  configuration could be made, \<open>made\<close> the endpoint a bind to the local address gives.
\<close>

definition choose_endpoint ::
    "socket_addr \<Rightarrow> (socket_addr \<Rightarrow> endpoint option) \<Rightarrow> 's client_state \<Rightarrow>
     (connect_error + endpoint) \<times> 's client_state" where
  "choose_endpoint remote_addr made st =
     (case reuse_endpoint remote_addr st of
        (Some ep, st1) \<Rightarrow> (Inr ep, st1)
      | (None, st1) \<Rightarrow>
          (case made (socket_addr_with_unspecified_ip_port (is_ipv6 remote_addr)) of
             None \<Rightarrow> (Inl EndpointFailed, st1)
           | Some ep \<Rightarrow> (Inr ep, st1\<lparr>st_endpoint := Some ep\<rparr>)))"

definition connect_once ::
    "client_config \<Rightarrow> string \<Rightarrow> (nat \<Rightarrow> string) \<Rightarrow> tunnel_descriptor \<Rightarrow> socket_addr option \<Rightarrow>
     (socket_addr \<Rightarrow> endpoint option) \<Rightarrow> (endpoint \<Rightarrow> login_io) \<Rightarrow> 's client_state \<Rightarrow>
     (connect_error + usize \<times> bool) \<times> 's client_state" where
  "connect_once cfg now msg d prepared made io st =
     (case (case prepared of
              None \<Rightarrow> (Inl PrepareFailed, st)
            | Some remote_addr \<Rightarrow>
                (case choose_endpoint remote_addr made st of
                   (Inl e, st1) \<Rightarrow> (Inl e, st1)
                 | (Inr ep, st1) \<Rightarrow> login cfg now msg d (io ep) st1)) of
        (Inr r, st2) \<Rightarrow> (Inr r, st2)
      | (Inl e, st2) \<Rightarrow>
          (Inl e, if should_quit st2 then st2
                  else snd (clear_cached_endpoint_if_idle (post_tunnel_log now d (msg 3) st2))))"

section \<open>Serving a connection\<close>

text \<open>
  The local listeners of outbound tunnels; \<open>bound\<close> is the address a bind, with its
  retries, ends up at. A listener is started once per address and kept in the table.
\<close>

definition start_tcp_server ::
    "socket_addr \<Rightarrow> socket_addr option \<Rightarrow> 's client_state \<Rightarrow> 's tcp_server option \<times> 's client_state" where
  "start_tcp_server addr bound st =
     (case tcp_bind_and_start bound of
        None \<Rightarrow> (None, st)
      | Some s \<Rightarrow> (Some s, st\<lparr>st_tcp_servers := (st_tcp_servers st)(addr \<mapsto> s)\<rparr>))"

definition start_udp_server ::
    "socket_addr \<Rightarrow> socket_addr option \<Rightarrow> 's client_state \<Rightarrow> bool \<times> 's client_state" where
  "start_udp_server addr bound st =
     (case udp_bind_and_start bound of
        None \<Rightarrow> (False, st)
      | Some s \<Rightarrow> (True, st\<lparr>st_udp_servers := (st_udp_servers st)(addr \<mapsto> s)\<rparr>))"

text \<open>
  The receiver of a TCP listener is taken once, through the handle \<open>s\<close> the tunnel has, and
  then shared through the table of receivers. The handle and the entry of the table, if there
  still is one, are the same listener.
\<close>

definition get_or_init_tcp_receiver ::
    "socket_addr \<Rightarrow> 's tcp_server \<Rightarrow> 's client_state \<Rightarrow>
     (take_error + receiver) \<times> 's tcp_server \<times> 's client_state" where
  "get_or_init_tcp_receiver addr s st =
     (case st_tcp_receivers st addr of
        Some r \<Rightarrow> (Inr r, s, st)
      | None \<Rightarrow>
          (case tcp_take_receiver s of
             (r, s') \<Rightarrow>
               (let st1 = st\<lparr>st_tcp_servers := (st_tcp_servers st)
                              (addr := map_option (\<lambda>_. s') (st_tcp_servers st addr))\<rparr>
                in case r of
                     Inl e \<Rightarrow> (Inl e, s', st1)
                   | Inr rx \<Rightarrow>
                       (Inr rx, s', st1\<lparr>st_tcp_receivers := (st_tcp_receivers st1)(addr \<mapsto> rx)\<rparr>))))"

text \<open>
  The state side of serving: the receiver that \<^verbatim>\<open>start_serving\<close> reads from, if any.
\<close>

definition serve_outbound_tcp ::
    "string \<Rightarrow> (nat \<Rightarrow> string) \<Rightarrow> tunnel_descriptor \<Rightarrow> socket_addr \<Rightarrow> socket_addr option \<Rightarrow>
     's client_state \<Rightarrow> receiver option \<times> 's client_state" where
  "serve_outbound_tcp now msg d addr bound st =
     (case (case st_tcp_servers st addr of Some s \<Rightarrow> (Some s, st) | None \<Rightarrow> start_tcp_server addr bound st) of
        (None, st1) \<Rightarrow> (None, st1)
      | (Some s, st1) \<Rightarrow>
          (case get_or_init_tcp_receiver addr s st1 of
             (Inl _, _, st2) \<Rightarrow> (None, st2)
           | (Inr r, _, st2) \<Rightarrow>
               (Some r, post_tunnel_state now d Tunneling (post_tunnel_log now d (msg 4) st2))))"

text \<open>
  A UDP listener's receiver is taken for the time of the connection. When the connection
  closes while the tunnel is served, two selects wait for it: the one in this function, after
  which the receiver is put back, and the one around it in
  \<^verbatim>\<open>handle_network_based_tunnel\<close>. If the outer one sees the close first
  (\<open>outer_first\<close>), this function is dropped where it stands, with the receiver in its
  hands, and dropping a receiver closes its channel.
\<close>

definition serve_outbound_udp ::
    "string \<Rightarrow> (nat \<Rightarrow> string) \<Rightarrow> tunnel_descriptor \<Rightarrow> socket_addr \<Rightarrow> socket_addr option \<Rightarrow> bool \<Rightarrow>
     's client_state \<Rightarrow> receiver option \<times> 's client_state" where
  "serve_outbound_udp now msg d addr bound outer_first st =
     (case (case st_udp_servers st addr of Some _ \<Rightarrow> (True, st) | None \<Rightarrow> start_udp_server addr bound st) of
        (False, st1) \<Rightarrow> (None, st1)
      | (True, st1) \<Rightarrow>
          (let st2 = post_tunnel_state now d Tunneling (post_tunnel_log now d (msg 4) st1)
           in case st_udp_servers st2 addr of
                None \<Rightarrow> (None, st2)
              | Some s \<Rightarrow>
                  (case udp_take_receiver s of
                     (Inl _, s') \<Rightarrow> (None, st2\<lparr>st_udp_servers := (st_udp_servers st2)(addr \<mapsto> s')\<rparr>)
                   | (Inr r, s') \<Rightarrow>
                       (Some r, st2\<lparr>st_udp_servers := (st_udp_servers st2)(addr \<mapsto>
                          (if outer_first then s'\<lparr>us_rx_open := False\<rparr>
                           else udp_put_receiver r s'))\<rparr>))))"

definition serve_inbound ::
    "string \<Rightarrow> (nat \<Rightarrow> string) \<Rightarrow> tunnel_descriptor \<Rightarrow> 's client_state \<Rightarrow> 's client_state" where
  "serve_inbound now msg d st =
     post_tunnel_state now d Tunneling (post_tunnel_log now d (msg 4) st)"

text \<open>
  A whole connection of a network tunnel, from the login to its close; \<open>None\<close> is the
  panic on a tunnel without local address, and \<open>meanwhile\<close> what the other tasks of the
  client do to the state until the connection is closed.
\<close>

definition handle_network_based_tunnel ::
    "string \<Rightarrow> (nat \<Rightarrow> string) \<Rightarrow> tunnel_descriptor \<Rightarrow> tunnel_config \<Rightarrow> socket_addr option \<Rightarrow> bool \<Rightarrow>
     conn_stats \<Rightarrow> ('s client_state \<Rightarrow> 's client_state) \<Rightarrow> 's client_state \<Rightarrow> 's client_state option" where
  "handle_network_based_tunnel now msg d tc bound outer_first stats meanwhile st =
     (case local_server_addr tc of
        None \<Rightarrow> None
      | Some addr \<Rightarrow>
          (let st1 = meanwhile
             (if tc_mode tc = TOut
              then (case upstream_kind (tc_upstream tc) of
                      Tcp \<Rightarrow> snd (serve_outbound_tcp now msg d addr bound st)
                    | Udp \<Rightarrow> snd (serve_outbound_udp now msg d addr bound outer_first st))
              else serve_inbound now msg d st);
             st2 = (if should_quit st1 then st1 else post_tunnel_state now d Reconnecting st1)
           in Some (add_connection_stats_to_total stats st2)))"

definition handle_channel_based_tunnel ::
    "string \<Rightarrow> (nat \<Rightarrow> string) \<Rightarrow> tunnel_descriptor \<Rightarrow> conn_stats \<Rightarrow>
     ('s client_state \<Rightarrow> 's client_state) \<Rightarrow> 's client_state \<Rightarrow> 's client_state" where
  "handle_channel_based_tunnel now msg d stats meanwhile st =
     (let st1 = meanwhile (post_tunnel_state now d Tunneling (post_tunnel_log now d (msg 4) st));
          st2 = (if should_quit st1 then st1 else post_tunnel_state now d Reconnecting st1)
      in add_connection_stats_to_total stats st2)"

text \<open>
  \<^verbatim>\<open>codec_config\<close>; \<open>read_file\<close> is what reading the dictionary gives. Each call
  makes a configuration of its own, with its own table of pairs.
\<close>

definition client_codec_config ::
    "('e, 'd, 'ed, 'dd) zstd_lib \<Rightarrow> (string \<Rightarrow> bytes option) \<Rightarrow> codec_stats \<Rightarrow> client_config \<Rightarrow>
     ('e, 'd, 'ed, 'dd, 'c) codec_config" where
  "client_codec_config Z read_file stats cfg =
     (let cc = codec_config_new (zstd cfg) (http cfg) (zstd_level cfg) (zstd_window_log cfg)
                 (zstd_pair_ttl_secs cfg) (zstd_flush_interval_ms cfg);
          cc1 = (if zstd_dict cfg \<noteq> []
                 then (case read_file (zstd_dict cfg) of
                         Some dict_bytes \<Rightarrow> with_dictionary Z dict_bytes cc
                       | None \<Rightarrow> cc)
                 else cc)
      in with_global_stats stats cc1)"

section \<open>Stopping\<close>

record 's stopped =
  sp_tcp :: "socket_addr \<rightharpoonup> 's tcp_server"
  sp_udp :: "socket_addr \<rightharpoonup> (bool \<times> udp_server) option"
  sp_closed :: "usize list"

text \<open>
  What \<^verbatim>\<open>stop\<close> and \<^verbatim>\<open>stop_async\<close> do under the lock: every listener is told
  to shut down and every connection is closed, then the tables are emptied.
\<close>

definition shut_down_all :: "bool \<Rightarrow> 's client_state \<Rightarrow> 's stopped \<times> 's client_state" where
  "shut_down_all connects st =
     (\<lparr>sp_tcp = (\<lambda>a. map_option (\<lambda>s. snd (tcp_shutdown connects s)) (st_tcp_servers st a)),
       sp_udp = (\<lambda>a. map_option udp_shutdown (st_udp_servers st a)),
       sp_closed = st_connections st\<rparr>,
      st\<lparr>st_tcp_servers := Map.empty, st_udp_servers := Map.empty,
         st_tcp_receivers := Map.empty, st_connections := []\<rparr>)"

text \<open>
  What happens around a stop: what the other tasks do between the announcement and the lock,
  whether the lock is poisoned by then, and what they do until the spawned shutdowns and
  closings are over.
\<close>

record 's interference =
  until_lock :: "'s client_state \<Rightarrow> 's client_state"
  lock_poisoned :: bool
  until_joined :: "'s client_state \<Rightarrow> 's client_state"

text \<open>
  \<^verbatim>\<open>stop_async\<close>: a poisoned lock leaves the tables alone, so nothing is shut down or
  closed (\<open>None\<close>); the client is terminated in either case.
\<close>

definition stop_async ::
    "bool \<Rightarrow> 's interference \<Rightarrow> 's client_state \<Rightarrow> 's stopped option \<times> 's client_state" where
  "stop_async connects w st =
     (let st1 = until_lock w (set_client_state CStopping st)
      in if lock_poisoned w then (None, set_client_state CTerminated (until_joined w st1))
         else case shut_down_all connects st1 of
                (sp, st2) \<Rightarrow> (Some sp, set_client_state CTerminated (until_joined w st2)))"

lemma stop_async_ends:
  "st_phase (snd (stop_async connects w st)) = CTerminated \<and>
   (let st1 = until_lock w (set_client_state CStopping st) in
    if lock_poisoned w then fst (stop_async connects w st) = None
    else (\<exists>s. fst (stop_async connects w st) = Some s \<and> sp_closed s = st_connections st1 \<and>
        (\<forall>a. sp_tcp s a = map_option (\<lambda>l. l\<lparr>terminated := True\<rparr>) (st_tcp_servers st1 a)) \<and>
        (\<forall>a. sp_udp s a = map_option udp_shutdown (st_udp_servers st1 a))) \<and>
      (\<forall>A. (\<forall>st. set (st_connections (until_joined w st)) \<subseteq> set (st_connections st) \<union> A) \<longrightarrow>
         set (st_connections (snd (stop_async connects w st))) \<subseteq> A) \<and>
      (\<forall>A. (\<forall>st. dom (st_tcp_servers (until_joined w st)) \<subseteq> dom (st_tcp_servers st) \<union> A) \<longrightarrow>
         dom (st_tcp_servers (snd (stop_async connects w st))) \<subseteq> A) \<and>
      (\<forall>A. (\<forall>st. dom (st_udp_servers (until_joined w st)) \<subseteq> dom (st_udp_servers st) \<union> A) \<longrightarrow>
         dom (st_udp_servers (snd (stop_async connects w st))) \<subseteq> A) \<and>
      (\<forall>A. (\<forall>st. dom (st_tcp_receivers (until_joined w st)) \<subseteq> dom (st_tcp_receivers st) \<union> A) \<longrightarrow>
         dom (st_tcp_receivers (snd (stop_async connects w st))) \<subseteq> A))"
proof -
  let ?st1 = "until_lock w (set_client_state CStopping st)"
  let ?e = "?st1\<lparr>st_tcp_servers := Map.empty, st_udp_servers := Map.empty,
         st_tcp_receivers := Map.empty, st_connections := []\<rparr>"
  have keep: "st_connections (set_client_state p x) = st_connections x"
    "st_tcp_servers (set_client_state p x) = st_tcp_servers x" "st_udp_servers (set_client_state p x) = st_udp_servers x"
    "st_tcp_receivers (set_client_state p x) = st_tcp_receivers x" "st_phase (set_client_state p x) = p"
    for p and x :: "'a client_state" by (simp_all add: set_client_state_def)
  show ?thesis
  proof (cases "lock_poisoned w")
    case True
    then show ?thesis by (simp add: stop_async_def keep Let_def)
  next
    case False
    then have "snd (stop_async connects w st) = set_client_state CTerminated (until_joined w ?e)"
      "fst (stop_async connects w st) = Some (fst (shut_down_all connects ?st1))"
      by (simp_all add: stop_async_def shut_down_all_def Let_def)
    moreover have "\<forall>st. set (st_connections (until_joined w st)) \<subseteq> set (st_connections st) \<union> A \<Longrightarrow>
        set (st_connections (until_joined w ?e)) \<subseteq> A"
      "\<forall>st. dom (st_tcp_servers (until_joined w st)) \<subseteq> dom (st_tcp_servers st) \<union> B \<Longrightarrow>
        dom (st_tcp_servers (until_joined w ?e)) \<subseteq> B"
      "\<forall>st. dom (st_udp_servers (until_joined w st)) \<subseteq> dom (st_udp_servers st) \<union> B \<Longrightarrow>
        dom (st_udp_servers (until_joined w ?e)) \<subseteq> B"
      "\<forall>st. dom (st_tcp_receivers (until_joined w st)) \<subseteq> dom (st_tcp_receivers st) \<union> B \<Longrightarrow>
        dom (st_tcp_receivers (until_joined w ?e)) \<subseteq> B" for A B
      by (drule spec [of _ ?e], simp)+
    ultimately show ?thesis using False
      by (simp add: keep shut_down_all_def tcp_shutdown_def Let_def)
  qed
qed

section \<open>Traffic totals\<close>

lemma foldl_append_stats:
  "rx_bytes (foldl (\<lambda>t c. append_conn_stats_to_tunnel_stat t (stats c)) t cs) =
     rx_bytes t + (\<Sum>c\<leftarrow>cs. udp_rx_bytes (stats c))"
  "tx_bytes (foldl (\<lambda>t c. append_conn_stats_to_tunnel_stat t (stats c)) t cs) =
     tx_bytes t + (\<Sum>c\<leftarrow>cs. udp_tx_bytes (stats c))"
  "lost_packets (foldl (\<lambda>t c. append_conn_stats_to_tunnel_stat t (stats c)) t cs) =
     lost_packets t + (\<Sum>c\<leftarrow>cs. path_lost_packets (stats c))"
  "active_conns (foldl (\<lambda>t c. append_conn_stats_to_tunnel_stat t (stats c)) t cs) =
     active_conns t + word_of_nat (length cs)"
  by (induction cs arbitrary: t)
    (simp_all add: append_conn_stats_to_tunnel_stat_def add.assoc)

lemma reported_totals:
  "rx_bytes (reported_stat stats st) =
     (\<Sum>c\<leftarrow>st_connections st. udp_rx_bytes (stats c)) + rx_bytes (st_stat st)"
  "tx_bytes (reported_stat stats st) =
     (\<Sum>c\<leftarrow>st_connections st. udp_tx_bytes (stats c)) + tx_bytes (st_stat st)"
  "lost_packets (reported_stat stats st) =
     (\<Sum>c\<leftarrow>st_connections st. path_lost_packets (stats c)) + lost_packets (st_stat st)"
  "active_conns (reported_stat stats st) = word_of_nat (length (st_connections st))"
  by (simp_all add: reported_stat_def Let_def foldl_append_stats stat_default_def)

lemma sum_list_removeAll:
  fixes f :: "'b \<Rightarrow> 'a::comm_monoid_add"
  assumes "distinct cs" and "c \<in> set cs"
  shows "(\<Sum>x\<leftarrow>removeAll c cs. f x) + f c = (\<Sum>x\<leftarrow>cs. f x)"
  using assms
proof (induction cs)
  case Nil
  then show ?case by simp
next
  case (Cons x cs)
  show ?case
  proof (cases "x = c")
    case True
    then show ?thesis using Cons.prems by (simp add: add.commute)
  next
    case False
    then have "(\<Sum>x\<leftarrow>removeAll c cs. f x) + f c = (\<Sum>x\<leftarrow>cs. f x)" using Cons by simp
    then show ?thesis using False by (simp add: add.assoc)
  qed
qed

section \<open>Parts of the state an operation leaves alone\<close>

lemma post_event_sel [simp]:
  "st_tcp_servers (post_event ev st) = st_tcp_servers st"
  "st_udp_servers (post_event ev st) = st_udp_servers st"
  "st_tcp_receivers (post_event ev st) = st_tcp_receivers st"
  "st_endpoint (post_event ev st) = st_endpoint st"
  "st_connections (post_event ev st) = st_connections st"
  "st_server_ipv6 (post_event ev st) = st_server_ipv6 st"
  "st_phase (post_event ev st) = st_phase st"
  "st_stat (post_event ev st) = st_stat st"
  by (simp_all add: post_event_def)

lemmas post_defs = post_tunnel_log_def post_tunnel_state_def post_tunnel_stat_def

section \<open>Properties\<close>

text \<open>
  When a connection ends, its traffic moves from the live connections into the total:
  after both steps the report shows the same bytes and packets as before, with one connection
  less. Between the two steps, while the connection is still in the table, its traffic is
  counted twice.
\<close>

lemma traffic_conserved:
  assumes "distinct (st_connections st)" and "c \<in> set (st_connections st)"
  shows "rx_bytes (reported_stat stats (remove_connection c (add_connection_stats_to_total (stats c) st))) =
      rx_bytes (reported_stat stats st) \<and>
    tx_bytes (reported_stat stats (remove_connection c (add_connection_stats_to_total (stats c) st))) =
      tx_bytes (reported_stat stats st) \<and>
    lost_packets (reported_stat stats (remove_connection c (add_connection_stats_to_total (stats c) st))) =
      lost_packets (reported_stat stats st) \<and>
    active_conns (reported_stat stats (remove_connection c (add_connection_stats_to_total (stats c) st))) + 1 =
      active_conns (reported_stat stats st) \<and>
    rx_bytes (reported_stat stats (add_connection_stats_to_total (stats c) st)) =
      rx_bytes (reported_stat stats st) + udp_rx_bytes (stats c)"
proof -
  note s = sum_list_removeAll [OF assms]
  have l: "word_of_nat (length (removeAll c (st_connections st))) + 1 =
      (word_of_nat (length (st_connections st)) :: u32)"
  proof -
    have "length (removeAll c (st_connections st)) = length (st_connections st) - 1"
      using assms by (simp add: distinct_remove1_removeAll [symmetric] length_remove1)
    moreover have "0 < length (st_connections st)" using assms(2) by (cases "st_connections st") auto
    ultimately have "length (st_connections st) = Suc (length (removeAll c (st_connections st)))"
      by simp
    then show ?thesis by simp
  qed
  show ?thesis
    unfolding reported_totals using l
    by (simp add: remove_connection_def add_connection_stats_to_total_def Let_def ac_simps
        s [of "\<lambda>x. udp_rx_bytes (stats x)", symmetric]
        s [of "\<lambda>x. udp_tx_bytes (stats x)", symmetric]
        s [of "\<lambda>x. path_lost_packets (stats x)", symmetric])
qed

definition busy_state :: "nat client_state" where
  "busy_state = client_state_new\<lparr>st_connections := [1, 2]\<rparr>"

definition some_stats :: "usize \<Rightarrow> conn_stats" where
  "some_stats c = \<lparr>udp_rx_bytes = 100, udp_rx_datagrams = 1, udp_tx_bytes = 50, udp_tx_datagrams = 1,
     path_sent_packets = 1, path_lost_packets = 0, path_lost_bytes = 0, path_congestion_events = 0,
     path_black_holes = 0, path_rtt_ms = 10, path_cwnd = 1000, path_mtu = 1200\<rparr>"

lemma traffic_conserved_witness:
  "rx_bytes (reported_stat some_stats
       (remove_connection 1 (add_connection_stats_to_total (some_stats 1) busy_state))) = 200 \<and>
   rx_bytes (reported_stat some_stats (add_connection_stats_to_total (some_stats 1) busy_state)) = 300"
proof -
  have "rx_bytes (reported_stat some_stats busy_state) = 200"
    unfolding reported_totals by (simp add: busy_state_def some_stats_def client_state_new_def stat_default_def)
  moreover have "distinct (st_connections busy_state)" "1 \<in> set (st_connections busy_state)"
    by (simp_all add: busy_state_def)
  ultimately show ?thesis using traffic_conserved [of busy_state 1 some_stats]
    by (simp add: some_stats_def)
qed

lemma is_ipv6_unspecified [simp]: "is_ipv6 (socket_addr_with_unspecified_ip_port b) = b"
  by (cases b) simp_all

definition fits :: "endpoint \<Rightarrow> socket_addr \<Rightarrow> bool" where
  "fits ep remote_addr \<longleftrightarrow>
     (case ep_local_addr ep of Some a \<Rightarrow> is_ipv6 a = is_ipv6 remote_addr | None \<Rightarrow> False)"

lemma choose_endpoint_spec:
  assumes "\<forall>a ep. made a = Some ep \<longrightarrow> fits ep a"
    and "choose_endpoint remote_addr made st = (r, st')"
  shows "(case r of Inr ep \<Rightarrow> st_endpoint st' = Some ep \<and>
            (fits ep remote_addr \<or> st_endpoint st = Some ep \<and> st_connections st \<noteq> [])
          | Inl _ \<Rightarrow> st_endpoint st' = None) \<and>
    (st_connections st \<noteq> [] \<and> st_endpoint st \<noteq> None \<longrightarrow> st_endpoint st' = st_endpoint st) \<and>
    st_connections st' = st_connections st \<and> st_phase st' = st_phase st"
proof -
  have f: "fits ep (socket_addr_with_unspecified_ip_port (is_ipv6 remote_addr)) = fits ep remote_addr" for ep
    by (simp add: fits_def split: option.split)
  show ?thesis
  proof (cases "st_endpoint st")
    case None
    show ?thesis
    proof (cases "made (socket_addr_with_unspecified_ip_port (is_ipv6 remote_addr))")
      case n: None
      with None assms(2) show ?thesis
        by (auto simp: choose_endpoint_def reuse_endpoint_def)
    next
      case (Some ep)
      then have "fits ep remote_addr" using assms(1) f by blast
      with Some None assms(2) show ?thesis
        by (auto simp: choose_endpoint_def reuse_endpoint_def)
    qed
  next
    case ep: (Some ep)
    show ?thesis
    proof (cases "fits ep remote_addr \<or> st_connections st \<noteq> []")
      case True
      then have "reuse_endpoint remote_addr st = (Some ep, st)"
        using ep by (auto simp: reuse_endpoint_def fits_def clear_cached_endpoint_if_idle_def)
      with True ep assms(2) show ?thesis by (auto simp: choose_endpoint_def)
    next
      case False
      then have re: "reuse_endpoint remote_addr st = (None, st\<lparr>st_endpoint := None\<rparr>)"
        using ep by (auto simp: reuse_endpoint_def fits_def clear_cached_endpoint_if_idle_def)
      show ?thesis
      proof (cases "made (socket_addr_with_unspecified_ip_port (is_ipv6 remote_addr))")
        case n: None
        with re False assms(2) show ?thesis by (auto simp: choose_endpoint_def)
      next
        case (Some ep')
        then have "fits ep' remote_addr" using assms(1) f by blast
        with re Some False assms(2) show ?thesis by (auto simp: choose_endpoint_def)
      qed
    qed
  qed
qed

text \<open>
  The endpoint of a connection attempt: it is the one cached from then on; its address
  family is that of the server, unless it is the cached one and other connections still use
  it; an endpoint in use is never replaced; and a failed attempt drops the cached endpoint
  exactly when no connection is open and the client is not stopping.
\<close>

lemma endpoint_choice:
  assumes "\<forall>a ep. made a = Some ep \<longrightarrow> fits ep a"
    and "choose_endpoint remote_addr made st = (r, st')"
  shows "(case r of Inr ep \<Rightarrow> st_endpoint st' = Some ep \<and>
            (fits ep remote_addr \<or> st_endpoint st = Some ep \<and> st_connections st \<noteq> [])
          | Inl _ \<Rightarrow> st_endpoint st' = None) \<and>
    (st_connections st \<noteq> [] \<and> st_endpoint st \<noteq> None \<longrightarrow> st_endpoint st' = st_endpoint st) \<and>
    st_connections st' = st_connections st \<and>
    (fst (connect_once cfg now msg d (Some remote_addr) made io st) = Inl e \<longrightarrow>
       st_endpoint (snd (connect_once cfg now msg d (Some remote_addr) made io st)) =
         (if st_connections st = [] \<and> \<not> should_quit st then None else st_endpoint st'))"
proof -
  note ch = choose_endpoint_spec [OF assms]
  have lg: "st_endpoint (snd (login cfg now msg d (io ep) st')) = st_endpoint st' \<and>
      st_connections (snd (login cfg now msg d (io ep) st')) = st_connections st' \<and>
      st_phase (snd (login cfg now msg d (io ep) st')) = st_phase st'" for ep
    by (simp add: login_def Let_def post_defs split: sum.split)
  have "st_endpoint (snd (connect_once cfg now msg d (Some remote_addr) made io st)) =
         (if st_connections st = [] \<and> \<not> should_quit st then None else st_endpoint st')"
    if "fst (connect_once cfg now msg d (Some remote_addr) made io st) = Inl e"
  proof (cases r)
    case (Inl x)
    then show ?thesis using that assms(2) ch
      by (auto simp: connect_once_def should_quit_def clear_cached_endpoint_if_idle_def post_defs)
  next
    case (Inr ep)
    obtain q st2 where q: "login cfg now msg d (io ep) st' = (q, st2)" by fastforce
    have "q = Inl e" using that q Inr assms(2) by (auto simp: connect_once_def split: sum.splits)
    then show ?thesis using q Inr assms(2) ch lg [of ep]
      by (auto simp: connect_once_def should_quit_def clear_cached_endpoint_if_idle_def post_defs)
  qed
  with ch show ?thesis by blast
qed

lemma prepare_login_config_ok:
  assumes "prepare_login_config env quic_ok dflt res ipv6 cfg rotation = (Inr lc, rotation')"
  shows "parse_server_addr res ipv6 cfg = Inr (lc_remote_addr lc)"
    and "is_ipv6 (lc_local_addr lc) = is_ipv6 (lc_remote_addr lc)"
    and "\<exists>name. parse_client_config_and_domain env cfg = Inr (lc_verifier lc, name) \<and>
                (lc_sni_name lc, rotation') = select_sni_name (sni_names cfg) rotation name"
  using assms
  by (auto simp: prepare_login_config_def Let_def split: sum.splits prod.splits if_splits)

lemma network_tunnels_distinct:
  assumes "length (tunnels cfg) < 2 ^ 64"
  shows "distinct (map fst (network_tunnels cfg))"
proof -
  have ids: "map fst (network_tunnels cfg) =
      map (\<lambda>i. Network (of_nat i)) [0..<length (tunnels cfg)]"
    by (rule nth_equalityI) (simp_all add: network_tunnels_def nth_enumerate_eq)
  have "inj_on (\<lambda>i. Network (of_nat i :: usize)) (set [0..<length (tunnels cfg)])"
  proof (rule inj_onI)
    fix i j assume "i \<in> set [0..<length (tunnels cfg)]" "j \<in> set [0..<length (tunnels cfg)]"
      and eq: "Network (of_nat i) = Network (of_nat j)"
    then have "i < 2 ^ 64" "j < 2 ^ 64" using assms by auto
    moreover have "unat (of_nat i :: usize) = unat (of_nat j :: usize)" using eq by simp
    ultimately show "i = j" by (simp add: unat_of_nat)
  qed
  then show ?thesis by (simp add: ids distinct_map)
qed

definition v4_endpoint :: endpoint where
  "v4_endpoint = \<lparr>ep_id = 1, ep_local_addr = Some (V4 0 4000)\<rparr>"

lemma endpoint_choice_witness:
  "snd (choose_endpoint (V6 1 443 0 0) (\<lambda>_. None)
      (busy_state\<lparr>st_endpoint := Some v4_endpoint\<rparr>)) = busy_state\<lparr>st_endpoint := Some v4_endpoint\<rparr> \<and>
   st_endpoint (snd (choose_endpoint (V6 1 443 0 0) (\<lambda>_. None)
      (busy_state\<lparr>st_endpoint := Some v4_endpoint\<rparr>))) = Some v4_endpoint"
proof -
  let ?st = "busy_state\<lparr>st_endpoint := Some v4_endpoint\<rparr>"
  have c: "choose_endpoint (V6 1 443 0 0) (\<lambda>_. None) ?st = (Inr v4_endpoint, ?st)"
    by (simp add: choose_endpoint_def reuse_endpoint_def v4_endpoint_def
        clear_cached_endpoint_if_idle_def busy_state_def)
  have "st_connections ?st \<noteq> [] \<and> st_endpoint ?st \<noteq> None" by (simp add: busy_state_def)
  with endpoint_choice [OF _ c] c show ?thesis by auto
qed

lemma login_capabilities_Inr: "login_capabilities m = Inr caps \<longleftrightarrow> m = RespSuccess caps"
  by (cases m) auto

text \<open>
  A login succeeds exactly when the address was accepted, every stage finished in time
  without the client stopping, and the server answered with success; it yields that
  connection, records what the server supports, and starts the heartbeat exactly when it is
  configured. Success or not, it changes nothing else of the shared state but the event bus.
\<close>

lemma login_outcome:
  "(fst (login cfg now msg d io st) = Inr (c, hb) \<longleftrightarrow>
      io_connect io \<and> (\<exists>stats. io_connected io = StageOk (c, stats)) \<and> io_opened io = StageOk () \<and>
      io_sent io = StageOk () \<and> (\<exists>caps. io_response io = StageOk (RespSuccess caps)) \<and>
      hb = heartbeat_enabled cfg) \<and>
   st_server_ipv6 (snd (login cfg now msg d io st)) =
     (case login_stages io of
        Inl _ \<Rightarrow> st_server_ipv6 st
      | Inr (_, caps) \<Rightarrow> Some (ipv6_supported caps)) \<and>
   st_connections (snd (login cfg now msg d io st)) = st_connections st \<and>
   st_endpoint (snd (login cfg now msg d io st)) = st_endpoint st \<and>
   st_phase (snd (login cfg now msg d io st)) = st_phase st"
proof -
  have stages: "login_stages io = Inr ((c, stats), caps) \<longleftrightarrow>
      io_connect io \<and> io_connected io = StageOk (c, stats) \<and> io_opened io = StageOk () \<and>
      io_sent io = StageOk () \<and> io_response io = StageOk (RespSuccess caps)" for c stats caps
    by (cases "io_connected io"; cases "io_opened io"; cases "io_sent io"; cases "io_response io")
      (auto simp: login_stages_def run_login_stage_def login_capabilities_Inr elim!: try_then_InrE)
  have "fst (login cfg now msg d io st) = Inr (c, hb) \<longleftrightarrow>
      (\<exists>stats caps. login_stages io = Inr ((c, stats), caps)) \<and> hb = heartbeat_enabled cfg"
    by (auto simp: login_def Let_def split: sum.splits prod.splits)
  then have "fst (login cfg now msg d io st) = Inr (c, hb) \<longleftrightarrow>
      io_connect io \<and> (\<exists>stats. io_connected io = StageOk (c, stats)) \<and> io_opened io = StageOk () \<and>
      io_sent io = StageOk () \<and> (\<exists>caps. io_response io = StageOk (RespSuccess caps)) \<and>
      hb = heartbeat_enabled cfg" unfolding stages by blast
  then show ?thesis
    by (simp add: login_def Let_def post_defs split: sum.split)
qed

text \<open>
  C37. Reconnecting a TCP tunnel finds the receiver of its listener again, and the listener
  stays active. A UDP tunnel gives its receiver back only when the inner of the two selects
  sees the close of the connection first. Otherwise the receiver is gone: on every later
  connection the tunnel fails to get it, and the listener is left inactive.
\<close>

theorem udp_receiver_lost_on_reconnect:
  assumes "st_udp_servers st addr = Some s" and "udp_receiver s = Some r"
    and "st_tcp_servers st addr' = Some s'" and "tcp_receiver s' = Some r'"
    and "st_tcp_receivers st addr' = None"
  shows "fst (serve_outbound_udp now msg d addr bound b
            (snd (serve_outbound_udp now msg d addr bound False st))) = Some r \<and>
    fst (serve_outbound_udp now msg d addr bound b
            (snd (serve_outbound_udp now msg d addr bound True st))) = None \<and>
    map_option us_active (st_udp_servers (snd (serve_outbound_udp now msg d addr bound b
            (snd (serve_outbound_udp now msg d addr bound True st)))) addr) = Some False \<and>
    fst (serve_outbound_tcp now msg d addr' bound
            (snd (serve_outbound_tcp now msg d addr' bound st))) = Some r' \<and>
    map_option ts_active (st_tcp_servers (snd (serve_outbound_tcp now msg d addr' bound
            (snd (serve_outbound_tcp now msg d addr' bound st)))) addr') = Some True"
  using assms
  by (simp add: serve_outbound_udp_def serve_outbound_tcp_def get_or_init_tcp_receiver_def
      udp_take_receiver_def udp_put_receiver_def tcp_take_receiver_def post_defs Let_def)

definition udp_tunnel :: tunnel_descriptor where
  "udp_tunnel = \<lparr>td_id = Network 0, td_proto = Udp, td_mode = TOut\<rparr>"

definition listening_state :: "nat client_state" where
  "listening_state = client_state_new
     \<lparr>st_udp_servers := [V4 0 53 \<mapsto> example_udp], st_tcp_servers := [V4 0 53 \<mapsto> example_tcp]\<rparr>"

theorem udp_receiver_lost_on_reconnect_witness:
  "fst (serve_outbound_udp [] (\<lambda>_. []) udp_tunnel (V4 0 53) None False
     (snd (serve_outbound_udp [] (\<lambda>_. []) udp_tunnel (V4 0 53) None True listening_state))) = None"
proof -
  have "st_udp_servers listening_state (V4 0 53) = Some example_udp" "udp_receiver example_udp = Some 0"
    "st_tcp_servers listening_state (V4 0 53) = Some example_tcp" "tcp_receiver example_tcp = Some 0"
    "st_tcp_receivers listening_state (V4 0 53) = None"
    by (simp_all add: listening_state_def client_state_new_def example_server_defs)
  from udp_receiver_lost_on_reconnect [OF this, of "[]" "\<lambda>_. []" udp_tunnel None False]
  show ?thesis by blast
qed

end
