(* ===== verification/Socket_Protector.thy ===== *)
theory Socket_Protector
  imports Rust_Std
begin

text \<open>
  \<^verbatim>\<open>src/src/socket_protector.rs\<close>: the callback an Android application registers to
  keep the client's own sockets out of the VPN it provides. Its two builds are the two
  platforms here; the holder of the callback is the \<open>protector option\<close> that is passed on.
  A poisoned lock is recovered from, so it makes no difference.
\<close>

datatype platform = Android | OtherPlatform

type_synonym raw_fd = "32 word"

type_synonym socket_protector = "raw_fd \<Rightarrow> bool"

definition set_socket_protector ::
    "platform \<Rightarrow> socket_protector option \<Rightarrow> socket_protector option \<Rightarrow> socket_protector option" where
  "set_socket_protector plat protector current =
     (case plat of Android \<Rightarrow> protector | OtherPlatform \<Rightarrow> current)"

definition protect_socket_fd :: "platform \<Rightarrow> socket_protector option \<Rightarrow> raw_fd \<Rightarrow> bool" where
  "protect_socket_fd plat current fd =
     (case plat of
        Android \<Rightarrow> (case current of None \<Rightarrow> True | Some callback \<Rightarrow> callback fd)
      | OtherPlatform \<Rightarrow> True)"

text \<open>A UDP socket, by its descriptor and the address the system reports for it.\<close>

record udp_socket =
  us_fd :: raw_fd
  us_local_addr :: "socket_addr option"

datatype socket_error = SocketBind socket_addr | ProtectionRejected raw_fd | NoLocalAddr | NoEndpoint

definition protect_udp_socket ::
    "platform \<Rightarrow> socket_protector option \<Rightarrow> udp_socket \<Rightarrow> socket_error + unit" where
  "protect_udp_socket plat current socket =
     (if protect_socket_fd plat current (us_fd socket) then Inr ()
      else Inl (ProtectionRejected (us_fd socket)))"

text \<open>
  A callback that was registered on Android, and not replaced since, accepted every
  descriptor that passed; elsewhere every descriptor passes.
\<close>

lemma protected_registered:
  "protect_socket_fd Android (set_socket_protector Android (Some callback) old) fd = callback fd"
  "protect_socket_fd Android (set_socket_protector Android None old) fd"
  "protect_socket_fd OtherPlatform current fd"
  by (simp_all add: protect_socket_fd_def set_socket_protector_def)

end
