(* ===== verification/Client_Tasks.thy ===== *)
theory Client_Tasks
  imports Client Heartbeat Socket_Protector
begin

text \<open>
  The tasks around the tunnels of \<^verbatim>\<open>src/src/client.rs\<close>: making a client and starting
  its tunnels, the endpoint's sockets and their migration, the heartbeat task of a
  connection, and how a tunnel waits for its connection to end.
\<close>

section \<open>The sockets of the endpoint\<close>

text \<open>
  The system as the client's sockets need it: what a bind gives, whether QUIC makes an
  endpoint of a socket, whether a rebind succeeds, and whether the debug log is on (its
  message asks for the new address and fails with it).
\<close>

record net_env =
  ne_platform :: platform
  ne_protector :: "socket_protector option"
  ne_bind :: "socket_addr \<Rightarrow> udp_socket option"
  ne_endpoint_ok :: "udp_socket \<Rightarrow> bool"
  ne_rebind_ok :: "udp_socket \<Rightarrow> bool"
  ne_debug :: bool

definition bind_client_udp_socket :: "net_env \<Rightarrow> socket_addr \<Rightarrow> socket_error + udp_socket" where
  "bind_client_udp_socket env bind_addr =
     (case ne_bind env bind_addr of
        None \<Rightarrow> Inl (SocketBind bind_addr)
      | Some socket \<Rightarrow>
          try_then (protect_udp_socket (ne_platform env) (ne_protector env) socket) (\<lambda>_. Inr socket))"

definition create_client_endpoint ::
    "net_env \<Rightarrow> nat \<Rightarrow> socket_addr \<Rightarrow> socket_error + endpoint \<times> udp_socket" where
  "create_client_endpoint env i bind_addr =
     try_then (bind_client_udp_socket env bind_addr) (\<lambda>socket.
       if ne_endpoint_ok env socket
       then Inr (\<lparr>ep_id = i, ep_local_addr = us_local_addr socket\<rparr>, socket)
       else Inl NoEndpoint)"

definition migrate_endpoint :: "net_env \<Rightarrow> endpoint \<Rightarrow> socket_error + endpoint \<times> udp_socket" where
  "migrate_endpoint env ep =
     (case ep_local_addr ep of
        None \<Rightarrow> Inl NoLocalAddr
      | Some current_addr \<Rightarrow>
          try_then (bind_client_udp_socket env (migration_addr current_addr)) (\<lambda>socket.
            if ne_debug env \<and> us_local_addr socket = None then Inl NoLocalAddr
            else if ne_rebind_ok env socket
            then Inr (ep\<lparr>ep_local_addr := us_local_addr socket\<rparr>, socket)
            else Inl NoEndpoint))"

text \<open>
  One tick of the migration task, with the socket it put into use. The endpoint is shared,
  so the cached one changes its address.
\<close>

definition migration_tick :: "net_env \<Rightarrow> 's client_state \<Rightarrow> udp_socket option \<times> 's client_state" where
  "migration_tick env st =
     (case st_endpoint st of
        None \<Rightarrow> (None, st)
      | Some ep \<Rightarrow>
          (case migrate_endpoint env ep of
             Inl _ \<Rightarrow> (None, st)
           | Inr (ep', socket) \<Rightarrow> (Some socket, st\<lparr>st_endpoint := Some ep'\<rparr>)))"

fun migrations :: "net_env list \<Rightarrow> 's client_state \<Rightarrow> (net_env \<times> udp_socket) list \<times> 's client_state" where
  "migrations [] st = ([], st)"
| "migrations (env # envs) st =
     (case migration_tick env st of
        (None, st1) \<Rightarrow> migrations envs st1
      | (Some socket, st1) \<Rightarrow>
          (case migrations envs st1 of (used, st2) \<Rightarrow> ((env, socket) # used, st2)))"

section \<open>Starting and stopping\<close>

text \<open>
  A client with the tasks it has started: the tunnels, the traffic reporters and the
  migration tasks.
\<close>

record 's client =
  cl_config :: client_config
  cl_state :: "'s client_state"
  cl_reporter_once :: bool
  cl_next_tunnel_id :: usize
  cl_sni_rotation :: usize
  cl_codec_stats :: codec_stats
  cl_tunnels :: "(tunnel_id \<times> tunnel) list"
  cl_reporters :: nat
  cl_migrations :: nat

definition client_new :: "(string \<Rightarrow> server_name option) \<Rightarrow> client_config \<Rightarrow> 's client" where
  "client_new try_from config =
     \<lparr>cl_config = config\<lparr>sni_names := sanitize_sni_names try_from (sni_names config)\<rparr>,
      cl_state = client_state_new, cl_reporter_once = False, cl_next_tunnel_id = 0,
      cl_sni_rotation = 0, cl_codec_stats = codec_stats_default,
      cl_tunnels = [], cl_reporters = 0, cl_migrations = 0\<rparr>"

definition start_traffic_reporter_once :: "'s client \<Rightarrow> 's client" where
  "start_traffic_reporter_once cl =
     (if cl_reporter_once cl then cl
      else cl\<lparr>cl_reporter_once := True, cl_reporters := cl_reporters cl + 1\<rparr>)"

definition start_migration_task :: "'s client \<Rightarrow> 's client" where
  "start_migration_task cl = cl\<lparr>cl_migrations := cl_migrations cl + 1\<rparr>"

definition connect_and_serve_async :: "'s client \<Rightarrow> 's client" where
  "connect_and_serve_async cl =
     (let cl1 = start_traffic_reporter_once cl;
          cl2 = cl1\<lparr>cl_tunnels := cl_tunnels cl1 @ network_tunnels (cl_config cl1)\<rparr>
      in if 0 < hop_interval_ms (cl_config cl2) then start_migration_task cl2 else cl2)"

definition connect_and_serve_channel_async :: "upstream_type \<Rightarrow> 's client \<Rightarrow> 's client" where
  "connect_and_serve_channel_async ty cl =
     (let cl1 = start_traffic_reporter_once cl
      in case channel_tunnel ty (cl_next_tunnel_id cl1) of
           (t, next_id) \<Rightarrow> cl1\<lparr>cl_next_tunnel_id := next_id, cl_tunnels := cl_tunnels cl1 @ [t]\<rparr>)"

definition connect_and_serve_tcp_async :: "'s client \<Rightarrow> 's client" where
  "connect_and_serve_tcp_async = connect_and_serve_channel_async Tcp"

definition connect_and_serve_udp_async :: "'s client \<Rightarrow> 's client" where
  "connect_and_serve_udp_async = connect_and_serve_channel_async Udp"

text \<open>
  \<^verbatim>\<open>stop\<close>: as \<^verbatim>\<open>stop_async\<close>, but the shutdowns and closings are spawned tasks and a
  fixed sleep stands for waiting for them.
  \<^verbatim>\<open>start_tunneling\<close>: start everything, wait for the interrupt (\<open>meanwhile\<close> is what
  the tasks do to the shared state), stop.
\<close>

definition stop ::
    "bool \<Rightarrow> 's interference \<Rightarrow> 's client_state \<Rightarrow> 's stopped option \<times> 's client_state" where
  "stop connects w st =
     (let st1 = until_lock w (set_client_state CStopping st)
      in if lock_poisoned w then (None, set_client_state CTerminated (until_joined w st1))
         else case shut_down_all connects st1 of
                (sp, st2) \<Rightarrow> (Some sp, set_client_state CTerminated (until_joined w st2)))"

definition start_tunneling ::
    "bool \<Rightarrow> ('s client_state \<Rightarrow> 's client_state) \<Rightarrow> 's interference \<Rightarrow> 's client \<Rightarrow>
     's stopped option \<times> 's client" where
  "start_tunneling connects meanwhile w cl =
     (let cl1 = connect_and_serve_async cl
      in case stop_async connects w (meanwhile (cl_state cl1)) of
           (sp, st) \<Rightarrow> (sp, cl1\<lparr>cl_state := st\<rparr>))"

definition get_config :: "'s client \<Rightarrow> client_config" where
  "get_config cl = cl_config cl"

definition get_state :: "'s client \<Rightarrow> client_phase" where
  "get_state cl = st_phase (cl_state cl)"

definition is_server_ipv6_supported :: "'s client \<Rightarrow> bool option" where
  "is_server_ipv6_supported cl = st_server_ipv6 (cl_state cl)"

definition register_for_events :: "'s client \<Rightarrow> chan_id \<times> 's client" where
  "register_for_events cl =
     (case register (st_bus (cl_state cl)) of
        (c, bus) \<Rightarrow> (c, cl\<lparr>cl_state := (cl_state cl)\<lparr>st_bus := bus\<rparr>\<rparr>))"

definition has_event_listeners :: "'s client \<Rightarrow> bool" where
  "has_event_listeners cl = has_listeners (st_bus (cl_state cl))"

section \<open>The end of a connection\<close>

text \<open>
  Why a connection is closed; the first reason stays. \<^verbatim>\<open>wait_until_stopping\<close> polls the
  phase: given what it reads at each poll, the number of sleeps before it returns.
\<close>

datatype close_reason = LocallyClosed u32 string | ApplicationClosed u32 string | ConnectionLost

fun close_conn :: "u32 \<Rightarrow> string \<Rightarrow> close_reason option \<Rightarrow> close_reason option" where
  "close_conn code reason None = Some (LocallyClosed code reason)"
| "close_conn code reason (Some r) = Some r"

fun wait_until_stopping :: "client_phase list \<Rightarrow> nat option" where
  "wait_until_stopping [] = None"
| "wait_until_stopping (p # ps) =
     (if p = CStopping \<or> p = CTerminated then Some 0 else map_option Suc (wait_until_stopping ps))"

text \<open>
  What \<^verbatim>\<open>select!\<close> sees first: the connection closed, or the tunnel's task ended while the
  connection was open or already closed. After the task the code waits for the connection
  to be closed; \<open>None\<close> is the wait that does not return by itself.
\<close>

datatype 'e tunnel_race = ClosedFirst close_reason | TaskFirst "'e + unit" "close_reason option"

fun wait_for_connection_close_with ::
    "(close_reason option \<Rightarrow> close_reason option) \<Rightarrow> 'e tunnel_race \<Rightarrow> close_reason option" where
  "wait_for_connection_close_with on_tunnel_end (ClosedFirst r) = Some r"
| "wait_for_connection_close_with on_tunnel_end (TaskFirst result conn) = on_tunnel_end conn"

definition wait_for_connection_close :: "'e tunnel_race \<Rightarrow> close_reason option" where
  "wait_for_connection_close =
     wait_for_connection_close_with
       (\<lambda>conn. if conn = None then close_conn 1 ''tunnel task ended'' conn else conn)"

text \<open>
  \<^verbatim>\<open>start_heartbeat_task\<close>: the task runs until the connection closes first or the
  heartbeat ends, an error closing the connection. When it is over, and at once when the
  heartbeat is disabled, both halves of the login stream are dropped; a sending half that is
  dropped finishes its stream. The result is that half and the state of the connection.
\<close>

definition start_heartbeat_task ::
    "client_config \<Rightarrow> bincode \<Rightarrow> (nat \<Rightarrow> client_phase) \<Rightarrow> close_reason option \<Rightarrow> instream \<Rightarrow> sink \<Rightarrow>
     sink \<times> close_reason option" where
  "start_heartbeat_task cfg b at_poll conn quic_recv quic_send =
     (if \<not> heartbeat_enabled cfg then (quic_send\<lparr>finished := True\<rparr>, conn)
      else if conn \<noteq> None then (quic_send\<lparr>finished := True\<rparr>, conn)
      else (let hb = client_heartbeat b (\<lambda>i. at_poll i = CStopping \<or> at_poll i = CTerminated) 0 0
                       quic_recv quic_send []
            in ((writer hb)\<lparr>finished := True\<rparr>,
                if outcome hb = HbStopped then conn else close_conn 1 ''heartbeat failed'' conn)))"

section \<open>Lemmas\<close>

lemma bind_client_udp_socket_Inr:
  "bind_client_udp_socket env a = Inr s \<longleftrightarrow>
     ne_bind env a = Some s \<and> protect_socket_fd (ne_platform env) (ne_protector env) (us_fd s)"
  by (auto simp: bind_client_udp_socket_def protect_udp_socket_def split: option.split)

text \<open>
  A tunnel always gets out of the wait for its connection, with the connection closed: for
  the reason it had, or because the tunnel's task ended.
\<close>

lemma wait_for_connection_close_returns:
  "wait_for_connection_close race =
     Some (case race of
             ClosedFirst r \<Rightarrow> r
           | TaskFirst _ (Some r) \<Rightarrow> r
           | TaskFirst _ None \<Rightarrow> LocallyClosed 1 ''tunnel task ended'')"
  by (simp add: wait_for_connection_close_def split: tunnel_race.split option.split)

text \<open>The poll for the stop flag returns at the first poll that sees it.\<close>

lemma wait_until_stopping_first:
  "wait_until_stopping ps = Some n \<longleftrightarrow>
     n < length ps \<and> ps ! n \<noteq> CIdle \<and> (\<forall>m < n. ps ! m = CIdle)"
proof (induction ps arbitrary: n)
  case (Cons p ps)
  then show ?case
    by (cases n; cases p) (auto simp: nth_Cons less_Suc_eq_0_disj split: nat.splits)
qed simp

text \<open>
  A heartbeat task that is over while the client is not stopping leaves a closed connection
  behind, so the tunnel that waits for it goes on to reconnect.
\<close>

lemma heartbeat_failure_closes:
  assumes "heartbeat_enabled cfg" and "\<And>i. at_poll i = CIdle"
  shows "snd (start_heartbeat_task cfg b at_poll conn quic_recv quic_send) =
    Some (case conn of None \<Rightarrow> LocallyClosed 1 ''heartbeat failed'' | Some r \<Rightarrow> r)"
proof -
  have "outcome (client_heartbeat b (\<lambda>i. at_poll i = CStopping \<or> at_poll i = CTerminated) i seq r w log) \<noteq> HbStopped"
    for i seq r w log
    using assms(2)
    by (induction b "\<lambda>i. at_poll i = CStopping \<or> at_poll i = CTerminated" i seq r w log rule: client_heartbeat.induct)
      (subst client_heartbeat.simps, simp add: Let_def split: prod.splits sum.splits recv_error.splits read_error.splits)
  then show ?thesis using assms(1) by (simp add: start_heartbeat_task_def Let_def split: option.split)
qed

text \<open>The system binds a socket in the family it is asked for.\<close>

definition family_kept :: "net_env \<Rightarrow> bool" where
  "family_kept env \<longleftrightarrow>
     (\<forall>a s l. ne_bind env a = Some s \<longrightarrow> us_local_addr s = Some l \<longrightarrow> is_ipv6 l = is_ipv6 a)"

text \<open>The endpoint is the given one, of the given family as far as its address is known.\<close>

definition endpoint_of :: "nat \<Rightarrow> bool \<Rightarrow> endpoint \<Rightarrow> bool" where
  "endpoint_of i v6 ep \<longleftrightarrow> ep_id ep = i \<and> (\<forall>a. ep_local_addr ep = Some a \<longrightarrow> is_ipv6 a = v6)"

definition socket_allowed :: "net_env \<times> udp_socket \<Rightarrow> bool" where
  "socket_allowed = (\<lambda>(env, s). protect_socket_fd (ne_platform env) (ne_protector env) (us_fd s))"

lemma create_client_endpoint_Inr:
  assumes "create_client_endpoint env i a = Inr (ep, s)" and "family_kept env"
  shows "endpoint_of i (is_ipv6 a) ep \<and> socket_allowed (env, s)"
  using assms
  by (cases "bind_client_udp_socket env a")
    (auto simp: create_client_endpoint_def bind_client_udp_socket_Inr endpoint_of_def socket_allowed_def
      family_kept_def split: if_splits)

lemma migrate_endpoint_Inr:
  assumes "migrate_endpoint env ep = Inr (ep', s)" and "family_kept env" and "endpoint_of i v6 ep"
  shows "endpoint_of i v6 ep' \<and> socket_allowed (env, s)"
proof -
  obtain a where a: "ep_local_addr ep = Some a"
    using assms(1) by (auto simp: migrate_endpoint_def split: option.splits)
  obtain s' where s: "bind_client_udp_socket env (migration_addr a) = Inr s'"
    using assms(1) by (cases "bind_client_udp_socket env (migration_addr a)") (auto simp: migrate_endpoint_def a)
  have ep: "s' = s" "ep' = ep\<lparr>ep_local_addr := us_local_addr s\<rparr>"
    using assms(1) by (auto simp: migrate_endpoint_def a s split: if_splits)
  have "is_ipv6 a = v6" using assms(3) a by (simp add: endpoint_of_def)
  then show ?thesis
    using assms(2,3) s ep
    by (auto simp: bind_client_udp_socket_Inr endpoint_of_def socket_allowed_def family_kept_def migration_addr_def)
qed

lemma migrations_spec:
  assumes "list_all family_kept envs" and "st_endpoint st = Some ep" and "endpoint_of i v6 ep"
  shows "\<exists>ep'. snd (migrations envs st) = st\<lparr>st_endpoint := Some ep'\<rparr> \<and> endpoint_of i v6 ep' \<and>
    list_all socket_allowed (fst (migrations envs st))"
  using assms
proof (induction envs arbitrary: st ep)
  case Nil
  then show ?case by (intro exI [of _ ep]) simp
next
  case (Cons env envs)
  show ?case
  proof (cases "migrate_endpoint env ep")
    case (Inl e)
    then show ?thesis using Cons by (simp add: migration_tick_def)
  next
    case (Inr p)
    obtain ep1 s where p: "p = (ep1, s)" by (rule prod.exhaust)
    have 1: "endpoint_of i v6 ep1 \<and> socket_allowed (env, s)"
      using migrate_endpoint_Inr [of env ep ep1 s i v6] Inr p Cons.prems by simp
    from Cons.IH [of "st\<lparr>st_endpoint := Some ep1\<rparr>" ep1] Cons.prems 1
    obtain ep' where "snd (migrations envs (st\<lparr>st_endpoint := Some ep1\<rparr>)) = st\<lparr>st_endpoint := Some ep'\<rparr>"
      "endpoint_of i v6 ep'" "list_all socket_allowed (fst (migrations envs (st\<lparr>st_endpoint := Some ep1\<rparr>)))"
      by auto
    then show ?thesis using Inr p 1 Cons.prems
      by (intro exI [of _ ep']) (simp add: migration_tick_def case_prod_beta)
  qed
qed

text \<open>The calls that start tunnels, in any order.\<close>

datatype start_call = StartNetwork | StartTcp | StartUdp

fun run_start :: "start_call \<Rightarrow> 's client \<Rightarrow> 's client" where
  "run_start StartNetwork = connect_and_serve_async"
| "run_start StartTcp = connect_and_serve_tcp_async"
| "run_start StartUdp = connect_and_serve_udp_async"

fun channel_ids :: "(tunnel_id \<times> tunnel) list \<Rightarrow> usize list" where
  "channel_ids [] = []"
| "channel_ids ((Channel i ty, t) # ts) = i # channel_ids ts"
| "channel_ids ((Network i, t) # ts) = channel_ids ts"

definition is_channel_call :: "start_call \<Rightarrow> bool" where
  "is_channel_call c \<longleftrightarrow> c \<noteq> StartNetwork"

lemma channel_ids_append [simp]: "channel_ids (ts @ us) = channel_ids ts @ channel_ids us"
  by (induction ts rule: channel_ids.induct) auto

lemma channel_ids_network [simp]: "channel_ids (network_tunnels cfg) = []"
proof -
  have "channel_ids (map (\<lambda>(k, t). (Network (of_nat k), NetworkBased t)) xs) = []" for xs :: "(nat \<times> tunnel_config) list"
    by (induction xs) auto
  then show ?thesis by (simp add: network_tunnels_def)
qed

lemmas start_defs = connect_and_serve_async_def connect_and_serve_tcp_async_def
  connect_and_serve_udp_async_def connect_and_serve_channel_async_def
  start_traffic_reporter_once_def start_migration_task_def channel_tunnel_def Let_def

lemma run_start_sel [simp]:
  "cl_config (run_start x cl) = cl_config cl"
  "cl_next_tunnel_id (run_start x cl) = cl_next_tunnel_id cl + (if is_channel_call x then 1 else 0)"
  "channel_ids (cl_tunnels (run_start x cl)) =
     channel_ids (cl_tunnels cl) @ (if is_channel_call x then [cl_next_tunnel_id cl] else [])"
  "cl_reporters (run_start x cl) = cl_reporters cl + (if cl_reporter_once cl then 0 else 1)"
  "cl_reporter_once (run_start x cl)"
  "cl_migrations (run_start x cl) =
     cl_migrations cl + (if 0 < hop_interval_ms (cl_config cl) \<and> x = StartNetwork then 1 else 0)"
  by (cases x; simp add: start_defs is_channel_call_def)+

lemma start_calls:
  "cl_config (foldl (\<lambda>c x. run_start x c) cl xs) = cl_config cl"
  "cl_next_tunnel_id (foldl (\<lambda>c x. run_start x c) cl xs) =
     cl_next_tunnel_id cl + of_nat (length (filter is_channel_call xs))"
  "channel_ids (cl_tunnels (foldl (\<lambda>c x. run_start x c) cl xs)) = channel_ids (cl_tunnels cl) @
     map (\<lambda>k. cl_next_tunnel_id cl + of_nat k) [0..<length (filter is_channel_call xs)]"
  "cl_reporter_once (foldl (\<lambda>c x. run_start x c) cl xs) \<longleftrightarrow> cl_reporter_once cl \<or> xs \<noteq> []"
  "cl_reporters (foldl (\<lambda>c x. run_start x c) cl xs) =
     cl_reporters cl + (if cl_reporter_once cl \<or> xs = [] then 0 else 1)"
  "cl_migrations (foldl (\<lambda>c x. run_start x c) cl xs) = cl_migrations cl +
     (if 0 < hop_interval_ms (cl_config cl) then count_list xs StartNetwork else 0)"
  by (induction xs rule: rev_induct) simp_all

section \<open>Properties\<close>

text \<open>
  C25. The sockets of the client's QUIC endpoint: when the client has no endpoint it makes one
  for the family of the server's address, and however often the migration task then moves it
  it stays the same endpoint, in the same family, with the rest of the client's state
  untouched; every socket put into use, first and later ones, was accepted by the protector
  registered at that moment. (The system binds sockets in the family asked for.)
\<close>

theorem endpoint_sockets:
  assumes "family_kept env" and "list_all family_kept envs"
    and "st_endpoint st = None"
    and "create_client_endpoint env i (socket_addr_with_unspecified_ip_port (is_ipv6 remote_addr)) = Inr (ep, s)"
  defines "made \<equiv> \<lambda>a. case create_client_endpoint env i a of Inr (ep, _) \<Rightarrow> Some ep | Inl _ \<Rightarrow> None"
  shows "\<exists>st1 ep'. choose_endpoint remote_addr made st = (Inr ep, st1) \<and>
    snd (migrations envs st1) = st\<lparr>st_endpoint := Some ep'\<rparr> \<and>
    ep_id ep' = i \<and> (\<forall>a. ep_local_addr ep' = Some a \<longrightarrow> is_ipv6 a = is_ipv6 remote_addr) \<and>
    (\<forall>(env', s') \<in> set ((env, s) # fst (migrations envs st1)).
       protect_socket_fd (ne_platform env') (ne_protector env') (us_fd s'))"
proof -
  have made: "choose_endpoint remote_addr made st = (Inr ep, st\<lparr>st_endpoint := Some ep\<rparr>)"
    using assms(3,4) by (simp add: choose_endpoint_def reuse_endpoint_def made_def)
  have ep: "endpoint_of i (is_ipv6 remote_addr) ep \<and> socket_allowed (env, s)"
    using create_client_endpoint_Inr [OF assms(4,1)] by simp
  from migrations_spec [OF assms(2), of "st\<lparr>st_endpoint := Some ep\<rparr>" ep i "is_ipv6 remote_addr"] ep
  obtain ep' where "snd (migrations envs (st\<lparr>st_endpoint := Some ep\<rparr>)) = st\<lparr>st_endpoint := Some ep'\<rparr>"
    "endpoint_of i (is_ipv6 remote_addr) ep'"
    "list_all socket_allowed (fst (migrations envs (st\<lparr>st_endpoint := Some ep\<rparr>)))" by auto
  with made ep show ?thesis
    by (intro exI [of _ "st\<lparr>st_endpoint := Some ep\<rparr>"] exI [of _ ep'])
      (auto simp: endpoint_of_def socket_allowed_def list_all_iff)
qed

text \<open>An Android client whose protector knows descriptor 4, moved once.\<close>

definition vpn_env :: net_env where
  "vpn_env =
     \<lparr>ne_platform = Android, ne_protector = Some (\<lambda>fd. fd = 4),
      ne_bind = (\<lambda>a. Some \<lparr>us_fd = 4, us_local_addr = Some (set_port 40000 a)\<rparr>),
      ne_endpoint_ok = (\<lambda>_. True), ne_rebind_ok = (\<lambda>_. True), ne_debug = True\<rparr>"

theorem endpoint_sockets_witness:
  "\<exists>st1 ep ep'. choose_endpoint (V4 localhost_v4 3515)
      (\<lambda>a. case create_client_endpoint vpn_env 1 a of Inr (ep, _) \<Rightarrow> Some ep | Inl _ \<Rightarrow> None)
      (client_state_new :: nat client_state) = (Inr ep, st1) \<and>
    snd (migrations [vpn_env] st1) = client_state_new\<lparr>st_endpoint := Some ep'\<rparr> \<and> ep_id ep' = 1"
proof -
  have bound: "bind_client_udp_socket vpn_env a = Inr \<lparr>us_fd = 4, us_local_addr = Some (set_port 40000 a)\<rparr>" for a
    by (simp add: bind_client_udp_socket_def protect_udp_socket_def protect_socket_fd_def vpn_env_def)
  have fam: "family_kept vpn_env"
  proof -
    have "is_ipv6 (set_port p a) = is_ipv6 a" for p a by (cases a) simp_all
    then show ?thesis by (auto simp: family_kept_def vpn_env_def)
  qed
  have made: "create_client_endpoint vpn_env 1 (socket_addr_with_unspecified_ip_port (is_ipv6 (V4 localhost_v4 3515))) =
      Inr (\<lparr>ep_id = 1, ep_local_addr = Some (set_port 40000 (socket_addr_with_unspecified_ip_port (is_ipv6 (V4 localhost_v4 3515))))\<rparr>,
        \<lparr>us_fd = 4, us_local_addr = Some (set_port 40000 (socket_addr_with_unspecified_ip_port (is_ipv6 (V4 localhost_v4 3515))))\<rparr>)"
    unfolding create_client_endpoint_def bound by (simp add: vpn_env_def)
  have none: "st_endpoint (client_state_new :: nat client_state) = None" by (simp add: client_state_new_def)
  have all: "list_all family_kept [vpn_env]" by (simp add: fam)
  from endpoint_sockets [OF fam all none made] show ?thesis by blast
qed

text \<open>
  The tasks of a client, over any sequence of calls that start tunnels: the traffic
  reporter is started once; every tunnel over a channel has an identifier of its own (for
  fewer than \<open>2 ^ 64\<close> of them); and a migration task is started by each call for the
  configured tunnels when hopping is on, and never otherwise.
\<close>

lemma tasks_started:
  fixes config :: client_config and try_from :: "string \<Rightarrow> server_name option"
  assumes "length calls < 2 ^ 64"
  defines "cl \<equiv> foldl (\<lambda>c x. run_start x c) (client_new try_from config :: 's client) calls"
  shows "cl_reporters cl = (if calls = [] then 0 else 1) \<and>
    distinct (channel_ids (cl_tunnels cl)) \<and>
    length (channel_ids (cl_tunnels cl)) = length (filter (\<lambda>c. c \<noteq> StartNetwork) calls) \<and>
    cl_migrations cl = (if 0 < hop_interval_ms config then count_list calls StartNetwork else 0)"
proof -
  let ?n = "length (filter is_channel_call calls)"
  have n: "?n < 2 ^ 64" using assms(1) length_filter_le [of is_channel_call calls] by linarith
  have ids: "channel_ids (cl_tunnels cl) = map of_nat [0..<?n]"
    unfolding cl_def by (simp add: start_calls client_new_def)
  have "inj_on (of_nat :: nat \<Rightarrow> usize) {0..<?n}"
    using n by (intro inj_onI) (auto simp: word_of_nat_eq_iff take_bit_nat_eq_self)
  then have "distinct (channel_ids (cl_tunnels cl))" by (simp add: ids distinct_map)
  moreover have "?n = length (filter (\<lambda>c. c \<noteq> StartNetwork) calls)"
    by (simp add: is_channel_call_def [abs_def])
  ultimately show ?thesis
    unfolding ids by (simp add: ids) (simp add: cl_def start_calls client_new_def)
qed

lemma tasks_started_witness:
  "distinct (channel_ids (cl_tunnels (foldl (\<lambda>c x. run_start x c)
     (client_new (\<lambda>_. None) sample_config :: nat client) [StartTcp, StartNetwork, StartTcp]))) \<and>
   length (channel_ids (cl_tunnels (foldl (\<lambda>c x. run_start x c)
     (client_new (\<lambda>_. None) sample_config :: nat client) [StartTcp, StartNetwork, StartTcp]))) = 2"
  using tasks_started [of "[StartTcp, StartNetwork, StartTcp]" "\<lambda>_. None" sample_config, where 's = nat]
  by simp

end
