(* ===== verification/Command_Line.thy ===== *)
theory Command_Line
  imports Server_Run Client_Tasks
begin

text \<open>
  \<^verbatim>\<open>src/src/bin/rstun.rs\<close>: the two commands of the program, composed of the
  configuration, the client and the server. The argument parser \<^verbatim>\<open>clap\<close> is represented
  by the records of its results; the number of processors is an argument.
\<close>

section \<open>The commands\<close>

datatype commands = CmdClient client_args | CmdServer server_args usize

text \<open>
  \<^verbatim>\<open>run_client\<close>: a configuration that is refused is logged and nothing is started.
  \<open>meanwhile\<close> is what the tasks do to the shared state until the interrupt, and \<open>w\<close> what
  happens around the stop.
\<close>

definition run_client ::
    "(string \<Rightarrow> server_name option) \<Rightarrow> usize \<Rightarrow> bool \<Rightarrow> ('s client_state \<Rightarrow> 's client_state) \<Rightarrow>
     's interference \<Rightarrow> client_args \<Rightarrow> config_error + 's stopped option \<times> 's client" where
  "run_client try_from num_cpus connects meanwhile w args =
     try_then (create try_from num_cpus args) (\<lambda>config.
       Inr (start_tunneling connects meanwhile w (client_new try_from config)))"

datatype server_failure = BadConfig config_error | BindFailed bind_error | ServeFailed

definition run_server_async ::
    "('cert, 'key) server_env \<Rightarrow> (socket_addr \<Rightarrow> bool) \<Rightarrow> server_args \<Rightarrow>
     server_failure + ('cert, 'key) server" where
  "run_server_async env endpoint_ok args =
     try_then (map_err BadConfig (server_config_of args)) (\<lambda>config.
       case bind env endpoint_ok (server_new config) of
         (Inl e, _) \<Rightarrow> Inl (BindFailed e)
       | (Inr _, sv) \<Rightarrow>
           (case serve sv of (True, sv') \<Rightarrow> Inr sv' | (False, _) \<Rightarrow> Inl ServeFailed))"

definition run_server ::
    "('cert, 'key) server_env \<Rightarrow> usize \<Rightarrow> (socket_addr \<Rightarrow> bool) \<Rightarrow> server_args \<Rightarrow> usize \<Rightarrow>
     usize \<times> ('cert, 'key) server option" where
  "run_server env num_cpus endpoint_ok args arg_workers =
     (let threads = (if 0 < arg_workers then arg_workers else num_cpus)
      in (threads, case run_server_async env endpoint_ok args of Inl _ \<Rightarrow> None | Inr sv \<Rightarrow> Some sv))"

text \<open>What the program ends up running.\<close>

datatype ('cert, 'key, 's) run =
    ClientRan "config_error + 's stopped option \<times> 's client"
  | ServerRan "usize \<times> ('cert, 'key) server option"

fun main ::
    "(string \<Rightarrow> server_name option) \<Rightarrow> usize \<Rightarrow> bool \<Rightarrow> ('s client_state \<Rightarrow> 's client_state) \<Rightarrow> 's interference \<Rightarrow>
     ('cert, 'key) server_env \<Rightarrow> (socket_addr \<Rightarrow> bool) \<Rightarrow> commands \<Rightarrow> ('cert, 'key, 's) run" where
  "main try_from num_cpus connects meanwhile w env endpoint_ok (CmdClient args) =
     ClientRan (run_client try_from num_cpus connects meanwhile w args)"
| "main try_from num_cpus connects meanwhile w env endpoint_ok (CmdServer args arg_workers) =
     ServerRan (run_server env num_cpus endpoint_ok args arg_workers)"

section \<open>Properties\<close>

text \<open>The tunnels of an accepted client configuration, counted by the mappings given.\<close>

definition mapping_count :: "string \<Rightarrow> nat" where
  "mapping_count s = (if s = [] then 0 else Suc (count_list s CHR '',''))"

lemma create_tunnels:
  assumes "create sn num_cpus a = Inr c"
  shows "length (tunnels c) = mapping_count (a_tcp_mappings a) + mapping_count (a_udp_mappings a)"
    and "t \<in> set (tunnels c) \<Longrightarrow> local_server_addr t \<noteq> None"
proof -
  from create_InrE [OF assms] obtain names tcp ts where
    p: "parse_addr_mappings (a_tcp_mappings a) Tcp [] = Inr tcp"
      "parse_addr_mappings (a_udp_mappings a) Udp tcp = Inr ts" and c: "tunnels c = ts"
    by (metis client_config_of_sel(1))
  obtain cs where cs: "tcp = cs" "length cs = mapping_count (a_tcp_mappings a)"
    "\<And>t. t \<in> set cs \<Longrightarrow> local_server_addr t \<noteq> None"
    using parse_addr_mappings_InrD [OF p(1)] unfolding mapping_count_def by (metis append_Nil)
  obtain ds where ds: "ts = tcp @ ds" "length ds = mapping_count (a_udp_mappings a)"
    "\<And>t. t \<in> set ds \<Longrightarrow> local_server_addr t \<noteq> None"
    using parse_addr_mappings_InrD [OF p(2)] unfolding mapping_count_def by metis
  show "length (tunnels c) = mapping_count (a_tcp_mappings a) + mapping_count (a_udp_mappings a)"
    using c cs ds by simp
  show "t \<in> set (tunnels c) \<Longrightarrow> local_server_addr t \<noteq> None" using c cs ds by auto
qed

lemma network_tunnels_shape:
  "length (network_tunnels cfg) = length (tunnels cfg)"
  "list_all (\<lambda>(i, t). \<exists>tc. t = NetworkBased tc \<and> tc \<in> set (tunnels cfg)) (network_tunnels cfg)"
  by (auto simp: network_tunnels_def list_all_iff enumerate_eq_zip dest: set_zip_rightD)

text \<open>
  C26. The client command from its arguments to its end. Arguments that \<open>create\<close> refuses
  start nothing. Otherwise one tunnel is started per mapping on the command line, each with
  a local address; the traffic reporter is started once and the migration task exactly when
  a hop interval is given; and after the interrupt, whatever the other tasks do before,
  during and after the moment the stop holds the lock, the client is terminated in the end.
  Unless the lock is poisoned, every connection and every listener in the tables at that
  moment is closed or told to shut down, and what is in the tables at the end was put there
  by other tasks after that moment; with a poisoned lock nothing is closed.
\<close>

theorem client_command:
  "case run_client try_from num_cpus connects meanwhile w args of
     Inl e \<Rightarrow> create try_from num_cpus args = Inl e
   | Inr (sp, cl) \<Rightarrow>
       length (cl_tunnels cl) = mapping_count (a_tcp_mappings args) + mapping_count (a_udp_mappings args) \<and>
       list_all (\<lambda>(i, t). \<exists>tc. t = NetworkBased tc \<and> local_server_addr tc \<noteq> None) (cl_tunnels cl) \<and>
       cl_reporters cl = 1 \<and> cl_migrations cl = (if a_hop_interval_ms args = 0 then 0 else 1) \<and>
       st_phase (cl_state cl) = CTerminated \<and>
       (let st1 = until_lock w (set_client_state CStopping (meanwhile client_state_new)) in
        if lock_poisoned w then sp = None
        else (\<exists>s. sp = Some s \<and> sp_closed s = st_connections st1 \<and>
            (\<forall>a. sp_tcp s a = map_option (\<lambda>l. l\<lparr>terminated := True\<rparr>) (st_tcp_servers st1 a)) \<and>
            (\<forall>a. sp_udp s a = map_option udp_shutdown (st_udp_servers st1 a))) \<and>
          (\<forall>A. (\<forall>st. set (st_connections (until_joined w st)) \<subseteq> set (st_connections st) \<union> A) \<longrightarrow>
             set (st_connections (cl_state cl)) \<subseteq> A) \<and>
          (\<forall>A. (\<forall>st. dom (st_tcp_servers (until_joined w st)) \<subseteq> dom (st_tcp_servers st) \<union> A) \<longrightarrow>
             dom (st_tcp_servers (cl_state cl)) \<subseteq> A) \<and>
          (\<forall>A. (\<forall>st. dom (st_udp_servers (until_joined w st)) \<subseteq> dom (st_udp_servers st) \<union> A) \<longrightarrow>
             dom (st_udp_servers (cl_state cl)) \<subseteq> A) \<and>
          (\<forall>A. (\<forall>st. dom (st_tcp_receivers (until_joined w st)) \<subseteq> dom (st_tcp_receivers st) \<union> A) \<longrightarrow>
             dom (st_tcp_receivers (cl_state cl)) \<subseteq> A))"
proof (cases "create try_from num_cpus args")
  case (Inl e)
  then show ?thesis by (simp add: run_client_def)
next
  case (Inr config)
  obtain names ts hb where c: "config = client_config_of num_cpus args hb names ts"
    using create_InrE [OF Inr] by metis
  have hop: "0 < hop_interval_ms config \<longleftrightarrow> a_hop_interval_ms args \<noteq> 0"
    unfolding c client_config_of_sel by (simp add: word_neq_0_conv)
  let ?cfg = "config\<lparr>sni_names := sanitize_sni_names try_from (sni_names config)\<rparr>"
  have n: "length (network_tunnels ?cfg) = mapping_count (a_tcp_mappings args) + mapping_count (a_udp_mappings args)"
    using create_tunnels(1) [OF Inr] network_tunnels_shape(1) [of ?cfg] by simp
  have l: "list_all (\<lambda>(i, t). \<exists>tc. t = NetworkBased tc \<and> local_server_addr tc \<noteq> None) (network_tunnels ?cfg)"
    using network_tunnels_shape(2) [of ?cfg]
    by (rule list.pred_mono_strong) (use create_tunnels(2) [OF Inr] in fastforce)
  let ?cl = "connect_and_serve_async (client_new try_from config)"
  let ?out = "stop_async connects w (meanwhile client_state_new)"
  have run: "run_client try_from num_cpus connects meanwhile w args = Inr (fst ?out, ?cl\<lparr>cl_state := snd ?out\<rparr>)"
    using Inr by (cases ?out) (simp add: run_client_def start_tunneling_def start_defs client_new_def Let_def)
  have "length (cl_tunnels ?cl) = mapping_count (a_tcp_mappings args) + mapping_count (a_udp_mappings args)"
    "list_all (\<lambda>(i, t). \<exists>tc. t = NetworkBased tc \<and> local_server_addr tc \<noteq> None) (cl_tunnels ?cl)"
    "cl_reporters ?cl = 1" "cl_migrations ?cl = (if a_hop_interval_ms args = 0 then 0 else 1)"
    using n l hop by (simp_all add: start_defs client_new_def Let_def del: not_None_eq)
  then show ?thesis unfolding run using stop_async_ends [of connects w "meanwhile client_state_new"]
    by (simp add: Let_def)
qed

text \<open>A connection is made while the client stops, and another after its tables were emptied.\<close>

definition busy_stop :: "nat interference" where
  "busy_stop = \<lparr>until_lock = insert_connection 8, lock_poisoned = False, until_joined = insert_connection 9\<rparr>"

theorem client_command_witness:
  "\<exists>sp cl. run_client (\<lambda>_. Some DnsName) 4 True (insert_connection 7) busy_stop example_args = Inr (Some sp, cl) \<and>
     set (sp_closed sp) = {7, 8} \<and> set (st_connections (cl_state cl)) \<subseteq> {9} \<and>
     st_phase (cl_state cl) = CTerminated"
proof -
  obtain c where "create (\<lambda>_. Some DnsName) 4 example_args = Inr c" using example_create ..
  then obtain sp cl where run: "run_client (\<lambda>_. Some DnsName) 4 True (insert_connection 7) busy_stop example_args =
      Inr (sp, cl)"
    by (cases "start_tunneling True (insert_connection 7) busy_stop (client_new (\<lambda>_. Some DnsName) c)")
      (simp add: run_client_def)
  have "\<forall>st. set (st_connections (until_joined busy_stop st)) \<subseteq> set (st_connections st) \<union> {9}"
    by (simp add: busy_stop_def insert_connection_def)
  moreover have "set (st_connections (until_lock busy_stop
      (set_client_state CStopping (insert_connection 7 client_state_new)))) = {7, 8}"
    by (auto simp: busy_stop_def insert_connection_def set_client_state_def client_state_new_def)
  moreover have "\<not> lock_poisoned busy_stop" by (simp add: busy_stop_def)
  ultimately show ?thesis
    using client_command [where try_from = "\<lambda>_. Some DnsName" and num_cpus = 4 and connects = True
        and meanwhile = "insert_connection 7" and w = busy_stop and args = example_args] run
    by (auto simp: Let_def)
qed

text \<open>
  The server command: it serves exactly when the addresses parse, the certificate and key
  load and the endpoint can be made, with the configuration of its arguments.
\<close>

lemma bound_and_served:
  "(case bind env endpoint_ok (server_new config) of
      (Inl e, _) \<Rightarrow> Inl (BindFailed e)
    | (Inr _, sv) \<Rightarrow> (case serve sv of (True, sv') \<Rightarrow> Inr sv' | (False, _) \<Rightarrow> Inl ServeFailed)) = Inr sv \<longleftrightarrow>
   (\<exists>addr q. parse_socket_addr (sc_addr config) = Some addr \<and>
      load_quinn_server_config env config = Loaded q \<and> endpoint_ok addr \<and>
      sv = (server_new config)\<lparr>sv_endpoint := Some (addr, q), sv_reloading := True, sv_serving := True\<rparr>)"
  by (cases "parse_socket_addr (sc_addr config)"; cases "load_quinn_server_config env config")
    (auto simp: bind_def serve_def server_new_def)

lemma server_command:
  "run_server env num_cpus endpoint_ok args arg_workers = (threads, Some sv) \<longleftrightarrow>
     threads = (if 0 < arg_workers then arg_workers else num_cpus) \<and>
     (\<exists>config addr q. server_config_of args = Inr config \<and>
        parse_socket_addr (sc_addr config) = Some addr \<and>
        load_quinn_server_config env config = Loaded q \<and> endpoint_ok addr \<and>
        sv = (server_new config)\<lparr>sv_endpoint := Some (addr, q), sv_reloading := True, sv_serving := True\<rparr>)"
proof -
  have "run_server_async env endpoint_ok args = Inr sv \<longleftrightarrow>
     (\<exists>config addr q. server_config_of args = Inr config \<and>
        parse_socket_addr (sc_addr config) = Some addr \<and>
        load_quinn_server_config env config = Loaded q \<and> endpoint_ok addr \<and>
        sv = (server_new config)\<lparr>sv_endpoint := Some (addr, q), sv_reloading := True, sv_serving := True\<rparr>)"
    by (cases "server_config_of args") (simp_all add: run_server_async_def bound_and_served)
  then show ?thesis by (auto simp: run_server_def Let_def split: sum.split)
qed

end
