(* ===== verification/Client_Loop.thy ===== *)
theory Client_Loop
  imports Client
begin

text \<open>
  The loop of one tunnel in \<^verbatim>\<open>src/src/client.rs\<close> with all its parts in place: the
  attempts of \<^verbatim>\<open>connect_once\<close> under the retry policy, the handler of the connection and
  the table of connections; and what a listener of the event bus sees of it. What the other
  tasks of the client do to the shared state is an arbitrary function at every point where
  the loop waits: before an attempt (the delay of the retry policy), after it, while the
  connection is served, and after the handler. Within one attempt the state is the loop's own.
\<close>

section \<open>The loop\<close>

record 's attempt =
  at_before :: "'s client_state \<Rightarrow> 's client_state"
  at_prepared :: "socket_addr option"
  at_made :: "socket_addr \<Rightarrow> endpoint option"
  at_io :: "u64 \<Rightarrow> endpoint \<Rightarrow> login_io"
  at_meanwhile :: "'s client_state \<Rightarrow> 's client_state"

text \<open>
  The retries of one connection, as often as it takes: the number of the attempt gives its
  timeout, on which its outcome may depend. \<open>None\<close> is the result while the listed
  attempts do not settle it.
\<close>

fun retry_connect ::
    "client_config \<Rightarrow> string \<Rightarrow> (nat \<Rightarrow> string) \<Rightarrow> tunnel_descriptor \<Rightarrow> usize \<Rightarrow> 's attempt list \<Rightarrow>
     's client_state \<Rightarrow> (connect_error + usize) option \<times> 's client_state" where
  "retry_connect cfg now msg d attempt [] st = (None, st)"
| "retry_connect cfg now msg d attempt (a # as) st =
     (case connect_once cfg now msg d (at_prepared a) (at_made a)
             (at_io a (connect_attempt_timeout_for attempt)) (at_before a st) of
        (Inr (c, _), st1) \<Rightarrow> (Some (Inr c), at_meanwhile a st1)
      | (Inl e, st1) \<Rightarrow>
          (let st2 = at_meanwhile a st1
           in if should_quit st2 then (Some (Inl e), st2)
              else retry_connect cfg now msg d (attempt + 1) as st2))"

text \<open>
  One turn of the loop: its attempts, what serving the connection meets, and the other tasks.
\<close>

record 's serving =
  tu_attempts :: "'s attempt list"
  tu_bound :: "socket_addr option"
  tu_outer_first :: bool
  tu_stats :: conn_stats
  tu_meanwhile :: "'s client_state \<Rightarrow> 's client_state"
  tu_after :: "'s client_state \<Rightarrow> 's client_state"

definition handle_tunnel_connection ::
    "string \<Rightarrow> (nat \<Rightarrow> string) \<Rightarrow> tunnel_descriptor \<Rightarrow> tunnel \<Rightarrow> 's serving \<Rightarrow>
     's client_state \<Rightarrow> 's client_state option" where
  "handle_tunnel_connection now msg d t tu st =
     (case t of
        NetworkBased tc \<Rightarrow>
          handle_network_based_tunnel now msg d tc (tu_bound tu) (tu_outer_first tu) (tu_stats tu)
            (tu_meanwhile tu) st
      | ChannelBased _ \<Rightarrow> Some (handle_channel_based_tunnel now msg d (tu_stats tu) (tu_meanwhile tu) st))"

datatype loop_status = LoopRunning | LoopQuit

text \<open>\<open>None\<close> is a panic; the last log event is the one that says the tunnel quit.\<close>

fun connect_and_serve ::
    "client_config \<Rightarrow> string \<Rightarrow> (nat \<Rightarrow> string) \<Rightarrow> tunnel_descriptor \<Rightarrow> tunnel \<Rightarrow> 's serving list \<Rightarrow>
     's client_state \<Rightarrow> (loop_status \<times> 's client_state) option" where
  "connect_and_serve cfg now msg d t [] st = Some (LoopRunning, st)"
| "connect_and_serve cfg now msg d t (tu # tus) st =
     (case retry_connect cfg now msg d 0 (tu_attempts tu) st of
        (None, st1) \<Rightarrow> Some (LoopRunning, st1)
      | (Some result, st1) \<Rightarrow>
          if should_quit st1 then Some (LoopQuit, post_tunnel_log now d (msg 5) st1)
          else (case result of
                  Inl _ \<Rightarrow> Some (LoopQuit, post_tunnel_log now d (msg 5) st1)
                | Inr c \<Rightarrow>
                    (case handle_tunnel_connection now msg d t tu (insert_connection c st1) of
                       None \<Rightarrow> None
                     | Some st2 \<Rightarrow>
                         (let st3 = tu_after tu (remove_connection c st2)
                          in if should_quit st3 then Some (LoopQuit, post_tunnel_log now d (msg 5) st3)
                             else connect_and_serve cfg now msg d t tus st3))))"

section \<open>What a listener sees\<close>

fun state_of :: "tunnel_event_type \<Rightarrow> tunnel_state list" where
  "state_of (State s) = [s]"
| "state_of _ = []"

definition info_of :: "tunnel_descriptor \<Rightarrow> tunnel_info option" where
  "info_of d = ev_tunnel (tunnel_event_new (Log []) [] d)"

text \<open>The tunnel states in the queue of listener \<open>c\<close> that concern the tunnel \<open>d\<close>.\<close>

definition states_seen :: "chan_id \<Rightarrow> tunnel_descriptor \<Rightarrow> 's client_state \<Rightarrow> tunnel_state list" where
  "states_seen c d st =
     concat (map (\<lambda>e. if ev_tunnel e = info_of d then state_of (event_type e) else [])
       (queue (chans (st_bus st) ! c)))"

definition watches :: "chan_id \<Rightarrow> 's client_state \<Rightarrow> bool" where
  "watches c st \<longleftrightarrow> bus_inv (st_bus st) \<and> alive (st_bus st) c"

text \<open>From one state to the next the listener has seen these states of the tunnel.\<close>

definition shows_states ::
    "chan_id \<Rightarrow> tunnel_descriptor \<Rightarrow> 's client_state \<Rightarrow> 's client_state \<Rightarrow> tunnel_state list \<Rightarrow> bool" where
  "shows_states c d st st' ss \<longleftrightarrow> watches c st' \<and> states_seen c d st' = states_seen c d st @ ss"

lemma shows_refl [simp]: "watches c st \<Longrightarrow> shows_states c d st st []"
  by (simp add: shows_states_def)

lemma shows_trans:
  "shows_states c d st1 st2 ss \<Longrightarrow> shows_states c d st2 st3 ts \<Longrightarrow> shows_states c d st1 st3 (ss @ ts)"
  by (simp add: shows_states_def)

lemma shows_bus:
  "watches c st \<Longrightarrow> st_bus st' = st_bus st \<Longrightarrow> shows_states c d st st' []"
  by (simp add: shows_states_def watches_def states_seen_def)

lemma shows_watches: "shows_states c d st st' ss \<Longrightarrow> watches c st'"
  by (simp add: shows_states_def)

lemma info_of_event [simp]: "ev_tunnel (tunnel_event_new ty ts d) = info_of d"
  by (simp add: info_of_def tunnel_event_new_def)

lemma event_type_new [simp]: "event_type (tunnel_event_new ty ts d) = ty"
  by (simp add: tunnel_event_new_def)

lemma shows_post:
  assumes "watches c st"
  shows "shows_states c d st (post_event (tunnel_event_new ty ts d) st) (state_of ty)"
proof -
  have inv: "bus_inv (st_bus st)" "alive (st_bus st) c" using assms by (simp_all add: watches_def)
  then have "has_listeners (st_bus st)" by (auto simp: bus_inv_def has_listeners_def)
  moreover have "bus_inv (post e (st_bus st))" for e
    using bus_inv_exec [OF inv(1), of "Post e"] by simp
  ultimately show ?thesis
    using inv by (simp add: shows_states_def post_event_def watches_def states_seen_def post_spec)
qed

lemma shows_log: "watches c st \<Longrightarrow> shows_states c d st (post_tunnel_log now d m st) []"
  using shows_post [of c st d "Log m" now] by (simp add: post_tunnel_log_def)

lemma shows_stat: "watches c st \<Longrightarrow> shows_states c d st (post_tunnel_stat now d m st) []"
  using shows_post [of c st d "Stat m" now] by (simp add: post_tunnel_stat_def)

lemma shows_state: "watches c st \<Longrightarrow> shows_states c d st (post_tunnel_state now d s st) [s]"
  using shows_post [of c st d "State s" now] by (simp add: post_tunnel_state_def)

text \<open>The same steps at the end of a run.\<close>

lemma shows_then:
  assumes "shows_states c d st0 st ss"
  shows "shows_states c d st0 (post_tunnel_log now d m st) ss"
    and "shows_states c d st0 (post_tunnel_stat now d x st) ss"
    and "shows_states c d st0 (post_tunnel_state now d s st) (ss @ [s])"
    and "st_bus st' = st_bus st \<Longrightarrow> shows_states c d st0 st' ss"
  using shows_trans [OF assms shows_log [OF shows_watches [OF assms]]]
    shows_trans [OF assms shows_stat [OF shows_watches [OF assms]]]
    shows_trans [OF assms shows_state [OF shows_watches [OF assms]]]
    shows_trans [OF assms shows_bus [OF shows_watches [OF assms]]]
  by simp_all

text \<open>What the other tasks may do: anything but drop the listener, read its queue or post
  states of this tunnel.\<close>

definition leaves_tunnel :: "chan_id \<Rightarrow> tunnel_descriptor \<Rightarrow> ('s client_state \<Rightarrow> 's client_state) \<Rightarrow> bool" where
  "leaves_tunnel c d f \<longleftrightarrow> (\<forall>st. watches c st \<longrightarrow> shows_states c d st (f st) [])"

lemma shows_leaves:
  "leaves_tunnel c d f \<Longrightarrow> shows_states c d st0 st ss \<Longrightarrow> shows_states c d st0 (f st) ss"
  using shows_trans [of c d st0 st ss "f st" "[]"] by (simp add: leaves_tunnel_def shows_watches)

section \<open>The states of each part of the loop\<close>

lemma login_shows:
  assumes "watches c st" "login cfg now msg d io st = (r, st')"
  shows "shows_states c d st st' (case r of Inl _ \<Rightarrow> [Connecting] | Inr _ \<Rightarrow> [Connecting, Connected])"
proof -
  define st1 where "st1 = post_tunnel_log now d (msg 0) (post_tunnel_state now d Connecting st)"
  define st2 where "st2 = (if reached_request io then post_tunnel_log now d (msg 1) st1 else st1)"
  have "shows_states c d st st2 [Connecting]"
    using shows_then(1) [OF shows_state [OF assms(1)]] by (simp add: st2_def st1_def shows_then(1))
  then have "shows_states c d st (st2\<lparr>st_server_ipv6 := x\<rparr>) [Connecting]" for x
    by (rule shows_then(4)) simp
  from shows_then(2) [OF shows_then(1) [OF shows_then(3) [OF this]]] \<open>shows_states c d st st2 [Connecting]\<close>
  show ?thesis
    using assms(2) by (auto simp: login_def Let_def st1_def [symmetric] st2_def [symmetric] split: sum.splits)
qed

lemma choose_endpoint_bus: "choose_endpoint a made st = (r, st') \<Longrightarrow> st_bus st' = st_bus st"
  by (auto simp: choose_endpoint_def reuse_endpoint_def clear_cached_endpoint_if_idle_def
      split: option.splits if_splits)

lemma clear_cached_endpoint_bus: "st_bus (snd (clear_cached_endpoint_if_idle st)) = st_bus st"
  by (simp add: clear_cached_endpoint_if_idle_def)

lemma connect_once_shows:
  assumes "watches c st" "connect_once cfg now msg d prepared made io st = (r, st')"
  shows "(case r of Inl _ \<Rightarrow> shows_states c d st st' [] \<or> shows_states c d st st' [Connecting]
                  | Inr _ \<Rightarrow> shows_states c d st st' [Connecting, Connected])"
proof -
  define inner where "inner = (case prepared of
              None \<Rightarrow> (Inl PrepareFailed, st)
            | Some remote_addr \<Rightarrow>
                (case choose_endpoint remote_addr made st of
                   (Inl e, st1) \<Rightarrow> (Inl e, st1)
                 | (Inr ep, st1) \<Rightarrow> login cfg now msg d (io ep) st1))"
  obtain r2 st2 where i: "inner = (r2, st2)" by (cases inner)
  have "(case r2 of Inl _ \<Rightarrow> shows_states c d st st2 [] \<or> shows_states c d st st2 [Connecting]
                  | Inr _ \<Rightarrow> shows_states c d st st2 [Connecting, Connected])"
  proof (cases prepared)
    case None
    then show ?thesis using i assms(1) by (auto simp: inner_def)
  next
    case (Some a)
    obtain r1 st1 where ch: "choose_endpoint a made st = (r1, st1)" by (cases "choose_endpoint a made st")
    have s1: "shows_states c d st st1 []" by (rule shows_bus [OF assms(1) choose_endpoint_bus [OF ch]])
    show ?thesis
    proof (cases r1)
      case (Inl e)
      then show ?thesis using i Some ch s1 by (auto simp: inner_def)
    next
      case (Inr ep)
      then have "login cfg now msg d (io ep) st1 = (r2, st2)" using i Some ch by (simp add: inner_def)
      from shows_trans [OF s1 login_shows [OF shows_watches [OF s1] this]]
      show ?thesis by (simp split: sum.splits)
    qed
  qed
  moreover have "shows_states c d st (snd (clear_cached_endpoint_if_idle (post_tunnel_log now d (msg 3) st2))) ss"
    if "shows_states c d st st2 ss" for ss
    by (rule shows_then(4) [OF shows_then(1) [OF that] clear_cached_endpoint_bus])
  ultimately show ?thesis
    using assms(2) i unfolding connect_once_def inner_def [symmetric]
    by (auto split: sum.splits if_splits)
qed

lemma retry_connect_shows:
  assumes "watches c st" "\<forall>a \<in> set as. leaves_tunnel c d (at_before a) \<and> leaves_tunnel c d (at_meanwhile a)"
    "retry_connect cfg now msg d n0 as st = (r, st')"
  shows "\<exists>n. shows_states c d st st'
    (replicate n Connecting @ (case r of Some (Inr _) \<Rightarrow> [Connecting, Connected] | _ \<Rightarrow> []))"
  using assms
proof (induction as arbitrary: n0 st)
  case Nil
  then show ?case by (auto intro!: exI [of _ 0])
next
  case (Cons a as)
  let ?st0 = "at_before a st"
  obtain r1 st1 where co: "connect_once cfg now msg d (at_prepared a) (at_made a) (at_io a (connect_attempt_timeout_for n0)) ?st0 = (r1, st1)"
    by (cases "connect_once cfg now msg d (at_prepared a) (at_made a) (at_io a (connect_attempt_timeout_for n0)) ?st0")
  have s0: "shows_states c d st ?st0 []"
    by (rule shows_leaves [OF _ shows_refl]) (use Cons.prems in auto)
  note once = connect_once_shows [OF shows_watches [OF s0] co]
  have m: "leaves_tunnel c d (at_meanwhile a)" using Cons.prems by simp
  show ?case
  proof (cases r1)
    case (Inr x)
    then have "shows_states c d st (at_meanwhile a st1) [Connecting, Connected]"
      using once shows_leaves [OF m shows_trans [OF s0, of st1 "[Connecting, Connected]"]] by simp
    then show ?thesis using Cons.prems(3) co Inr by (auto intro!: exI [of _ 0] split: prod.splits)
  next
    case (Inl e)
    obtain k where k: "shows_states c d st (at_meanwhile a st1) (replicate k Connecting)"
    proof -
      have "shows_states c d ?st0 st1 (replicate 0 Connecting) \<or> shows_states c d ?st0 st1 (replicate 1 Connecting)"
        using once Inl by simp
      then show thesis using that shows_leaves [OF m shows_trans [OF s0]] by (metis append_Nil)
    qed
    show ?thesis
    proof (cases "should_quit (at_meanwhile a st1)")
      case True
      then show ?thesis using Cons.prems(3) co Inl k by (auto simp: Let_def)
    next
      case False
      then have "retry_connect cfg now msg d (n0 + 1) as (at_meanwhile a st1) = (r, st')"
        using Cons.prems(3) co Inl by (simp add: Let_def)
      from Cons.IH [OF shows_watches [OF k] _ this] Cons.prems(2) obtain n where
        "shows_states c d (at_meanwhile a st1) st'
          (replicate n Connecting @ (case r of Some (Inr _) \<Rightarrow> [Connecting, Connected] | _ \<Rightarrow> []))"
        by auto
      from shows_trans [OF k this] show ?thesis
        by (auto intro!: exI [of _ "k + n"] simp: replicate_add)
    qed
  qed
qed

lemma get_or_init_bus: "get_or_init_tcp_receiver addr s st = (r, s', st') \<Longrightarrow> st_bus st' = st_bus st"
  by (auto simp: get_or_init_tcp_receiver_def Let_def split: option.splits sum.splits prod.splits)

lemma serve_outbound_tcp_shows:
  assumes "watches c st"
  shows "\<exists>ss \<in> {[], [Tunneling]}. shows_states c d st (snd (serve_outbound_tcp now msg d addr bound st)) ss"
proof -
  have "shows_states c d st st1 []" if "st_bus st1 = st_bus st" for st1
    by (rule shows_bus [OF assms that])
  then have quiet: "shows_states c d st st1 []"
      "shows_states c d st (post_tunnel_state now d Tunneling (post_tunnel_log now d m st1)) [Tunneling]"
    if "st_bus st1 = st_bus st" for st1 m
    using that shows_then(3) [OF shows_then(1)] by fastforce+
  obtain so st1 where o: "(case st_tcp_servers st addr of Some s \<Rightarrow> (Some s, st) | None \<Rightarrow> start_tcp_server addr bound st)
      = (so, st1)"
    by (cases "case st_tcp_servers st addr of Some s \<Rightarrow> (Some s, st) | None \<Rightarrow> start_tcp_server addr bound st")
  then have b: "st_bus st1 = st_bus st"
    by (auto simp: start_tcp_server_def split: option.splits)
  show ?thesis
  proof (cases so)
    case None
    then show ?thesis using o quiet(1) [OF b] by (simp add: serve_outbound_tcp_def)
  next
    case (Some s)
    obtain r s' st2 where g: "get_or_init_tcp_receiver addr s st1 = (r, s', st2)" by (rule prod_cases3)
    then have "st_bus st2 = st_bus st" using get_or_init_bus b by metis
    from quiet [OF this] show ?thesis using o Some g by (cases r) (auto simp: serve_outbound_tcp_def)
  qed
qed

lemma serve_outbound_udp_shows:
  assumes "watches c (st :: 's client_state)"
  shows "\<exists>ss \<in> {[], [Tunneling]}.
    shows_states c d st (snd (serve_outbound_udp now msg d addr bound outer_first st)) ss"
proof -
  have quiet: "shows_states c d st st1 []" if "st_bus st1 = st_bus st" for st1
    by (rule shows_bus [OF assms that])
  have tun: "shows_states c d st st2 [Tunneling]"
    if "st_bus st1 = st_bus st" "st_bus st2 = st_bus (post_tunnel_state now d Tunneling (post_tunnel_log now d m st1))"
    for st1 st2 :: "'s client_state" and m
    using shows_then(4) [OF shows_then(3) [OF shows_then(1) [OF quiet [OF that(1)]]] that(2)] by simp
  obtain ok st1 where o: "(case st_udp_servers st addr of Some _ \<Rightarrow> (True, st) | None \<Rightarrow> start_udp_server addr bound st)
      = (ok, st1)"
    by (cases "case st_udp_servers st addr of Some _ \<Rightarrow> (True, st) | None \<Rightarrow> start_udp_server addr bound st")
  then have b: "st_bus st1 = st_bus st"
    by (auto simp: start_udp_server_def split: option.splits)
  show ?thesis
  proof (cases ok)
    case False
    then show ?thesis using o quiet [OF b] by (simp add: serve_outbound_udp_def)
  next
    case True
    then have "shows_states c d st (snd (serve_outbound_udp now msg d addr bound outer_first st)) [Tunneling]"
      using o by (intro tun [OF b, where m = "msg 4"])
        (simp add: serve_outbound_udp_def Let_def split: option.splits sum.splits prod.splits)
    then show ?thesis by blast
  qed
qed

lemma should_quit_kept [simp]:
  "should_quit (post_tunnel_state now d s st) = should_quit st"
  "should_quit (post_tunnel_log now d m st) = should_quit st"
  "should_quit (add_connection_stats_to_total stats st) = should_quit st"
  "should_quit (remove_connection k st) = should_quit st"
  by (simp_all add: should_quit_def post_tunnel_state_def post_tunnel_log_def
      add_connection_stats_to_total_def remove_connection_def Let_def)

lemma closing_shows:
  assumes "shows_states c d st st1 ss"
    "st' = add_connection_stats_to_total stats (if should_quit st1 then st1 else post_tunnel_state now d Reconnecting st1)"
  shows "shows_states c d st st' (ss @ (if should_quit st' then [] else [Reconnecting]))"
proof -
  have bus: "st_bus (add_connection_stats_to_total stats x) = st_bus x" for x
    by (simp add: add_connection_stats_to_total_def Let_def)
  show ?thesis
    using shows_then(4) [OF assms(1) bus] shows_then(4) [OF shows_then(3) [OF assms(1)] bus]
    by (simp add: assms(2))
qed

lemma handler_shows:
  assumes "watches c st" "leaves_tunnel c d (tu_meanwhile tu)"
    "handle_tunnel_connection now msg d t tu st = Some st'"
  shows "\<exists>ss \<in> {[], [Tunneling]}.
    shows_states c d st st' (ss @ (if should_quit st' then [] else [Reconnecting]))"
proof -
  have inb: "shows_states c d st (serve_inbound now msg d st) [Tunneling]"
    using shows_then(3) [OF shows_log [OF assms(1)]] by (simp add: serve_inbound_def)
  show ?thesis
  proof (cases t)
    case (ChannelBased ty)
    then have "st' = add_connection_stats_to_total (tu_stats tu)
        (if should_quit (tu_meanwhile tu (serve_inbound now msg d st)) then tu_meanwhile tu (serve_inbound now msg d st)
         else post_tunnel_state now d Reconnecting (tu_meanwhile tu (serve_inbound now msg d st)))"
      using assms(3)
      by (auto simp: handle_tunnel_connection_def handle_channel_based_tunnel_def serve_inbound_def Let_def)
    then show ?thesis using closing_shows [OF shows_leaves [OF assms(2) inb]] by blast
  next
    case (NetworkBased tc)
    then obtain addr where "local_server_addr tc = Some addr"
      using assms(3) by (cases "local_server_addr tc")
        (simp_all add: handle_tunnel_connection_def handle_network_based_tunnel_def)
    then obtain st1 ss where "ss \<in> {[], [Tunneling]}" and s1: "shows_states c d st st1 ss"
      and st': "st' = add_connection_stats_to_total (tu_stats tu)
        (if should_quit (tu_meanwhile tu st1) then tu_meanwhile tu st1
         else post_tunnel_state now d Reconnecting (tu_meanwhile tu st1))"
      using assms(3) NetworkBased inb serve_outbound_tcp_shows [OF assms(1), of d now msg addr "tu_bound tu"]
        serve_outbound_udp_shows [OF assms(1), of d now msg addr "tu_bound tu" "tu_outer_first tu"]
      by (cases "tc_mode tc = TOut"; cases "upstream_kind (tc_upstream tc)")
        (auto simp: handle_tunnel_connection_def handle_network_based_tunnel_def Let_def)
    then show ?thesis using closing_shows [OF shows_leaves [OF assms(2) s1] st'] by blast
  qed
qed

section \<open>The order of the states\<close>

fun may_follow :: "tunnel_state \<Rightarrow> tunnel_state \<Rightarrow> bool" where
  "may_follow Connecting s \<longleftrightarrow> s = Connecting \<or> s = Connected"
| "may_follow Connected s \<longleftrightarrow> s = Tunneling \<or> s = Reconnecting"
| "may_follow Tunneling s \<longleftrightarrow> s = Reconnecting"
| "may_follow Reconnecting s \<longleftrightarrow> s = Connecting"

definition orderly :: "tunnel_state list \<Rightarrow> bool" where
  "orderly ss \<longleftrightarrow> successively may_follow (Reconnecting # ss)"

text \<open>The other tasks of a turn; none of them takes back that the client is stopping.\<close>

definition serving_leaves :: "chan_id \<Rightarrow> tunnel_descriptor \<Rightarrow> 's serving \<Rightarrow> bool" where
  "serving_leaves c d tu \<longleftrightarrow>
     (\<forall>a \<in> set (tu_attempts tu). leaves_tunnel c d (at_before a) \<and> leaves_tunnel c d (at_meanwhile a)) \<and>
     leaves_tunnel c d (tu_meanwhile tu) \<and> leaves_tunnel c d (tu_after tu) \<and>
     (\<forall>st. should_quit st \<longrightarrow> should_quit (tu_after tu st))"

lemma orderly_connecting: "orderly (replicate n Connecting)"
  by (induction n) (auto simp: orderly_def successively_Cons hd_replicate)

lemma orderly_turn:
  assumes "b \<in> {[], [Tunneling]}"
  shows "orderly (replicate n Connecting @ [Connecting, Connected] @ b)"
    and "orderly rest \<Longrightarrow>
      orderly (replicate n Connecting @ [Connecting, Connected] @ b @ [Reconnecting] @ rest)"
  using assms orderly_connecting [of n]
  by (auto simp: orderly_def successively_append_iff successively_Cons last_replicate simp flip: append_Cons)

lemma connect_and_serve_shows:
  assumes "watches c st" "\<forall>tu \<in> set turns. serving_leaves c d tu"
    "connect_and_serve cfg now msg d t turns st = Some (status, st')"
  shows "\<exists>ss. shows_states c d st st' ss \<and> orderly ss"
  using assms
proof (induction turns arbitrary: st)
  case Nil
  then show ?case using orderly_connecting [of 0] by (auto intro!: exI [of _ "[]"])
next
  case (Cons tu turns)
  obtain r st1 where rc: "retry_connect cfg now msg d 0 (tu_attempts tu) st = (r, st1)"
    by (cases "retry_connect cfg now msg d 0 (tu_attempts tu) st")
  have lv: "serving_leaves c d tu" using Cons.prems(2) by simp
  with retry_connect_shows [OF Cons.prems(1) _ rc] obtain n where n: "shows_states c d st st1
      (replicate n Connecting @ (case r of Some (Inr _) \<Rightarrow> [Connecting, Connected] | _ \<Rightarrow> []))"
    by (auto simp: serving_leaves_def)
  then have early: ?case if "st' = st1 \<or> st' = post_tunnel_log now d (msg 5) st1"
    using that shows_then(1) [OF n] orderly_connecting [of n] orderly_turn(1) [of "[]" n]
    by (intro exI [of _ "replicate n Connecting @ (case r of Some (Inr _) \<Rightarrow> [Connecting, Connected] | _ \<Rightarrow> [])"])
      (auto split: option.splits sum.splits)
  show ?case
  proof (cases "\<exists>k. r = Some (Inr k) \<and> \<not> should_quit st1")
    case False
    then show ?thesis using early Cons.prems(3) rc by (auto split: option.splits sum.splits if_splits)
  next
    case True
    then obtain k where k: "r = Some (Inr k)" "\<not> should_quit st1" by blast
    then obtain st2 where h: "handle_tunnel_connection now msg d t tu (insert_connection k st1) = Some st2"
      using Cons.prems(3) rc by (auto split: option.splits)
    have ins: "shows_states c d st (insert_connection k st1) (replicate n Connecting @ [Connecting, Connected])"
      by (rule shows_then(4)) (use n k in \<open>simp_all add: insert_connection_def\<close>)
    from handler_shows [OF shows_watches [OF ins] _ h] lv obtain b where b: "b \<in> {[], [Tunneling]}"
      and b2: "shows_states c d (insert_connection k st1) st2 (b @ (if should_quit st2 then [] else [Reconnecting]))"
      unfolding serving_leaves_def by blast
    let ?st3 = "tu_after tu (remove_connection k st2)"
    let ?ss = "replicate n Connecting @ [Connecting, Connected] @ b"
    have st3: "shows_states c d st ?st3 (?ss @ (if should_quit st2 then [] else [Reconnecting]))"
      using shows_leaves [OF _ shows_then(4) [OF shows_trans [OF ins b2]], of "tu_after tu" "remove_connection k st2"] lv
      by (simp add: serving_leaves_def remove_connection_def)
    have q: "should_quit ?st3" if "should_quit st2"
      using lv that by (simp add: serving_leaves_def)
    show ?thesis
    proof (cases "should_quit ?st3")
      case True
      then have "st' = post_tunnel_log now d (msg 5) ?st3" using Cons.prems(3) rc k h by (simp add: Let_def)
      then show ?thesis using shows_then(1) [OF st3] orderly_turn(1) [OF b, of n]
          orderly_turn(2) [OF b, of "[]" n] orderly_connecting [of 0] by (cases "should_quit st2") auto
    next
      case False
      then have "connect_and_serve cfg now msg d t turns ?st3 = Some (status, st')"
        using Cons.prems(3) rc k h by (simp add: Let_def)
      with Cons.IH shows_watches [OF st3] Cons.prems(2) obtain rest
        where "shows_states c d ?st3 st' rest" "orderly rest" by auto
      then show ?thesis using shows_trans [OF st3] orderly_turn(2) [OF b] False q by fastforce
    qed
  qed
qed

definition example_descriptor :: tunnel_descriptor where
  "example_descriptor = build_tunnel_descriptor (Channel 0 Tcp) (ChannelBased Tcp)"

definition good_attempt :: "nat attempt" where
  "good_attempt = \<lparr>at_before = (\<lambda>st. st), at_prepared = Some (V4 1 443),
     at_made = (\<lambda>a. Some \<lparr>ep_id = 0, ep_local_addr = Some a\<rparr>),
     at_io = (\<lambda>_ _. \<lparr>io_connect = True, io_connected = StageOk (7, some_stats 7), io_opened = StageOk (),
       io_sent = StageOk (), io_response = StageOk (RespSuccess \<lparr>ipv6_supported = True\<rparr>)\<rparr>),
     at_meanwhile = (\<lambda>st. st)\<rparr>"

definition refused_attempt :: "nat attempt" where
  "refused_attempt = good_attempt\<lparr>at_io := (\<lambda>n ep. (at_io good_attempt n ep)\<lparr>io_opened := StageTimeout\<rparr>)\<rparr>"

definition lost_serving :: "nat serving" where
  "lost_serving = \<lparr>tu_attempts = [refused_attempt, good_attempt], tu_bound = None, tu_outer_first = False,
     tu_stats = some_stats 7, tu_meanwhile = (\<lambda>st. st), tu_after = (\<lambda>st. st)\<rparr>"

definition last_serving :: "nat serving" where
  "last_serving = lost_serving\<lparr>tu_attempts := [good_attempt], tu_meanwhile := set_client_state CStopping\<rparr>"

definition watched_state :: "nat client_state" where
  "watched_state = busy_state\<lparr>st_bus := snd (register bus_new)\<rparr>"

lemmas example_loop_defs = good_attempt_def refused_attempt_def lost_serving_def last_serving_def

text \<open>
  C18. A listener that is registered before the tunnel starts sees its states in the order of
  the life of a connection: one or more attempts, the connection, then possibly the tunnelling,
  and the reconnection before anything starts over. No state is skipped or repeated but the
  attempts, whatever the attempts and the connections come to and whatever the other tasks do.
\<close>

theorem states_in_order:
  assumes "watches c st" "states_seen c d st = []" "\<forall>tu \<in> set turns. serving_leaves c d tu"
    "connect_and_serve cfg now msg d t turns st = Some (status, st')"
  shows "watches c st' \<and> successively may_follow (states_seen c d st') \<and>
    (states_seen c d st' \<noteq> [] \<longrightarrow> hd (states_seen c d st') = Connecting)"
proof -
  obtain ss where "shows_states c d st st' ss" "orderly ss"
    using connect_and_serve_shows [OF assms(1,3,4)] by blast
  then show ?thesis using assms(2)
    by (auto simp: shows_states_def orderly_def successively_Cons)
qed

lemma leaves_tunnel_id [simp]: "leaves_tunnel c d (\<lambda>st. st)"
  by (simp add: leaves_tunnel_def)

lemma leaves_tunnel_phase [simp]: "leaves_tunnel c d (set_client_state p)"
  by (simp add: leaves_tunnel_def set_client_state_def shows_bus)

lemma good_attempt_connects:
  assumes "st_endpoint st = None"
  obtains st1 where "connect_once cfg now msg d (at_prepared good_attempt) (at_made good_attempt)
      (at_io good_attempt n) (at_before good_attempt st) = (Inr (7, heartbeat_enabled cfg), st1)"
    "should_quit st1 = should_quit st"
  using assms by (auto simp: connect_once_def good_attempt_def choose_endpoint_def reuse_endpoint_def login_def
      login_stages_def run_login_stage_def reached_request_def should_quit_def post_defs Let_def)

definition example_run :: "(loop_status \<times> nat client_state) option" where
  "example_run = connect_and_serve sample_config [] (\<lambda>_. []) example_descriptor (ChannelBased Tcp)
     [last_serving, lost_serving] watched_state"

lemma watched_state_watches:
  "watches 0 watched_state" "states_seen 0 example_descriptor watched_state = []"
  by (simp_all add: watches_def states_seen_def watched_state_def register_def bus_new_def bus_inv_def)

lemma example_run_value:
  "\<exists>st'. example_run = Some (LoopQuit, st') \<and>
     states_seen 0 example_descriptor st' = [Connecting, Connected, Tunneling]"
proof -
  let ?d = example_descriptor
  have e: "st_endpoint watched_state = None" "\<not> should_quit watched_state"
    by (simp_all add: watched_state_def busy_state_def client_state_new_def should_quit_def)
  obtain st1 where co: "connect_once sample_config [] (\<lambda>_. []) ?d (at_prepared good_attempt) (at_made good_attempt)
      (at_io good_attempt (connect_attempt_timeout_for 0)) (at_before good_attempt watched_state) =
      (Inr (7, heartbeat_enabled sample_config), st1)"
    and q: "\<not> should_quit st1" using good_attempt_connects [OF e(1)] e(2) by metis
  have s1: "shows_states 0 ?d watched_state st1 [Connecting, Connected]"
    using connect_once_shows [OF _ co] watched_state_watches(1) by (simp add: good_attempt_def)
  define st2 where "st2 = set_client_state CStopping (serve_inbound [] (\<lambda>_. []) ?d (insert_connection 7 st1))"
  have "shows_states 0 ?d watched_state (insert_connection 7 st1) [Connecting, Connected]"
    by (rule shows_then(4) [OF s1]) (simp add: insert_connection_def)
  from shows_then(3) [OF shows_then(1) [OF this]]
  have "shows_states 0 ?d watched_state st2 [Connecting, Connected, Tunneling]"
    unfolding st2_def serve_inbound_def
    by (intro shows_leaves [OF leaves_tunnel_phase]) simp
  then have s3: "shows_states 0 ?d watched_state
      (remove_connection 7 (add_connection_stats_to_total (some_stats 7) st2)) [Connecting, Connected, Tunneling]"
    by (rule shows_then(4)) (simp add: remove_connection_def add_connection_stats_to_total_def Let_def)
  have q2: "should_quit st2" by (simp add: st2_def set_client_state_def should_quit_def)
  have h: "handle_tunnel_connection [] (\<lambda>_. []) ?d (ChannelBased Tcp) last_serving (insert_connection 7 st1) =
      Some (add_connection_stats_to_total (some_stats 7) st2)"
    using q2 by (simp add: handle_tunnel_connection_def handle_channel_based_tunnel_def last_serving_def
        lost_serving_def st2_def serve_inbound_def Let_def)
  have r: "retry_connect sample_config [] (\<lambda>_. []) ?d 0 (tu_attempts last_serving) watched_state = (Some (Inr 7), st1)"
    using co by (simp add: last_serving_def) (simp add: good_attempt_def)
  have a: "tu_after last_serving st = st" for st by (simp add: last_serving_def lost_serving_def)
  have "example_run = Some (LoopQuit, post_tunnel_log [] ?d []
      (remove_connection 7 (add_connection_stats_to_total (some_stats 7) st2)))"
    using r q h q2 a by (simp add: example_run_def Let_def)
  then show ?thesis using shows_then(1) [OF s3] watched_state_watches(2) by (auto simp: shows_states_def)
qed

theorem states_in_order_witness:
  "\<exists>st'. example_run = Some (LoopQuit, st') \<and> successively may_follow (states_seen 0 example_descriptor st') \<and>
     states_seen 0 example_descriptor st' = [Connecting, Connected, Tunneling]"
proof -
  obtain st' where r: "example_run = Some (LoopQuit, st')"
      "states_seen 0 example_descriptor st' = [Connecting, Connected, Tunneling]"
    using example_run_value by blast
  have "\<forall>tu \<in> set [last_serving, lost_serving]. serving_leaves 0 example_descriptor tu"
    by (simp add: serving_leaves_def example_loop_defs)
  from states_in_order [OF watched_state_watches this] r show ?thesis unfolding example_run_def by blast
qed

section \<open>The end of the loop\<close>

lemma post_tunnel_log_connections [simp]: "st_connections (post_tunnel_log now d m st) = st_connections st"
  by (simp add: post_tunnel_log_def)

text \<open>
  What the other tasks do during some turns, the connections the attempts of these turns can
  make, and what a task may do to one connection of the table.
\<close>

definition other_tasks :: "'s serving list \<Rightarrow> ('s client_state \<Rightarrow> 's client_state) set" where
  "other_tasks turns = (\<Union>tu \<in> set turns. insert (tu_meanwhile tu) (insert (tu_after tu)
     (\<Union>a \<in> set (tu_attempts tu). {at_before a, at_meanwhile a})))"

definition own_connections :: "'s serving list \<Rightarrow> usize set" where
  "own_connections turns = {k. \<exists>tu \<in> set turns. \<exists>a \<in> set (tu_attempts tu). \<exists>n ep stats.
     io_connected (at_io a n ep) = StageOk (k, stats)}"

definition never_adds :: "usize \<Rightarrow> ('s client_state \<Rightarrow> 's client_state) \<Rightarrow> bool" where
  "never_adds c f \<longleftrightarrow> (\<forall>st. c \<in> set (st_connections (f st)) \<longrightarrow> c \<in> set (st_connections st))"

definition keeps :: "usize \<Rightarrow> ('s client_state \<Rightarrow> 's client_state) \<Rightarrow> bool" where
  "keeps c f \<longleftrightarrow> (\<forall>st. c \<in> set (st_connections st) \<longrightarrow> c \<in> set (st_connections (f st)))"

text \<open>
  From one state to the next, with the other tasks \<open>F\<close> and the connections \<open>K\<close> of the loop:
  nothing comes into the table that the others do not add, and nothing leaves it that is not
  the loop's own and that the others keep.
\<close>

definition table_kept ::
    "('s client_state \<Rightarrow> 's client_state) set \<Rightarrow> usize set \<Rightarrow> 's client_state \<Rightarrow> 's client_state \<Rightarrow> bool" where
  "table_kept F K st st' \<longleftrightarrow>
     (\<forall>c. (\<forall>f \<in> F. never_adds c f) \<longrightarrow> c \<notin> set (st_connections st) \<longrightarrow> c \<notin> set (st_connections st')) \<and>
     (\<forall>c. c \<notin> K \<longrightarrow> (\<forall>f \<in> F. keeps c f) \<longrightarrow> c \<in> set (st_connections st) \<longrightarrow> c \<in> set (st_connections st'))"

lemma table_kept_same: "st_connections st' = st_connections st \<Longrightarrow> table_kept F K st st'"
  by (simp add: table_kept_def)

lemma table_kept_trans: "table_kept F K st1 st2 \<Longrightarrow> table_kept F K st2 st3 \<Longrightarrow> table_kept F K st1 st3"
  unfolding table_kept_def by blast

lemma table_kept_other: "f \<in> F \<Longrightarrow> table_kept F K st (f st)"
  unfolding table_kept_def never_adds_def keeps_def by blast

lemma table_kept_mono: "table_kept F K st st' \<Longrightarrow> F \<subseteq> F' \<Longrightarrow> K \<subseteq> K' \<Longrightarrow> table_kept F' K' st st'"
  unfolding table_kept_def by blast

text \<open>A connection that is put in and taken out again around some steps.\<close>

lemma table_kept_around:
  assumes "table_kept F K (insert_connection k st) st'" "k \<in> K"
  shows "table_kept F K st (remove_connection k st')"
  using assms unfolding table_kept_def
  by (auto simp: insert_connection_def remove_connection_def)

lemma login_stages_connection:
  "login_stages io = Inr ((k, stats), caps) \<Longrightarrow> io_connected io = StageOk (k, stats)"
  by (auto simp: login_stages_def run_login_stage_def elim!: try_then_InrE split: if_splits sum.splits stage.splits)

lemma login_table:
  assumes "login cfg now msg d io st = (r, st')"
  shows "st_connections st' = st_connections st"
    and "r = Inr (k, hb) \<Longrightarrow> \<exists>stats. io_connected io = StageOk (k, stats)"
  using assms login_stages_connection [of io]
  by (auto simp: login_def Let_def post_defs split: sum.splits if_splits)

lemma choose_endpoint_table: "choose_endpoint a made st = (r, st') \<Longrightarrow> st_connections st' = st_connections st"
  by (auto simp: choose_endpoint_def reuse_endpoint_def clear_cached_endpoint_if_idle_def
      split: option.splits if_splits)

lemma connect_once_table:
  assumes "connect_once cfg now msg d prepared made io st = (r, st')"
  shows "st_connections st' = st_connections st \<and>
    (r = Inr (k, hb) \<longrightarrow> (\<exists>ep stats. io_connected (io ep) = StageOk (k, stats)))"
proof -
  obtain r2 st2 where i: "(case prepared of
              None \<Rightarrow> (Inl PrepareFailed, st)
            | Some remote_addr \<Rightarrow>
                (case choose_endpoint remote_addr made st of
                   (Inl e, st1) \<Rightarrow> (Inl e, st1)
                 | (Inr ep, st1) \<Rightarrow> login cfg now msg d (io ep) st1)) = (r2, st2)" (is "?inner = _")
    by (cases ?inner)
  have "st_connections st2 = st_connections st \<and>
    (r2 = Inr (k, hb) \<longrightarrow> (\<exists>ep stats. io_connected (io ep) = StageOk (k, stats)))"
  proof (cases prepared)
    case None
    then show ?thesis using i by auto
  next
    case (Some a)
    obtain r1 st1 where ch: "choose_endpoint a made st = (r1, st1)" by (cases "choose_endpoint a made st")
    show ?thesis
      using i Some ch choose_endpoint_table [OF ch] login_table [of cfg now msg d _ st1 r2 st2]
      by (cases r1) (auto, blast)
  qed
  then show ?thesis
    using assms unfolding connect_once_def i
    by (auto simp: clear_cached_endpoint_if_idle_def post_defs split: sum.splits if_splits)
qed

abbreviation attempt_tasks :: "'s attempt list \<Rightarrow> ('s client_state \<Rightarrow> 's client_state) set" where
  "attempt_tasks as \<equiv> (\<Union>a \<in> set as. {at_before a, at_meanwhile a})"

lemma attempt_table:
  assumes "connect_once cfg now msg d (at_prepared a) (at_made a) io (at_before a st) = (r, st1)"
    "a \<in> set as"
  shows "table_kept (attempt_tasks as) K st (at_meanwhile a st1)"
proof -
  have "table_kept (attempt_tasks as) K st (at_before a st)"
    by (rule table_kept_other) (use assms(2) in blast)
  moreover have "table_kept (attempt_tasks as) K (at_before a st) st1"
    by (rule table_kept_same) (use connect_once_table [OF assms(1)] in blast)
  moreover have "table_kept (attempt_tasks as) K st1 (at_meanwhile a st1)"
    by (rule table_kept_other) (use assms(2) in blast)
  ultimately show ?thesis by (blast intro: table_kept_trans)
qed

lemma retry_connect_table:
  assumes "retry_connect cfg now msg d n as st = (r, st')"
  shows "table_kept (attempt_tasks as) K st st' \<and>
    (case r of None \<Rightarrow> \<not> should_quit st \<longrightarrow> \<not> should_quit st'
             | Some (Inl _) \<Rightarrow> should_quit st'
             | Some (Inr k) \<Rightarrow> \<exists>a \<in> set as. \<exists>n ep stats. io_connected (at_io a n ep) = StageOk (k, stats))"
  using assms
proof (induction as arbitrary: n st)
  case Nil
  then show ?case by (auto simp: table_kept_def)
next
  case (Cons a as)
  let ?io = "at_io a (connect_attempt_timeout_for n)"
  obtain r1 st1 where co: "connect_once cfg now msg d (at_prepared a) (at_made a) ?io (at_before a st) = (r1, st1)"
    by (cases "connect_once cfg now msg d (at_prepared a) (at_made a) ?io (at_before a st)")
  have tab: "table_kept (attempt_tasks (a # as)) K st (at_meanwhile a st1)"
    by (rule attempt_table [OF co]) simp
  show ?case
  proof (cases r1)
    case (Inr x)
    then show ?thesis
      using Cons.prems co tab connect_once_table [OF co, of "fst x" "snd x"] by (cases x) (auto; blast)
  next
    case (Inl e)
    show ?thesis
    proof (cases "should_quit (at_meanwhile a st1)")
      case True
      then show ?thesis using Cons.prems co Inl tab by (auto simp: Let_def)
    next
      case False
      then have "retry_connect cfg now msg d (n + 1) as (at_meanwhile a st1) = (r, st')"
        using Cons.prems co Inl by (simp add: Let_def)
      note ih = Cons.IH [OF this]
      have "table_kept (attempt_tasks (a # as)) K (at_meanwhile a st1) st'"
        by (rule table_kept_mono [OF conjunct1 [OF ih]]) auto
      from table_kept_trans [OF tab this] ih False show ?thesis by (auto split: option.splits sum.splits)
    qed
  qed
qed

lemma handler_table:
  assumes "\<forall>tc. t = NetworkBased tc \<longrightarrow> local_server_addr tc \<noteq> None"
  shows "\<exists>st'. handle_tunnel_connection now msg d t tu st = Some st' \<and> table_kept {tu_meanwhile tu} K st st'"
proof -
  have tcp: "st_connections (snd (serve_outbound_tcp now msg d addr bound st)) = st_connections st" for addr bound
    by (auto simp: serve_outbound_tcp_def start_tcp_server_def get_or_init_tcp_receiver_def post_defs Let_def
        split: option.splits sum.splits prod.splits)
  have udp: "st_connections (snd (serve_outbound_udp now msg d addr bound first st)) = st_connections st"
    for addr bound first
    by (simp add: serve_outbound_udp_def start_udp_server_def post_defs Let_def
        split: option.splits sum.splits prod.splits)
  have closing: "st_connections (add_connection_stats_to_total s (if b then x else post_tunnel_state now d Reconnecting x)) =
      st_connections x" for s b and x :: "'a client_state"
    by (simp add: add_connection_stats_to_total_def post_defs Let_def)
  have inb: "st_connections (serve_inbound now msg d st) = st_connections st"
    by (simp add: serve_inbound_def post_defs)
  have "\<exists>st1 st'. handle_tunnel_connection now msg d t tu st = Some st' \<and>
      st_connections st1 = st_connections st \<and> st_connections st' = st_connections (tu_meanwhile tu st1)"
  proof (cases t)
    case (ChannelBased ty)
    then show ?thesis using inb
      by - (rule exI [of _ "serve_inbound now msg d st"],
         simp add: handle_tunnel_connection_def handle_channel_based_tunnel_def serve_inbound_def Let_def closing)
  next
    case (NetworkBased tc)
    then obtain addr where "local_server_addr tc = Some addr" using assms by blast
    then show ?thesis using NetworkBased inb tcp udp
      by - (rule exI [of _ "if tc_mode tc = TOut
          then (case upstream_kind (tc_upstream tc) of
                  Tcp \<Rightarrow> snd (serve_outbound_tcp now msg d addr (tu_bound tu) st)
                | Udp \<Rightarrow> snd (serve_outbound_udp now msg d addr (tu_bound tu) (tu_outer_first tu) st))
          else serve_inbound now msg d st"],
         simp add: handle_tunnel_connection_def handle_network_based_tunnel_def Let_def closing
          split: upstream_type.split)
  qed
  then obtain st1 st' where h: "handle_tunnel_connection now msg d t tu st = Some st'"
    "st_connections st1 = st_connections st" "st_connections st' = st_connections (tu_meanwhile tu st1)" by blast
  have "table_kept {tu_meanwhile tu} K st1 (tu_meanwhile tu st1)" by (rule table_kept_other) simp
  with h show ?thesis by (auto simp: table_kept_def)
qed

lemma connect_and_serve_table:
  assumes "\<not> should_quit st" "\<forall>tc. t = NetworkBased tc \<longrightarrow> local_server_addr tc \<noteq> None"
  shows "\<exists>status st'. connect_and_serve cfg now msg d t turns st = Some (status, st') \<and>
    (status = LoopQuit \<longleftrightarrow> should_quit st') \<and>
    table_kept (other_tasks turns) (own_connections turns) st st'"
  using assms(1)
proof (induction turns arbitrary: st)
  case Nil
  then show ?case by (simp add: table_kept_def)
next
  case (Cons tu turns)
  let ?F = "other_tasks (tu # turns)" and ?K = "own_connections (tu # turns)"
  obtain r st1 where rc: "retry_connect cfg now msg d 0 (tu_attempts tu) st = (r, st1)"
    by (cases "retry_connect cfg now msg d 0 (tu_attempts tu) st")
  note re = retry_connect_table [OF rc, of ?K]
  have tab: "table_kept ?F ?K st st1"
    by (rule table_kept_mono [OF conjunct1 [OF re]]) (auto simp: other_tasks_def)
  show ?case
  proof (cases "\<exists>k. r = Some (Inr k) \<and> \<not> should_quit st1")
    case False
    then show ?thesis using re tab rc Cons.prems
      by (auto simp: table_kept_def split: option.splits sum.splits)
  next
    case True
    then obtain k where k: "r = Some (Inr k)" "\<not> should_quit st1" by blast
    then have own: "k \<in> ?K" using re by (auto simp: own_connections_def)
    obtain st2 where h: "handle_tunnel_connection now msg d t tu (insert_connection k st1) = Some st2"
      and c2: "table_kept {tu_meanwhile tu} ?K (insert_connection k st1) st2"
      using handler_table [OF assms(2)] by blast
    let ?st3 = "tu_after tu (remove_connection k st2)"
    have "table_kept ?F ?K st1 (remove_connection k st2)"
      by (rule table_kept_around [OF table_kept_mono [OF c2] own]) (auto simp: other_tasks_def)
    moreover have "table_kept ?F ?K (remove_connection k st2) ?st3"
      by (rule table_kept_other) (simp add: other_tasks_def)
    ultimately have c3: "table_kept ?F ?K st ?st3" using tab by (blast intro: table_kept_trans)
    show ?thesis
    proof (cases "should_quit ?st3")
      case True
      then show ?thesis using rc k h c3 by (simp add: Let_def table_kept_def)
    next
      case False
      from Cons.IH [OF this] obtain status st' where
        r: "connect_and_serve cfg now msg d t turns ?st3 = Some (status, st')"
        "status = LoopQuit \<longleftrightarrow> should_quit st'" "table_kept (other_tasks turns) (own_connections turns) ?st3 st'"
        by blast
      have "table_kept ?F ?K ?st3 st'"
        by (rule table_kept_mono [OF r(3)]) (auto simp: other_tasks_def own_connections_def)
      with r(1,2) show ?thesis using False rc k h table_kept_trans [OF c3] by (auto simp: Let_def)
    qed
  qed
qed

text \<open>
  C31. The loop of a tunnel that has its local address, among any other tasks of the client
  (other tunnels, the traffic reporter, a stop that empties the table): it never panics, and it is
  over exactly when the client is stopping: nothing else ends it, no failed attempt and no
  lost connection, and it does not outlive the check that finds the client stopping. Every
  connection it made is out of the table again, unless another task put it there; and it
  never takes out a connection it did not make: one that the other tasks keep stays.
\<close>

theorem tunnel_loop_quits:
  assumes "\<not> should_quit st" "\<forall>tc. t = NetworkBased tc \<longrightarrow> local_server_addr tc \<noteq> None"
  shows "\<exists>status st'. connect_and_serve cfg now msg d t turns st = Some (status, st') \<and>
    (status = LoopQuit \<longleftrightarrow> should_quit st') \<and>
    (\<forall>c. (\<forall>f \<in> other_tasks turns. never_adds c f) \<longrightarrow>
       c \<notin> set (st_connections st) \<longrightarrow> c \<notin> set (st_connections st')) \<and>
    (\<forall>c. c \<notin> own_connections turns \<longrightarrow> (\<forall>f \<in> other_tasks turns. keeps c f) \<longrightarrow>
       c \<in> set (st_connections st) \<longrightarrow> c \<in> set (st_connections st'))"
  using connect_and_serve_table [OF assms] unfolding table_kept_def by blast

text \<open>The client is stopped, and its tables emptied, while the tunnel is served.\<close>

definition stopped_serving :: "nat serving" where
  "stopped_serving = last_serving
     \<lparr>tu_meanwhile := (\<lambda>st. snd (shut_down_all True (set_client_state CStopping st)))\<rparr>"

theorem tunnel_loop_quits_witness:
  "(\<exists>status st'. connect_and_serve sample_config [] (\<lambda>_. []) example_descriptor (ChannelBased Tcp)
      [lost_serving, stopped_serving] watched_state = Some (status, st') \<and>
      (status = LoopQuit \<longleftrightarrow> should_quit st') \<and> 7 \<notin> set (st_connections st')) \<and>
   (\<exists>status st'. connect_and_serve sample_config [] (\<lambda>_. []) example_descriptor (ChannelBased Tcp)
      [lost_serving, last_serving] watched_state = Some (status, st') \<and> 1 \<in> set (st_connections st'))"
proof -
  have st: "\<not> should_quit watched_state" "1 \<in> set (st_connections watched_state)"
    "7 \<notin> set (st_connections watched_state)"
    by (simp_all add: should_quit_def watched_state_def busy_state_def client_state_new_def)
  have adds: "\<forall>f \<in> other_tasks [lost_serving, stopped_serving]. never_adds 7 f"
    by (auto simp: other_tasks_def stopped_serving_def example_loop_defs never_adds_def shut_down_all_def
        set_client_state_def)
  have keep: "\<forall>f \<in> other_tasks [lost_serving, last_serving]. keeps 1 f"
    by (auto simp: other_tasks_def example_loop_defs keeps_def set_client_state_def)
  have own: "1 \<notin> own_connections [lost_serving, last_serving]"
    by (simp add: own_connections_def example_loop_defs)
  show ?thesis
    using tunnel_loop_quits [OF st(1), of "ChannelBased Tcp" sample_config "[]" "\<lambda>_. []" example_descriptor
        "[lost_serving, stopped_serving]"] adds st(3)
      tunnel_loop_quits [OF st(1), of "ChannelBased Tcp" sample_config "[]" "\<lambda>_. []" example_descriptor
        "[lost_serving, last_serving]"] keep own st(2)
    by fastforce
qed

end
