(* ===== verification/Session.thy ===== *)
theory Session
  imports Server_Run Client_Tasks
begin

text \<open>
  A client and a server together on the stream of the login: what the client writes is what
  the server reads, and the answer comes back the same way.
\<close>

section \<open>The login stream\<close>

text \<open>What has been written to a stream, as the other end reads it.\<close>

definition peer_of :: "sink \<Rightarrow> instream" where
  "peer_of k = \<lparr>avail = written k, tail_of = (if finished k then Closed else Stalled)\<rparr>"

text \<open>
  One login: the sending of the request, the outcome on the server, and the answer as the
  client gets it. A server that refuses drops the stream, which ends it.
\<close>

record session_outcome =
  ls_sent :: "unit stage"
  ls_server :: "auth_error + nat tunnel_type \<times> timeout_config"
  ls_response :: "tunnel_message stage"

definition login_session ::
    "bincode \<Rightarrow> sockets \<Rightarrow> bool \<Rightarrow> server_config \<Rightarrow> conn \<Rightarrow> client_config \<Rightarrow> tunnel \<Rightarrow> session_outcome" where
  "login_session b os ipv6 sc c cfg t =
     (case send_to b open_sink (ReqLogin (client_login_info cfg t)) of
        (Inl _, k) \<Rightarrow>
          \<lparr>ls_sent = StageFailed,
           ls_server = fst (authenticate_connection b os ipv6 sc c (Some (open_sink, peer_of (k\<lparr>finished := True\<rparr>)))),
           ls_response = StageFailed\<rparr>
      | (Inr _, k) \<Rightarrow>
          (case authenticate_connection b os ipv6 sc c (Some (open_sink, peer_of k)) of
             (r, k') \<Rightarrow>
               \<lparr>ls_sent = StageOk (), ls_server = r,
                ls_response =
                  (case recv_from b (peer_of (case k' of
                      None \<Rightarrow> open_sink\<lparr>finished := True\<rparr>
                    | Some k'' \<Rightarrow> k''\<lparr>finished := (case r of Inl _ \<Rightarrow> True | Inr _ \<Rightarrow> False)\<rparr>)) of
                     Inl _ \<Rightarrow> StageFailed
                   | Inr (m, _) \<Rightarrow> StageOk m)\<rparr>))"

text \<open>
  The server on the login stream: the login, then the heartbeat responder on what follows.
  The last components are the send half with all that was written on it and the close the
  responder asks for while the connection is open.
\<close>

definition server_login_stream ::
    "bincode \<Rightarrow> sockets \<Rightarrow> bool \<Rightarrow> server_config \<Rightarrow> conn \<Rightarrow> instream \<Rightarrow>
     auth_error + nat tunnel_type \<times> timeout_config \<times> sink \<times> (u32 \<times> string) option" where
  "server_login_stream b os ipv6 sc c quic_recv =
     (case authenticate_connection b os ipv6 sc c (Some (open_sink, quic_recv)) of
        (Inl e, _) \<Rightarrow> Inl e
      | (Inr (tt, timeouts), quic_send) \<Rightarrow>
          (case recv_from b quic_recv of
             Inl e \<Rightarrow> Inl (LoginRecv e)
           | Inr (_, rest) \<Rightarrow>
               Inr (tt, timeouts,
                 start_heartbeat_responder b False (\<lambda>_. False) False rest (the quic_send))))"

section \<open>Lemmas\<close>

lemma open_sink_sel [simp]: "written open_sink = []" "budget open_sink = None" "finished open_sink = False"
  by (simp_all add: open_sink_def)

lemma peer_of_frame:
  assumes "bincode_laws b" and "encodable b m" and "written k = frame_of b m @ rest"
  shows "recv_from b (peer_of k) =
    Inr (m, \<lparr>avail = rest, tail_of = (if finished k then Closed else Stalled)\<rparr>)"
  using recv_frame_of [OF assms(1,2)] assms(3) by (simp add: peer_of_def)

text \<open>The text with which a server refuses to listen for a tunnel.\<close>

fun bind_failure :: "upstream_type \<Rightarrow> socket_addr \<Rightarrow> string" where
  "bind_failure Tcp addr = ''tcp server failed to bind at: '' @ display_socket_addr addr"
| "bind_failure Udp addr = ''udp server failed to bind at: '' @ display_socket_addr addr"

definition refusal_fits :: "bincode \<Rightarrow> tunnel \<Rightarrow> bool" where
  "refusal_fits b t \<longleftrightarrow>
     (\<forall>tc addr. t = NetworkBased tc \<longrightarrow> upstream_addr (tc_upstream tc) = Some addr \<longrightarrow>
        encodable b (RespFailure (bind_failure (upstream_kind (tc_upstream tc)) addr)))"

lemma reject_bind_open:
  "encodable b (RespFailure msg) \<Longrightarrow>
     reject_bind b open_sink msg addr =
       (Inl (BindRejected addr), open_sink\<lparr>written := frame_of b (RespFailure msg)\<rparr>)"
  by (simp add: reject_bind_def send_failure_def send_frame_of)

lemma login_tunnel_refused:
  assumes "login_tunnel b os config c li open_sink = (Inl e :: auth_error + nat tunnel_type, k)" and "refusal_fits b (li_tunnel li)"
  shows "k = open_sink \<and> (\<forall>addr. e \<noteq> BindRejected addr) \<or>
    (\<exists>ty addr. k = open_sink\<lparr>written := frame_of b (RespFailure (bind_failure ty addr))\<rparr> \<and>
       encodable b (RespFailure (bind_failure ty addr)) \<and> e = BindRejected addr)"
proof (cases "li_tunnel li")
  case (ChannelBased ty)
  then show ?thesis using assms(1) by (cases ty) (simp_all add: login_tunnel_def)
next
  case (NetworkBased tc)
  let ?ty = "upstream_kind (tc_upstream tc)"
  have d: "derive_tunnel_type b os config c tc open_sink = (Inl e :: auth_error + nat tunnel_type, k)"
    using assms(1) NetworkBased by (simp add: login_tunnel_def)
  show ?thesis
  proof (cases "obtain_upstream_addr tc (case ?ty of Tcp \<Rightarrow> default_tcp_upstream config | Udp \<Rightarrow> default_udp_upstream config)")
    case (Inl e')
    then have "e' \<noteq> BindRejected addr" for addr
      by (auto simp: obtain_upstream_addr_def split: option.splits if_splits)
    then show ?thesis using d Inl by (simp add: derive_tunnel_type_def)
  next
    case (Inr addr)
    note up = obtain_upstream_addr_InrD [OF Inr]
    show ?thesis
    proof (cases "tc_mode tc")
      case TOut
      then show ?thesis using d Inr by (cases ?ty) (simp_all add: derive_tunnel_type_def)
    next
      case TIn
      then have enc: "encodable b (RespFailure (bind_failure ?ty addr))"
        using up assms(2) NetworkBased by (simp add: refusal_fits_def)
      have "reject_bind b open_sink (bind_failure ?ty addr) addr = (Inl e :: auth_error + nat tunnel_type, k)"
        using d Inr TIn by (cases ?ty) (auto simp: derive_tunnel_type_def split: option.splits)
      then have "e = BindRejected addr \<and> k = open_sink\<lparr>written := frame_of b (RespFailure (bind_failure ?ty addr))\<rparr>"
        by (simp add: reject_bind_open [OF enc])
      then show ?thesis using enc by blast
    qed
  qed
qed

text \<open>The request arrives as it was sent; a stream that ends at once gives no message.\<close>

lemma login_request:
  assumes "bincode_laws b" and "encodable b (ReqLogin li)"
  defines "k \<equiv> open_sink\<lparr>written := frame_of b (ReqLogin li)\<rparr>"
  shows "send_to b open_sink (ReqLogin li) = (Inr (), k)"
    and "recv_from b (peer_of k) = Inr (ReqLogin li, \<lparr>avail = [], tail_of = Stalled\<rparr>)"
    and "recv_from b (peer_of (k\<lparr>finished := True\<rparr>)) = Inr (ReqLogin li, \<lparr>avail = [], tail_of = Closed\<rparr>)"
  using send_frame_of [OF assms(2), of open_sink] peer_of_frame [OF assms(1,2), of k "[]"]
    peer_of_frame [OF assms(1,2), of "k\<lparr>finished := True\<rparr>" "[]"]
  by (simp_all add: k_def)

lemma login_session_eq:
  assumes "bincode_laws b" and "encodable b (ReqLogin (client_login_info cfg t))"
    and "authenticate_connection b os ipv6 sc c (Some (open_sink,
      peer_of (open_sink\<lparr>written := frame_of b (ReqLogin (client_login_info cfg t))\<rparr>))) = (r, Some k)"
  shows "login_session b os ipv6 sc c cfg t =
    \<lparr>ls_sent = StageOk (), ls_server = r,
     ls_response = (case recv_from b (peer_of (k\<lparr>finished := (case r of Inl _ \<Rightarrow> True | Inr _ \<Rightarrow> False)\<rparr>)) of
       Inl _ \<Rightarrow> StageFailed | Inr (m, _) \<Rightarrow> StageOk m)\<rparr>"
  using assms(3) by (simp add: login_session_def login_request [OF assms(1,2)])

lemma no_answer: "recv_from b (peer_of (open_sink\<lparr>finished := True\<rparr>)) = Inl (ReadFailed (tail_error Closed))"
  by (simp add: peer_of_def recv_nothing)

lemma client_login_info_sel [simp]:
  "li_password (client_login_info cfg t) = password cfg" "li_tunnel (client_login_info cfg t) = t"
  "li_tcp_timeout_ms (client_login_info cfg t) = tcp_timeout_ms cfg"
  "li_udp_timeout_ms (client_login_info cfg t) = udp_timeout_ms cfg"
  by (simp_all add: client_login_info_def)

lemma login_session_wrong_password:
  assumes "bincode_laws b" and "encodable b (ReqLogin (client_login_info cfg t))"
    and "password cfg \<noteq> sc_password sc"
  shows "login_session b os ipv6 sc c cfg t =
    \<lparr>ls_sent = StageOk (), ls_server = Inl PasswordMismatch, ls_response = StageFailed\<rparr>"
  using login_session_eq [OF assms(1,2) authenticate_wrong_password [OF login_request(2) [OF assms(1,2)]]] assms(3)
  by (simp add: no_answer)

lemma granted_answer:
  assumes "bincode_laws b" and "encodable b (ReqLogin (client_login_info cfg t))"
    and "encodable b (RespSuccess \<lparr>ipv6_supported = ipv6\<rparr>)"
    and "password cfg = sc_password sc"
    and "fst (login_tunnel b os sc c (client_login_info cfg t) open_sink) = Inr tt"
    and "recv_from b s = Inr (ReqLogin (client_login_info cfg t), s')"
  shows "authenticate_connection b os ipv6 sc c (Some (open_sink, s)) =
    (Inr (tt, \<lparr>to_tcp_ms = effective_timeout (tcp_timeout_ms cfg) (sc_tcp_timeout_ms sc),
       to_udp_ms = effective_timeout (udp_timeout_ms cfg) (sc_udp_timeout_ms sc)\<rparr>),
     Some (open_sink\<lparr>written := frame_of b (RespSuccess \<lparr>ipv6_supported = ipv6\<rparr>)\<rparr>))"
proof -
  have "login_tunnel b os sc c (client_login_info cfg t) open_sink = (Inr tt, open_sink)"
    using assms(5) login_tunnel_Inr [of b os sc c "client_login_info cfg t" open_sink tt]
    by (metis prod.collapse)
  then show ?thesis
    using assms(4) send_frame_of [OF assms(3), of open_sink]
    by (simp add: authenticate_login [OF assms(6)])
qed

lemma login_session_granted:
  assumes "bincode_laws b" and "encodable b (ReqLogin (client_login_info cfg t))"
    and "encodable b (RespSuccess \<lparr>ipv6_supported = ipv6\<rparr>)"
    and "password cfg = sc_password sc"
    and "fst (login_tunnel b os sc c (client_login_info cfg t) open_sink) = Inr tt"
  shows "login_session b os ipv6 sc c cfg t =
    \<lparr>ls_sent = StageOk (),
     ls_server = Inr (tt,
       \<lparr>to_tcp_ms = effective_timeout (tcp_timeout_ms cfg) (sc_tcp_timeout_ms sc),
        to_udp_ms = effective_timeout (udp_timeout_ms cfg) (sc_udp_timeout_ms sc)\<rparr>),
     ls_response = StageOk (RespSuccess \<lparr>ipv6_supported = ipv6\<rparr>)\<rparr>"
proof -
  have "recv_from b (peer_of (open_sink\<lparr>written := frame_of b (RespSuccess \<lparr>ipv6_supported = ipv6\<rparr>), finished := False\<rparr>)) =
      Inr (RespSuccess \<lparr>ipv6_supported = ipv6\<rparr>, \<lparr>avail = [], tail_of = Stalled\<rparr>)"
    by (subst peer_of_frame [OF assms(1,3), where rest = "[]"]) simp_all
  then show ?thesis
    using login_session_eq [OF assms(1,2) granted_answer [OF assms login_request(2) [OF assms(1,2)]]] by simp
qed

lemma login_session_refused:
  assumes "bincode_laws b" and "encodable b (ReqLogin (client_login_info cfg t))" and "refusal_fits b t"
    and "password cfg = sc_password sc"
    and "fst (login_tunnel b os sc c (client_login_info cfg t) open_sink) = (Inl e :: auth_error + nat tunnel_type)"
  shows "\<exists>r. login_session b os ipv6 sc c cfg t = \<lparr>ls_sent = StageOk (), ls_server = Inl e, ls_response = r\<rparr> \<and>
    (r = StageFailed \<and> (\<forall>addr. e \<noteq> BindRejected addr) \<or>
     (\<exists>ty addr. r = StageOk (RespFailure (bind_failure ty addr)) \<and> e = BindRejected addr))"
proof -
  obtain k where k: "login_tunnel b os sc c (client_login_info cfg t) open_sink = (Inl e :: auth_error + nat tunnel_type, k)"
    using assms(5) by (metis prod.collapse)
  have "authenticate_connection b os ipv6 sc c (Some (open_sink,
      peer_of (open_sink\<lparr>written := frame_of b (ReqLogin (client_login_info cfg t))\<rparr>))) =
      (Inl e :: auth_error + nat tunnel_type \<times> timeout_config, Some k)"
    using assms(4) k by (simp add: authenticate_login [OF login_request(2) [OF assms(1,2)]])
  note session = login_session_eq [OF assms(1,2) this]
  from login_tunnel_refused [OF k] assms(3) consider "k = open_sink" "\<forall>addr. e \<noteq> BindRejected addr"
    | ty addr where "k = open_sink\<lparr>written := frame_of b (RespFailure (bind_failure ty addr))\<rparr>"
      "encodable b (RespFailure (bind_failure ty addr))" "e = BindRejected addr"
    by auto
  then show ?thesis
  proof cases
    case 1
    then show ?thesis using session no_answer by simp
  next
    case 2
    then show ?thesis
      using session peer_of_frame [OF assms(1) 2(2), of "k\<lparr>finished := True\<rparr>" "[]"] by simp blast
  qed
qed

section \<open>Properties\<close>

lemma login_answered:
  assumes "io_connect io" and "io_connected io = StageOk (cid, stats)" and "io_opened io = StageOk ()"
    and "io_sent io = StageOk ()"
  shows "login_stages io =
    (case io_response io of
       StageStopping \<Rightarrow> Inl (Aborted ''receive login response'')
     | StageTimeout \<Rightarrow> Inl (TimedOut ''receive login response'')
     | StageFailed \<Rightarrow> Inl (Failed ''receive login response'')
     | StageOk resp \<Rightarrow> try_then (login_capabilities resp) (\<lambda>caps. Inr ((cid, stats), caps)))"
  using assms by (simp add: login_stages_def run_login_stage_def split: stage.split)

lemma login_result:
  "fst (login cfg now msg d io st) = map_sum (\<lambda>e. e) (\<lambda>((c, _), _). (c, heartbeat_enabled cfg)) (login_stages io)"
  "login_stages io = Inr (conn, caps) \<Longrightarrow>
     st_server_ipv6 (snd (login cfg now msg d io st)) = Some (ipv6_supported caps)"
  by (auto simp: login_def Let_def post_defs split: sum.split prod.split)

text \<open>
  C5. Client and server agree about a login. For a serialiser that inverts itself and
  accepts the messages of this login, over a connection whose stream works: the client's
  login succeeds exactly when the server granted a tunnel. With a wrong password the server
  refuses and says nothing. What it grants is a tunnel the request is entitled to, on this
  connection, with the timeouts of both sides combined, and the client learns whether the
  server has IPv6. A listener that cannot be bound is reported to the client by its address.
\<close>

theorem login_agreement:
  assumes "bincode_laws b" and "encodable b (ReqLogin (client_login_info cfg t))"
    and "encodable b (RespSuccess \<lparr>ipv6_supported = ipv6\<rparr>)" and "refusal_fits b t"
    and "io_connect io" and "io_connected io = StageOk (cid, stats)" and "io_opened io = StageOk ()"
    and "io_sent io = ls_sent (login_session b os ipv6 sc c cfg t)"
    and "io_response io = ls_response (login_session b os ipv6 sc c cfg t)"
  shows "((\<exists>hb. fst (login cfg now msg d io st) = Inr (cid, hb)) \<longleftrightarrow>
      (\<exists>tt timeouts. ls_server (login_session b os ipv6 sc c cfg t) = Inr (tt, timeouts))) \<and>
    (password cfg \<noteq> sc_password sc \<longrightarrow> ls_server (login_session b os ipv6 sc c cfg t) = Inl PasswordMismatch) \<and>
    (\<forall>tt timeouts. ls_server (login_session b os ipv6 sc c cfg t) = Inr (tt, timeouts) \<longrightarrow>
      entitled os sc t tt \<and> tunnel_conn tt = c \<and>
      to_tcp_ms timeouts = effective_timeout (tcp_timeout_ms cfg) (sc_tcp_timeout_ms sc) \<and>
      to_udp_ms timeouts = effective_timeout (udp_timeout_ms cfg) (sc_udp_timeout_ms sc) \<and>
      st_server_ipv6 (snd (login cfg now msg d io st)) = Some ipv6) \<and>
    (\<forall>addr. ls_server (login_session b os ipv6 sc c cfg t) = Inl (BindRejected addr) \<longrightarrow>
      (\<exists>ty. fst (login cfg now msg d io st) = Inl (LoginFailed (bind_failure ty addr))))"
proof (cases "password cfg = sc_password sc")
  case False
  note session = login_session_wrong_password [OF assms(1,2) False, of os ipv6 c]
  show ?thesis using login_answered [OF assms(5-7)] assms(8,9) False
    by (simp add: login_result session)
next
  case True
  show ?thesis
  proof (cases "fst (login_tunnel b os sc c (client_login_info cfg t) open_sink :: (auth_error + nat tunnel_type) \<times> sink)")
    case (Inl e)
    from login_session_refused [OF assms(1,2,4) True Inl, of ipv6] obtain r where
      session: "login_session b os ipv6 sc c cfg t = \<lparr>ls_sent = StageOk (), ls_server = Inl e, ls_response = r\<rparr>"
      and r: "r = StageFailed \<and> (\<forall>addr. e \<noteq> BindRejected addr) \<or>
        (\<exists>ty addr. r = StageOk (RespFailure (bind_failure ty addr)) \<and> e = BindRejected addr)" by blast
    from r show ?thesis using login_answered [OF assms(5-7)] assms(8,9) True
      by (elim disjE conjE exE) (simp_all add: login_result session, blast)
  next
    case (Inr tt)
    note session = login_session_granted [OF assms(1-3) True Inr]
    have "entitled os sc t tt \<and> tunnel_conn tt = c"
      using login_tunnel_Inr [of b os sc c "client_login_info cfg t" open_sink tt] Inr
      by (metis client_login_info_sel(2) prod.collapse)
    then show ?thesis using login_answered [OF assms(5-7)] assms(8,9) True
      by (simp add: login_result session)
  qed
qed

text \<open>A serialiser that knows one login, its answer, and the heartbeats.\<close>

fun session_encode :: "login_info \<Rightarrow> tunnel_message \<Rightarrow> bytes option" where
  "session_encode li (ReqLogin li') = (if li' = li then Some [3] else None)"
| "session_encode li (RespSuccess caps) = (if caps = \<lparr>ipv6_supported = True\<rparr> then Some [4] else None)"
| "session_encode li (RespFailure _) = None"
| "session_encode li m = ping_encode m"

definition session_bincode :: "login_info \<Rightarrow> bincode" where
  "session_bincode li =
     \<lparr>encode_to_vec = session_encode li,
      decode_from_slice = (\<lambda>bs.
        if bs = [3] then Some (ReqLogin li, 1)
        else if bs = [4] then Some (RespSuccess \<lparr>ipv6_supported = True\<rparr>, 1) else ping_decode bs)\<rparr>"

lemma session_bincode_laws: "bincode_laws (session_bincode li)"
proof -
  have ping: "ping_encode m = Some bs \<Longrightarrow> bs \<noteq> [3] \<and> bs \<noteq> [4] \<and> ping_decode bs = Some (m, length bs)" for m bs
    using ping_bincode_laws by (cases m) (auto simp: bincode_laws_def ping_bincode_def)
  show ?thesis unfolding bincode_laws_def
  proof (intro allI impI)
    fix m bs
    assume "encode_to_vec (session_bincode li) m = Some bs"
    then show "decode_from_slice (session_bincode li) bs = Some (m, length bs)"
      by (cases m) (auto simp: session_bincode_def dest: ping split: if_splits)
  qed
qed

lemma session_encodable:
  "encodable (session_bincode li) (ReqLogin li)"
  "encodable (session_bincode li) (RespSuccess \<lparr>ipv6_supported = True\<rparr>)"
  "encodable (session_bincode li) (ReqHeartbeat n)" "encodable (session_bincode li) (RespHeartbeat n)"
  using encodable_ping [of n]
  by (simp_all add: encodable_def session_bincode_def ping_bincode_def MAX_TUNNEL_MESSAGE_SIZE_def)

definition session_config :: client_config where
  "session_config = sample_config\<lparr>password := ''pw'', heartbeat_interval_ms := 0\<rparr>"

definition session_io :: "tunnel_message stage \<Rightarrow> login_io" where
  "session_io r =
     \<lparr>io_connect = True, io_connected = StageOk (7, some_stats 7), io_opened = StageOk (),
      io_sent = StageOk (), io_response = r\<rparr>"

abbreviation "session_login \<equiv> client_login_info session_config (ChannelBased Tcp)"

lemma session_password: "password session_config = sc_password example_server"
  by (simp add: session_config_def example_server_def)

lemma session_tunnel:
  "fst (login_tunnel (session_bincode session_login) no_sockets example_server 7 session_login open_sink) =
     (Inr (DynamicUpstreamTcpOut 7) :: auth_error + nat tunnel_type)"
  by (simp add: login_tunnel_def)

theorem login_agreement_witness:
  "\<exists>hb. fst (login session_config [] (\<lambda>_. []) \<lparr>td_id = Channel 0 Tcp, td_proto = Tcp, td_mode = TOut\<rparr>
     (session_io (ls_response (login_session (session_bincode session_login) no_sockets True example_server 7
        session_config (ChannelBased Tcp))))
     (client_state_new :: nat client_state)) = Inr (7, hb)"
proof -
  note session = login_session_granted [OF session_bincode_laws session_encodable(1,2) session_password session_tunnel]
  have io: "io_connect (session_io r)" "io_connected (session_io r) = StageOk (7, some_stats 7)"
    "io_opened (session_io r) = StageOk ()" "io_response (session_io r) = r"
    "io_sent (session_io r) = ls_sent (login_session (session_bincode session_login) no_sockets True example_server 7
        session_config (ChannelBased Tcp))" for r
    by (simp_all add: session_io_def session)
  have fits: "refusal_fits (session_bincode session_login) (ChannelBased Tcp)" by (simp add: refusal_fits_def)
  show ?thesis
    using login_agreement [OF session_bincode_laws session_encodable(1,2) fits io(1,2,3,5,4),
      where st = "client_state_new :: nat client_state" and now = "[]" and msg = "\<lambda>_. []"
        and d = "\<lparr>td_id = Channel 0 Tcp, td_proto = Tcp, td_mode = TOut\<rparr>"]
    by (simp add: session)
qed

lemma requests_encodable:
  assumes "\<And>n. encodable b (ReqHeartbeat n)" and "\<And>n. encodable b (RespHeartbeat n)"
  shows "list_all (encodable b) (requests seq n)"
    and "list_all (encodable b) (concat (map reply_to (requests seq n)))"
  using assms by (simp_all add: replies_to_requests list_all_iff requests_def)

text \<open>
  C35. The heartbeat and the life of a session. As long as the client sends its heartbeat
  requests the server answers each of them, in order and with its number, after the answer
  to the login on the same stream, and leaves the connection and the stream open. A client whose heartbeat is
  disabled drops the login stream as soon as it is logged in: the server reads the end of
  the stream as a failed heartbeat and closes the connection it has just granted a tunnel.
\<close>

theorem disabled_heartbeat_disconnects:
  assumes "bincode_laws b" and "encodable b (ReqLogin (client_login_info cfg t))"
    and "encodable b (RespSuccess \<lparr>ipv6_supported = ipv6\<rparr>)"
    and "\<And>n. encodable b (ReqHeartbeat n)" and "\<And>n. encodable b (RespHeartbeat n)"
    and "password cfg = sc_password sc"
    and "fst (login_tunnel b os sc c (client_login_info cfg t) open_sink) = Inr tt"
    and "send_to b open_sink (ReqLogin (client_login_info cfg t)) = (Inr (), k)"
  shows "\<exists>timeouts.
    (\<forall>n. server_login_stream b os ipv6 sc c (peer_of (k\<lparr>written := written k @ frames b (requests 0 n)\<rparr>)) =
       Inr (tt, timeouts, open_sink\<lparr>written := frame_of b (RespSuccess \<lparr>ipv6_supported = ipv6\<rparr>) @
         frames b (map (\<lambda>i. RespHeartbeat (1 + word_of_nat i)) [0..<n])\<rparr>, None)) \<and>
    (\<not> heartbeat_enabled cfg \<longrightarrow>
      (\<forall>at_poll quic_recv. \<exists>k'. start_heartbeat_task cfg b at_poll None quic_recv k = (k', None) \<and>
         server_login_stream b os ipv6 sc c (peer_of k') =
           Inr (tt, timeouts, open_sink\<lparr>written := frame_of b (RespSuccess \<lparr>ipv6_supported = ipv6\<rparr>),
             finished := True\<rparr>, Some (1, ''heartbeat failed''))))"
proof -
  let ?li = "client_login_info cfg t"
  let ?w = "open_sink\<lparr>written := frame_of b (RespSuccess \<lparr>ipv6_supported = ipv6\<rparr>)\<rparr>"
  let ?to = "\<lparr>to_tcp_ms = effective_timeout (tcp_timeout_ms cfg) (sc_tcp_timeout_ms sc),
       to_udp_ms = effective_timeout (udp_timeout_ms cfg) (sc_udp_timeout_ms sc)\<rparr>"
  have k: "k = open_sink\<lparr>written := frame_of b (ReqLogin ?li)\<rparr>"
    using assms(8) login_request(1) [OF assms(1,2)] by simp
  have stream: "server_login_stream b os ipv6 sc c s =
      Inr (tt, ?to, start_heartbeat_responder b False (\<lambda>_. False) False rest ?w)"
    if "recv_from b s = Inr (ReqLogin ?li, rest)" for s rest
    by (simp add: server_login_stream_def granted_answer [OF assms(1-3,6,7) that] that)
  have served: "server_login_stream b os ipv6 sc c (peer_of (k\<lparr>written := written k @ frames b (requests 0 n)\<rparr>)) =
      Inr (tt, ?to, open_sink\<lparr>written := frame_of b (RespSuccess \<lparr>ipv6_supported = ipv6\<rparr>) @
         frames b (map (\<lambda>i. RespHeartbeat (1 + word_of_nat i)) [0..<n])\<rparr>, None)" for n
  proof -
    have "recv_from b (peer_of (k\<lparr>written := written k @ frames b (requests 0 n)\<rparr>)) =
        Inr (ReqLogin ?li, \<lparr>avail = frames b (requests 0 n), tail_of = Stalled\<rparr>)"
      using peer_of_frame [OF assms(1,2), of "k\<lparr>written := written k @ frames b (requests 0 n)\<rparr>"] by (simp add: k)
    moreover have "start_heartbeat_responder b False (\<lambda>_. False) False
        \<lparr>avail = frames b (requests 0 n), tail_of = Stalled\<rparr> ?w =
      (?w\<lparr>written := written ?w @ frames b (map (\<lambda>i. RespHeartbeat (1 + word_of_nat i)) [0..<n])\<rparr>, None)"
      using server_heartbeat_run [OF assms(1) _ requests_encodable [OF assms(4,5), of 0 n],
        where should_stop = "\<lambda>_. False" and w = ?w and i = 0 and t = Stalled and log = "[]"]
      by (simp add: start_heartbeat_responder_def replies_to_requests)
    ultimately show ?thesis using stream by simp
  qed
  have dropped: "server_login_stream b os ipv6 sc c (peer_of (k\<lparr>finished := True\<rparr>)) =
      Inr (tt, ?to, ?w\<lparr>finished := True\<rparr>, Some (1, ''heartbeat failed''))"
  proof -
    have "start_heartbeat_responder b False (\<lambda>_. False) False \<lparr>avail = [], tail_of = Closed\<rparr> ?w =
        (?w\<lparr>finished := True\<rparr>, Some (1, ''heartbeat failed''))"
      using server_heartbeat_run [OF assms(1) _ requests_encodable [OF assms(4,5), of 0 0],
        where should_stop = "\<lambda>_. False" and w = ?w and i = 0 and t = Closed and log = "[]"]
      by (simp add: start_heartbeat_responder_def requests_def)
    then show ?thesis using stream [OF login_request(3) [OF assms(1,2)]] by (simp add: k)
  qed
  show ?thesis using served dropped
    by (intro exI [of _ ?to]) (simp add: start_heartbeat_task_def)
qed

theorem disabled_heartbeat_disconnects_witness:
  "\<exists>k k' timeouts.
     server_login_stream (session_bincode session_login) no_sockets True example_server 7 (peer_of k) =
       Inr (DynamicUpstreamTcpOut 7, timeouts,
         open_sink\<lparr>written := frame_of (session_bincode session_login) (RespSuccess \<lparr>ipv6_supported = True\<rparr>) @
           frames (session_bincode session_login) (map (\<lambda>i. RespHeartbeat (1 + word_of_nat i)) [0..<2])\<rparr>, None) \<and>
     server_login_stream (session_bincode session_login) no_sockets True example_server 7 (peer_of k') =
       Inr (DynamicUpstreamTcpOut 7, timeouts,
         open_sink\<lparr>written := frame_of (session_bincode session_login) (RespSuccess \<lparr>ipv6_supported = True\<rparr>),
           finished := True\<rparr>, Some (1, ''heartbeat failed''))"
proof -
  have off: "\<not> heartbeat_enabled session_config" by (simp add: heartbeat_enabled_def session_config_def)
  from disabled_heartbeat_disconnects [OF session_bincode_laws session_encodable session_password session_tunnel
      login_request(1) [OF session_bincode_laws session_encodable(1)]] off
  show ?thesis by blast
qed

text \<open>
  A listener that is lost: when the answer to an inbound login cannot be sent, the login
  fails but the listener bound for it is not shut down. Its loop takes every later
  connection to that port, drops it and goes on, so the port stays bound.
\<close>

lemma fresh_listener:
  "derive_tunnel_type b os sc c tc k = (Inr (TcpIn c srv :: nat tunnel_type), k1) \<Longrightarrow>
     \<not> terminated srv \<and> \<not> ts_active srv"
  by (auto simp: derive_tunnel_type_def tcp_bind_and_start_def reject_bind_def
      split: sum.splits tunnel_mode.splits upstream_type.splits option.splits prod.splits)

lemma failed_login_leaks_listener:
  assumes "recv_from b s = Inr (ReqLogin li, s')" and "li_password li = sc_password sc"
    and "login_tunnel b os sc c li k = (Inr (TcpIn c srv :: nat tunnel_type), k1)"
    and "send_to b k1 (RespSuccess \<lparr>ipv6_supported = ipv6\<rparr>) = (Inl e, k2)"
  shows "authenticate_connection b os ipv6 sc c (Some (k, s)) =
      (Inl (LoginSend e) :: auth_error + nat tunnel_type \<times> timeout_config, Some k2) \<and>
    accept_connection stream srv = srv"
proof -
  obtain tc where "derive_tunnel_type b os sc c tc k = (Inr (TcpIn c srv :: nat tunnel_type), k1)"
    using assms(3) by (auto simp: login_tunnel_def split: tunnel.splits upstream_type.splits)
  then have "accept_connection stream srv = srv"
    using fresh_listener by (simp add: accept_connection_def)
  with assms(3,4) show ?thesis by (simp add: authenticate_login [OF assms(1,2)])
qed

end
