(* ===== verification/Tcp_Tunnel.thy ===== *)
theory Tcp_Tunnel
  imports Servers Codec_Stream
begin

text \<open>
  \<^verbatim>\<open>src/src/tcp/tcp_tunnel.rs\<close>: the serving loop that opens one QUIC stream per local
  connection and writes its destination, and the accepting side that reads it and connects.
  Opening a stream, connecting and the caller's connector are given by their results. The
  codec configuration is passed to each relay that is started.
\<close>

section \<open>The serving loop\<close>

text \<open>One answer of \<^verbatim>\<open>open_bi\<close>: a failure, or the send half of the new stream.\<close>

datatype open_result = OpenFailed | Opened sink

datatype serve_status = Serving | ServeEnded

text \<open>
  The channel is its queue and whether all its senders are gone. \<open>in_hand\<close> is the request
  of an iteration that waits for a stream, \<open>started\<close> the requests handed to the relay with
  what was written on their streams and with the codec.
\<close>

record ('s, 'k) serve_state =
  pending_request :: "'s stream_request option"
  requests_queue :: "'s stream_message list"
  senders_gone :: bool
  in_hand :: "'s stream_request option"
  started :: "('s stream_request \<times> sink \<times> 'k) list"
  serve_status :: serve_status

definition next_request ::
    "('s, 'k) serve_state \<Rightarrow> ('s stream_request option \<times> ('s, 'k) serve_state) option" where
  "next_request st =
     (case pending_request st of
        Some r \<Rightarrow> Some (Some r, st\<lparr>pending_request := None\<rparr>)
      | None \<Rightarrow>
          (case requests_queue st of
             [] \<Rightarrow> if senders_gone st then Some (None, st) else None
           | Request r # q \<Rightarrow> Some (Some r, st\<lparr>requests_queue := q\<rparr>)
           | Quit # q \<Rightarrow> Some (None, st\<lparr>requests_queue := q\<rparr>)))"

fun start_serving :: "'k \<Rightarrow> open_result list \<Rightarrow> ('s, 'k) serve_state \<Rightarrow> ('s, 'k) serve_state" where
  "start_serving codec opens st =
     (case next_request st of
        None \<Rightarrow> st
      | Some (None, st1) \<Rightarrow> st1\<lparr>serve_status := ServeEnded\<rparr>
      | Some (Some r, st1) \<Rightarrow>
          (case opens of
             [] \<Rightarrow> st1\<lparr>in_hand := Some r\<rparr>
           | OpenFailed # _ \<Rightarrow> st1\<lparr>pending_request := Some r, serve_status := ServeEnded\<rparr>
           | Opened k # rest \<Rightarrow>
               (case write_tunnel_target k (req_target r) False of
                  (Inl _, _) \<Rightarrow> start_serving codec rest (st1\<lparr>pending_request := Some r\<rparr>)
                | (Inr _, k') \<Rightarrow>
                    start_serving codec rest (st1\<lparr>started := started st1 @ [(r, k', codec)]\<rparr>))))"

declare start_serving.simps [simp del]

text \<open>
  The loop is a branch of a \<^verbatim>\<open>select!\<close>: when the connection closes first, the loop is dropped
  where it waits, and with it the request it has in hand; the one it put aside before stays.
\<close>

definition cancel_serving :: "('s, 'k) serve_state \<Rightarrow> ('s, 'k) serve_state" where
  "cancel_serving st = st\<lparr>in_hand := None\<rparr>"

section \<open>The accepting side\<close>

record connect_ctx =
  requested_dst :: "tunnel_target option"
  default_upstream :: "socket_addr option"
  ctx_timeout_ms :: u64

text \<open>
  How the handler of an accepted stream ends: it gives up, or it relays between the stream,
  read from where the destination ended, and the upstream connection, with the codec.
\<close>

datatype ('u, 'k) accept_outcome = Abandoned | Flowing 'u instream 'k

definition accept_stream ::
    "(connect_ctx \<Rightarrow> 'u option) option \<Rightarrow> (tunnel_target \<Rightarrow> 'u option) \<Rightarrow> socket_addr option \<Rightarrow> u64 \<Rightarrow>
     'k \<Rightarrow> instream \<Rightarrow> ('u, 'k) accept_outcome" where
  "accept_stream connector connect fixed timeout codec quic_recv =
     (case (if connector \<noteq> None \<or> fixed = None
            then (case read_tunnel_target quic_recv of
                    Inr (t, s) \<Rightarrow> Some (Some t, s)
                  | Inl _ \<Rightarrow> None)
            else Some (None, quic_recv)) of
        None \<Rightarrow> Abandoned
      | Some (requested, s) \<Rightarrow>
          (case connector of
             Some f \<Rightarrow>
               (case f \<lparr>requested_dst = requested, default_upstream = fixed,
                        ctx_timeout_ms = timeout\<rparr> of
                  Some u \<Rightarrow> Flowing u s codec
                | None \<Rightarrow> Abandoned)
           | None \<Rightarrow>
               (case (case fixed of Some a \<Rightarrow> Some (Addr a) | None \<Rightarrow> requested) of
                  None \<Rightarrow> Abandoned
                | Some target \<Rightarrow>
                    (case connect target of Some u \<Rightarrow> Flowing u s codec | None \<Rightarrow> Abandoned))))"

text \<open>
  The accept loop: every accepted stream is handled by a task of its own, and any failure of
  \<^verbatim>\<open>accept_bi\<close> ends the loop.
\<close>

datatype accept_event = AcceptFailed | Accepted instream

fun start_accepting_with_connector ::
    "(connect_ctx \<Rightarrow> 'u option) option \<Rightarrow> (tunnel_target \<Rightarrow> 'u option) \<Rightarrow> socket_addr option \<Rightarrow> u64 \<Rightarrow>
     'k \<Rightarrow> accept_event list \<Rightarrow> ('u, 'k) accept_outcome list" where
  "start_accepting_with_connector connector connect up timeout codec [] = []"
| "start_accepting_with_connector connector connect up timeout codec (AcceptFailed # evs) = []"
| "start_accepting_with_connector connector connect up timeout codec (Accepted s # evs) =
     accept_stream connector connect up timeout codec s #
     start_accepting_with_connector connector connect up timeout codec evs"

definition start_accepting ::
    "(tunnel_target \<Rightarrow> 'u option) \<Rightarrow> socket_addr option \<Rightarrow> u64 \<Rightarrow> 'k \<Rightarrow> accept_event list \<Rightarrow>
     ('u, 'k) accept_outcome list" where
  "start_accepting connect up timeout codec evs =
     start_accepting_with_connector None connect up timeout codec evs"

text \<open>Without a connector the codec that was given is replaced by the default, which is off.\<close>

definition start_dynamic_accepting ::
    "(connect_ctx \<Rightarrow> 'u option) option \<Rightarrow> (tunnel_target \<Rightarrow> 'u option) \<Rightarrow> socket_addr option \<Rightarrow> u64 \<Rightarrow>
     ('e, 'd, 'ed, 'dd, 'c) codec_config \<Rightarrow> accept_event list \<Rightarrow>
     ('u, ('e, 'd, 'ed, 'dd, 'c) codec_config) accept_outcome list" where
  "start_dynamic_accepting connector connect dflt timeout codec evs =
     (case connector of
        Some f \<Rightarrow> start_accepting_with_connector (Some f) connect dflt timeout codec evs
      | None \<Rightarrow> start_accepting connect None timeout codec_config_default evs)"

section \<open>No request is lost\<close>

fun request_of :: "'s stream_message \<Rightarrow> 's stream_request list" where
  "request_of (Request r) = [r]"
| "request_of Quit = []"

definition outstanding :: "('s, 'k) serve_state \<Rightarrow> 's stream_request list" where
  "outstanding st = (case in_hand st of None \<Rightarrow> [] | Some r \<Rightarrow> [r]) @
     (case pending_request st of None \<Rightarrow> [] | Some r \<Rightarrow> [r]) @ concat (map request_of (requests_queue st))"

text \<open>The three ways an iteration starts: nothing to do, told to quit, a request.\<close>

lemma next_request_cases:
  assumes "in_hand st = None"
  obtains (idle) "next_request st = None"
  | (quit) st1 where "next_request st = Some (None, st1)" and "in_hand st1 = None"
      and "started st1 = started st" and "outstanding st = outstanding st1"
  | (request) r st1 where "next_request st = Some (Some r, st1)" and "in_hand st1 = None"
      and "pending_request st1 = None" and "started st1 = started st"
      and "outstanding st = r # outstanding st1"
proof (cases "pending_request st")
  case (Some r)
  then show ?thesis using assms
    by (intro request [of r "st\<lparr>pending_request := None\<rparr>"])
      (simp_all add: next_request_def outstanding_def)
next
  case pending: None
  show ?thesis
  proof (cases "requests_queue st")
    case Nil
    then show ?thesis using pending assms
      by (cases "senders_gone st")
        (auto simp: next_request_def outstanding_def intro: idle quit [of st])
  next
    case (Cons m q)
    then show ?thesis using pending assms
      by (cases m)
        (auto simp: next_request_def outstanding_def intro: quit [of "st\<lparr>requests_queue := q\<rparr>"]
          request [of _ "st\<lparr>requests_queue := q\<rparr>"])
  qed
qed

lemma start_serving_conserves:
  assumes "in_hand st = None"
  shows "map fst (started (start_serving codec opens st)) @ outstanding (start_serving codec opens st) =
    map fst (started st) @ outstanding st"
  using assms
proof (induction opens arbitrary: st)
  case Nil
  from Nil show ?case
    by (cases rule: next_request_cases) (simp_all add: start_serving.simps outstanding_def)
next
  case (Cons ev opens)
  from Cons.prems show ?case
  proof (cases rule: next_request_cases)
    case (request r st1)
    show ?thesis
    proof (cases ev)
      case OpenFailed
      then show ?thesis using request by (simp add: start_serving.simps outstanding_def)
    next
      case (Opened k)
      obtain w k' where w: "write_tunnel_target k (req_target r) False = (w, k')" by fastforce
      have "start_serving codec (ev # opens) st =
          (case w of
             Inl _ \<Rightarrow> start_serving codec opens (st1\<lparr>pending_request := Some r\<rparr>)
           | Inr _ \<Rightarrow> start_serving codec opens (st1\<lparr>started := started st1 @ [(r, k', codec)]\<rparr>))"
        using request(1) Opened w by (subst start_serving.simps) (simp split: sum.split)
      then show ?thesis
        using request Cons.IH [of "st1\<lparr>pending_request := Some r\<rparr>"]
          Cons.IH [of "st1\<lparr>started := started st1 @ [(r, k', codec)]\<rparr>"]
        by (simp add: outstanding_def split: sum.split)
    qed
  qed (simp_all add: start_serving.simps outstanding_def)
qed

section \<open>Properties\<close>

text \<open>
  C16. The serving loop, as long as it is not dropped, loses no request and keeps their
  order, whatever the results of
  opening streams and writing destinations: the requests handed to the relay, followed by
  the one the loop holds, keeps for the next connection or has not taken yet, are those
  there were before.
\<close>

theorem serving_conserves_requests:
  assumes "in_hand st = None"
  shows "map fst (started (start_serving codec opens st)) @ outstanding (start_serving codec opens st) =
    map fst (started st) @ outstanding st"
  by (rule start_serving_conserves [OF assms])

definition example_serve :: "tunnel_target option \<Rightarrow> (nat, unit) serve_state" where
  "example_serve t = \<lparr>pending_request = None,
     requests_queue = [Request \<lparr>req_stream = 1, req_target = t\<rparr>,
       Request \<lparr>req_stream = 2, req_target = None\<rparr>, Quit],
     senders_gone = False, in_hand = None, started = [], serve_status = Serving\<rparr>"

theorem serving_conserves_requests_witness:
  "map fst (started (start_serving () [Opened open_sink, OpenFailed] (example_serve None))) @
     outstanding (start_serving () [Opened open_sink, OpenFailed] (example_serve None)) =
   [\<lparr>req_stream = 1, req_target = None\<rparr>, \<lparr>req_stream = 2, req_target = None\<rparr>]"
  using serving_conserves_requests [of "example_serve None" "()" "[Opened open_sink, OpenFailed]"]
  by (simp add: example_serve_def outstanding_def)

text \<open>
  A loop that is dropped while it waits for a stream loses the request it has in hand, and
  only that one.
\<close>

lemma cancelled_request_lost:
  assumes "in_hand st = None" "in_hand (start_serving codec opens st) = Some r"
  shows "map fst (started (start_serving codec opens st)) @ r #
      outstanding (cancel_serving (start_serving codec opens st)) =
    map fst (started st) @ outstanding st"
  using start_serving_conserves [OF assms(1), of codec opens] assms(2)
  by (simp add: outstanding_def cancel_serving_def)

text \<open>
  C40. A request whose destination cannot be encoded blocks the tunnel: the loop takes it
  up again and again, opening a stream each time, without ever ending or reaching the
  requests behind it, however many streams it is given.
\<close>

theorem serving_stuck_on_bad_target:
  assumes "pending_request st = Some r" and "in_hand st = None"
    and "encode_tunnel_target (req_target r) False = Inl e"
    and "OpenFailed \<notin> set opens"
  shows "started (start_serving codec opens st) = started st \<and>
    serve_status (start_serving codec opens st) = serve_status st \<and>
    requests_queue (start_serving codec opens st) = requests_queue st \<and>
    r \<in> set (outstanding (start_serving codec opens st))"
  using assms
proof (induction opens)
  case Nil
  then show ?case by (simp add: start_serving.simps next_request_def outstanding_def)
next
  case (Cons ev opens)
  then obtain k where "ev = Opened k" by (cases ev) auto
  moreover have "write_tunnel_target k (req_target r) False = (Inl (Some e), k)"
    using Cons.prems by (simp add: write_tunnel_target_def)
  ultimately have "start_serving codec (ev # opens) st = start_serving codec opens (st\<lparr>pending_request := Some r\<rparr>)"
    using Cons.prems by (subst start_serving.simps) (simp add: next_request_def)
  moreover have "st\<lparr>pending_request := Some r\<rparr> = st" using Cons.prems by (cases st) simp
  ultimately have "start_serving codec (ev # opens) st = start_serving codec opens st" by (simp only:)
  then show ?case using Cons by simp
qed

theorem serving_stuck_on_bad_target_witness:
  "started (start_serving () [Opened open_sink, Opened open_sink, Opened open_sink]
     ((example_serve None)\<lparr>pending_request := Some \<lparr>req_stream = 0, req_target = Some (Domain [] 80)\<rparr>\<rparr>)) =
   started ((example_serve None)\<lparr>pending_request := Some \<lparr>req_stream = 0, req_target = Some (Domain [] 80)\<rparr>\<rparr>)"
  by (rule conjunct1 [OF serving_stuck_on_bad_target
        [where r = "\<lparr>req_stream = 0, req_target = Some (Domain [] 80)\<rparr>" and e = "InvalidDomainLength 0"]])
    (simp_all add: example_serve_def encode_tunnel_target_def)

text \<open>
  Both ends agree on the destination. With a destination in the request and no fixed
  upstream at the server, the server connects to that destination (or asks its connector
  for it), and relays from exactly where the destination ended. With a fixed upstream and no
  connector it connects there and reads nothing; a request without destination writes nothing.
\<close>

lemma destination_agreed:
  assumes "sendable t"
  shows "(\<exists>buf. write_tunnel_target open_sink (Some t) False = (Inr (), open_sink\<lparr>written := buf\<rparr>) \<and>
      accept_stream None connect None timeout codec \<lparr>avail = buf @ data, tail_of = ending\<rparr> =
        (case connect (wire_target t) of
           Some u \<Rightarrow> Flowing u \<lparr>avail = data, tail_of = ending\<rparr> codec | None \<Rightarrow> Abandoned) \<and>
      accept_stream (Some f) connect up timeout codec \<lparr>avail = buf @ data, tail_of = ending\<rparr> =
        (case f \<lparr>requested_dst = Some (wire_target t), default_upstream = up, ctx_timeout_ms = timeout\<rparr> of
           Some u \<Rightarrow> Flowing u \<lparr>avail = data, tail_of = ending\<rparr> codec | None \<Rightarrow> Abandoned)) \<and>
    write_tunnel_target open_sink None False = (Inr (), open_sink) \<and>
    accept_stream None connect (Some a) timeout codec s =
      (case connect (Addr a) of Some u \<Rightarrow> Flowing u s codec | None \<Rightarrow> Abandoned)"
proof (intro conjI exI [of _ "target_frame (Some t)"])
  have enc: "encode_tunnel_target (Some t) False = Inr (Some (target_frame (Some t)))"
    using assms encode_is_frame [of "Some t"] encode_mark_none [of t False] by simp
  then show "write_tunnel_target open_sink (Some t) False =
      (Inr (), open_sink\<lparr>written := target_frame (Some t)\<rparr>)"
    by (simp add: write_tunnel_target_def open_sink_def)
qed (simp_all add: write_tunnel_target_def encode_tunnel_target_def accept_stream_def
    read_target_frame [OF assms])

lemma destination_agreed_witness:
  "\<exists>buf. write_tunnel_target open_sink (Some (Addr (V4 1 80))) False =
     (Inr (), open_sink\<lparr>written := buf\<rparr>) \<and>
   accept_stream None Some None 5000 () \<lparr>avail = buf @ [9], tail_of = Stalled\<rparr> =
     Flowing (Addr (V4 1 80)) \<lparr>avail = [9], tail_of = Stalled\<rparr> ()"
  using destination_agreed [of "Addr (V4 1 80)" Some 5000 "()" "[9]" Stalled] by force

text \<open>
  A channel-based tunnel without a connector ignores the server's default upstream and codec,
  and a request without destination, for which the client writes nothing, makes the server
  take the first payload bytes for one: payload that begins with the encoding of an
  address is sent to that address.
\<close>

lemma dynamic_tunnel_ignores_default:
  "start_dynamic_accepting None connect dflt timeout codec evs =
     start_dynamic_accepting None connect None timeout codec_config_default evs \<and>
   (sendable t \<longrightarrow>
      start_dynamic_accepting None connect dflt timeout codec
        [Accepted \<lparr>avail = written (snd (write_tunnel_target open_sink None False)) @
           target_frame (Some t) @ rest, tail_of = ending\<rparr>] =
      [case connect (wire_target t) of
         Some u \<Rightarrow> Flowing u \<lparr>avail = rest, tail_of = ending\<rparr> codec_config_default | None \<Rightarrow> Abandoned])"
  by (simp add: start_dynamic_accepting_def start_accepting_def accept_stream_def
      write_tunnel_target_def encode_tunnel_target_def open_sink_def read_target_frame)

end
