(* ===== verification/Tcp_Session.thy ===== *)
theory Tcp_Session
  imports Session Tcp_Tunnel Codec_Stream
begin

text \<open>
  A TCP stream from the local connection at the client to the upstream connection at the
  server: the serving loop, the accepted stream and the two relays, composed over one QUIC
  stream.
\<close>

section \<open>One stream through both ends\<close>

text \<open>
  What the relay of a stream is started with besides the stream itself: the libraries, the
  random identifier, and what happens to the tasks of a compressed stream.
\<close>

record ('e, 'd, 'ed, 'dd, 'c) codec_env =
  ce_zstd :: "('e, 'd, 'ed, 'dd) zstd_lib"
  ce_cache :: "'c moka"
  ce_http :: http_parser
  ce_random_id :: u128
  ce_enc_events :: "enc_event list"
  ce_dec_events :: "read_event list"
  ce_s2q_first :: bool

definition relay_with ::
    "('e, 'd, 'ed, 'dd, 'c) codec_env \<Rightarrow> ('e, 'd, 'ed, 'dd, 'c) codec_config \<Rightarrow> socket_addr \<Rightarrow>
     sink \<Rightarrow> instream \<Rightarrow> sink \<Rightarrow> codec_flow" where
  "relay_with env codec peer quic_send quic_recv stream_write =
     fst (start_flowing_with_codec (ce_zstd env) (ce_cache env) (ce_http env) (ce_random_id env)
       (Some peer) quic_send quic_recv stream_write (ce_enc_events env) (ce_dec_events env)
       (ce_s2q_first env) codec)"

text \<open>
  What a relay puts on its QUIC stream and on its local or upstream connection, on the reads
  of each direction. \<open>other\<close>: the task of the other direction has signalled its end.
\<close>

fun to_quic :: "codec_flow \<Rightarrow> bool \<Rightarrow> read_event list \<Rightarrow> sink option" where
  "to_quic (Delegated (Some f)) other evs =
     Some (quic_half (woken other (relay_run stream_to_quic evs (s2q f))))"
| "to_quic (Flowed run) other evs = Some (cr_quic_send run)"
| "to_quic _ other evs = None"

fun to_stream :: "codec_flow \<Rightarrow> read_event list \<Rightarrow> sink option" where
  "to_stream (Delegated (Some f)) evs = Some (out (relay_run quic_to_stream evs (q2s f)))"
| "to_stream (Flowed run) evs = Some (cr_stream_write run)"
| "to_stream _ evs = None"

text \<open>A QUIC stream that is read in the given pieces and then ends or stays silent.\<close>

definition read_in :: "bytes list \<Rightarrow> instream \<Rightarrow> read_event list" where
  "read_in chunks s = map Data chunks @ (if tail_of s = Closed then [Eof] else [])"

text \<open>
  The accept loop the server runs for an outbound TCP tunnel, on the streams it is given.
\<close>

fun run_service ::
    "(connect_ctx \<Rightarrow> 'u option) option \<Rightarrow> (tunnel_target \<Rightarrow> 'u option) \<Rightarrow>
     ('s, ('e, 'd, 'ed, 'dd, 'c) codec_config) service \<Rightarrow> accept_event list \<Rightarrow>
     ('u, ('e, 'd, 'ed, 'dd, 'c) codec_config) accept_outcome list" where
  "run_service connector connect (AcceptTcp c up ms codec) evs = start_accepting connect up ms codec evs"
| "run_service connector connect (DynamicTcp c up ms codec) evs =
     start_dynamic_accepting connector connect up ms codec evs"
| "run_service connector connect _ evs = []"

text \<open>
  Where the accepting end of a tunnel connects: to its fixed upstream, when the requests
  carry no destination, or else to the destination of the request.
\<close>

definition routed ::
    "(tunnel_target \<Rightarrow> 'u option) \<Rightarrow> socket_addr option \<Rightarrow> tunnel_target option \<Rightarrow> 'u \<Rightarrow> bool" where
  "routed connect fixed target u =
     (case target of
        Some t \<Rightarrow> sendable t \<and> fixed = None \<and> connect (wire_target t) = Some u
      | None \<Rightarrow> (case fixed of Some a \<Rightarrow> connect (Addr a) = Some u | None \<Rightarrow> False))"

definition target_bytes :: "tunnel_target option \<Rightarrow> bytes" where
  "target_bytes target = (case target of None \<Rightarrow> [] | Some t \<Rightarrow> target_frame (Some t))"

lemma write_target_open:
  assumes "routed connect fixed target u"
  shows "write_tunnel_target open_sink target False = (Inr (), open_sink\<lparr>written := target_bytes target\<rparr>)"
proof (cases target)
  case None
  then show ?thesis
    by (simp add: write_tunnel_target_def encode_tunnel_target_def target_bytes_def open_sink_def)
next
  case (Some t)
  then have "encode_tunnel_target (Some t) False = Inr (Some (target_frame (Some t)))"
    using assms encode_is_frame [of "Some t"] encode_mark_none [of t False] by (simp add: routed_def)
  then show ?thesis using Some by (simp add: write_tunnel_target_def target_bytes_def open_sink_def)
qed

lemma accept_routed:
  assumes "routed connect fixed target u"
  shows "accept_stream None connect fixed timeout codec \<lparr>avail = target_bytes target @ data, tail_of = e\<rparr> =
    Flowing u \<lparr>avail = data, tail_of = e\<rparr> codec"
  using assms read_target_frame
  by (cases target; cases fixed) (auto simp: routed_def accept_stream_def target_bytes_def)

lemma relayed_Data: "[] \<notin> set chunks \<Longrightarrow> relayed (map Data chunks @ evs) = concat chunks @ relayed evs"
  by (induction chunks) (auto simp: neq_Nil_conv)

lemma relay_stop_Data: "[] \<notin> set chunks \<Longrightarrow> relay_stop (map Data chunks @ evs) = relay_stop evs"
  by (induction chunks) (auto simp: neq_Nil_conv)

lemma plain_to_stream:
  assumes "\<not> cc_enabled codec" "concat chunks = avail s" "[] \<notin> set chunks"
  shows "\<exists>v. to_stream (relay_with env codec a k r open_sink) (read_in chunks s) = Some v \<and>
    written v = avail s \<and> finished v = (tail_of s = Closed)"
  using q2s_copy.run_reliable [of "new_relay open_sink" "read_in chunks s"] assms
  by (simp add: relay_with_def start_flowing_with_codec_def start_flowing_def read_in_def new_relay_def
      relayed_Data relay_stop_Data)

lemma plain_to_quic:
  assumes "\<not> cc_enabled codec" "budget k = None" "\<not> finished k"
  shows "\<exists>q. to_quic (relay_with env codec a k r w) other evs = Some q \<and>
    written q = written k @ relayed evs \<and> finished q = ends other evs"
  using quic_half_run [OF assms(2,3)] assms(1)
  by (simp add: relay_with_def start_flowing_with_codec_def start_flowing_def)

lemma start_serving_one:
  assumes "routed connect fixed (req_target r) u"
    and "pending_request st = None" and "requests_queue st = [Request r]"
  shows "started (start_serving codec [Opened open_sink] st) =
    started st @ [(r, open_sink\<lparr>written := target_bytes (req_target r)\<rparr>, codec)]"
  using assms write_target_open [OF assms(1)]
  by (simp add: start_serving.simps [of _ "[Opened open_sink]"] start_serving.simps [of _ "[]"] next_request_def)

text \<open>The first thing an exchange of pair identifiers puts on the stream is its own identifier.\<close>

lemma exchange_writes_id:
  assumes "checkout Z M rid lru = (Some (i, p), lru1)" and "budget k = None"
    and "exchange_pair_id Z M rid k s lru = (r, k', s', lru')"
  shows "\<exists>ys. written k' = written k @ to_be_bytes i @ ys"
  using assms
  by (auto simp: exchange_pair_id_def join_send_recv_def
      split: prod.splits sum.splits option.splits bool.splits if_splits)

section \<open>Properties\<close>

text \<open>
  C10. A TCP connection through the tunnel, without compression at either end. For a request
  the server routes to an upstream (its fixed one, or the destination the request carries),
  over a working QUIC stream: the serving loop starts exactly this request; the server
  connects to that upstream; and however QUIC cuts the bytes into pieces, the upstream
  receives what the local connection sent, without the destination, and the server's relay
  shuts the upstream down exactly when the client's relay ended and dropped its side of the
  stream: at the end of the local connection, at an error in reading it, which the upstream
  cannot tell from an end, or after a timeout once the other direction is idle or over as
  well. The same holds for the bytes coming back.
\<close>

theorem tcp_stream_end_to_end:
  assumes "routed connect fixed (req_target r) u"
    and "pending_request st = None" and "requests_queue st = [Request r]"
    and "\<not> cc_enabled c" and "\<not> cc_enabled d"
  shows "\<exists>k q rest. started (start_serving c [Opened open_sink] st) = started st @ [(r, k, c)] \<and>
    to_quic (relay_with env c a k recv open_sink) other evs = Some q \<and>
    accept_stream None connect fixed timeout d (peer_of q) = Flowing u rest d \<and>
    (\<forall>chunks. concat chunks = avail rest \<longrightarrow> [] \<notin> set chunks \<longrightarrow>
      (\<exists>v. to_stream (relay_with env' d b open_sink rest open_sink) (read_in chunks rest) = Some v \<and>
         written v = relayed evs \<and> finished v = ends other evs)) \<and>
    (\<forall>other' evs'. \<exists>q'.
      to_quic (relay_with env' d b open_sink rest open_sink) other' evs' = Some q' \<and>
      (\<forall>chunks. concat chunks = avail (peer_of q') \<longrightarrow> [] \<notin> set chunks \<longrightarrow>
        (\<exists>v. to_stream (relay_with env c a k recv open_sink) (read_in chunks (peer_of q')) = Some v \<and>
           written v = relayed evs' \<and> finished v = ends other' evs')))"
proof -
  let ?k = "open_sink\<lparr>written := target_bytes (req_target r)\<rparr>"
  let ?rest = "\<lparr>avail = relayed evs, tail_of = (if ends other evs then Closed else Stalled)\<rparr>"
  from plain_to_quic [OF assms(4), of ?k env a recv open_sink other evs] obtain q where
    q: "to_quic (relay_with env c a ?k recv open_sink) other evs = Some q"
    "written q = target_bytes (req_target r) @ relayed evs" "finished q = ends other evs" by auto
  have flow: "accept_stream None connect fixed timeout d (peer_of q) = Flowing u ?rest d"
    using accept_routed [OF assms(1), of timeout d "relayed evs" "tail_of ?rest"] q(2,3) by (simp add: peer_of_def)
  have onward: "\<exists>v. to_stream (relay_with env' d b open_sink ?rest open_sink) (read_in chunks ?rest) = Some v \<and>
      written v = relayed evs \<and> finished v = ends other evs"
    if "concat chunks = avail ?rest" "[] \<notin> set chunks" for chunks
    using plain_to_stream [OF assms(5) that, of env' b open_sink ?rest] by auto
  have returning: "\<exists>q'. to_quic (relay_with env' d b open_sink ?rest open_sink) other' evs' = Some q' \<and>
      (\<forall>chunks. concat chunks = avail (peer_of q') \<longrightarrow> [] \<notin> set chunks \<longrightarrow>
        (\<exists>v. to_stream (relay_with env c a ?k recv open_sink) (read_in chunks (peer_of q')) = Some v \<and>
           written v = relayed evs' \<and> finished v = ends other' evs'))" for other' evs'
  proof -
    from plain_to_quic [OF assms(5), of open_sink env' b ?rest open_sink other' evs'] obtain q' where
      q': "to_quic (relay_with env' d b open_sink ?rest open_sink) other' evs' = Some q'"
      "written q' = relayed evs'" "finished q' = ends other' evs'" by auto
    with plain_to_stream [OF assms(4), of _ "peer_of q'" env a ?k recv] show ?thesis
      by (intro exI [of _ q']) (auto simp: peer_of_def)
  qed
  show ?thesis
    by (rule exI [of _ ?k], rule exI [of _ q], rule exI [of _ ?rest])
      (use start_serving_one [OF assms(1-3)] q(1) flow onward returning in blast)
qed

definition one_request :: "(nat, 'k) serve_state" where
  "one_request = \<lparr>pending_request = None,
     requests_queue = [Request \<lparr>req_stream = 1, req_target = Some (Addr (V4 1 80))\<rparr>],
     senders_gone = False, in_hand = None, started = [], serve_status = Serving\<rparr>"

definition plain_env :: "(bytes \<times> bytes, bytes \<times> bytes, unit, unit, (u128 \<times> nat) list) codec_env" where
  "plain_env = \<lparr>ce_zstd = storing_zstd, ce_cache = list_moka, ce_http = wrap_parser, ce_random_id = 8,
     ce_enc_events = [], ce_dec_events = [], ce_s2q_first = True\<rparr>"

lemma one_request_state:
  "pending_request one_request = None" "started one_request = []"
  "requests_queue one_request = [Request \<lparr>req_stream = 1, req_target = Some (Addr (V4 1 80))\<rparr>]"
  by (simp_all add: one_request_def)

lemma one_request_routed:
  "routed Some None (req_target \<lparr>req_stream = 1 :: nat, req_target = Some (Addr (V4 1 80))\<rparr>) (Addr (V4 1 80))"
  by (simp add: routed_def)

lemma default_disabled [simp]: "\<not> cc_enabled codec_config_default"
  by (simp add: codec_config_default_def)

abbreviation plain_codec ::
    "(bytes \<times> bytes, bytes \<times> bytes, unit, unit, (u128 \<times> nat) list) codec_config" where
  "plain_codec \<equiv> codec_config_default"

theorem tcp_stream_end_to_end_witness:
  "\<exists>k q rest v. started (start_serving plain_codec [Opened open_sink] one_request) =
      [(\<lparr>req_stream = 1, req_target = Some (Addr (V4 1 80))\<rparr>, k, plain_codec)] \<and>
    to_quic (relay_with plain_env plain_codec (V4 0 1) k \<lparr>avail = [], tail_of = Stalled\<rparr> open_sink)
      False [Data [9], ReadErr] = Some q \<and>
    accept_stream None Some None 5000 plain_codec (peer_of q) =
      Flowing (Addr (V4 1 80)) rest plain_codec \<and>
    to_stream (relay_with plain_env plain_codec (V4 0 2) open_sink rest open_sink)
      (read_in [avail rest] rest) = Some v \<and> written v = [9] \<and> finished v"
proof -
  from tcp_stream_end_to_end [OF one_request_routed one_request_state(1,3) default_disabled default_disabled,
      where env = plain_env and a = "V4 0 1" and recv = "\<lparr>avail = [], tail_of = Stalled\<rparr>" and other = False
      and evs = "[Data [9], ReadErr]" and timeout = 5000 and env' = plain_env and b = "V4 0 2",
      unfolded one_request_state(2) append_Nil]
  obtain k q rest where run: "started (start_serving plain_codec [Opened open_sink] one_request) =
      [(\<lparr>req_stream = 1, req_target = Some (Addr (V4 1 80))\<rparr>, k, plain_codec)]"
    "to_quic (relay_with plain_env plain_codec (V4 0 1) k \<lparr>avail = [], tail_of = Stalled\<rparr> open_sink)
      False [Data [9], ReadErr] = Some q"
    "accept_stream None Some None 5000 plain_codec (peer_of q) = Flowing (Addr (V4 1 80)) rest plain_codec"
    and onward: "\<forall>chunks. concat chunks = avail rest \<longrightarrow> [] \<notin> set chunks \<longrightarrow>
      (\<exists>v. to_stream (relay_with plain_env plain_codec (V4 0 2) open_sink rest open_sink) (read_in chunks rest) = Some v \<and>
         written v = relayed [Data [9], ReadErr] \<and> finished v = ends False [Data [9], ReadErr])"
    by blast
  have "written q = target_bytes (Some (Addr (V4 1 80))) @ [9]"
  proof -
    have "k = open_sink\<lparr>written := target_bytes (Some (Addr (V4 1 80)))\<rparr>"
      using run(1) start_serving_one [OF one_request_routed one_request_state(1,3), of plain_codec]
      by (simp add: one_request_state(2))
    with plain_to_quic [of plain_codec k plain_env "V4 0 1" "\<lparr>avail = [], tail_of = Stalled\<rparr>" open_sink False
        "[Data [9], ReadErr]"] run(2) show ?thesis by auto
  qed
  with run(3) accept_routed [OF one_request_routed, of 5000 plain_codec "[9]" "tail_of (peer_of q)"]
  have "avail rest = [9]" by (simp add: peer_of_def)
  then have "concat [avail rest] = avail rest" "[] \<notin> set [avail rest]" by simp_all
  with onward obtain v where
    "to_stream (relay_with plain_env plain_codec (V4 0 2) open_sink rest open_sink) (read_in [avail rest] rest) = Some v"
    "written v = relayed [Data [9], ReadErr]" "finished v = ends False [Data [9], ReadErr]" by blast
  moreover have "relayed [Data [9], ReadErr] = [9]" "ends False [Data [9], ReadErr]" by (simp_all add: ends_def)
  ultimately have "to_stream (relay_with plain_env plain_codec (V4 0 2) open_sink rest open_sink)
      (read_in [avail rest] rest) = Some v \<and> written v = [9] \<and> finished v" by simp
  with run show ?thesis by blast
qed

text \<open>
  The tunnels of a server whose streams are routed: an outbound one with its upstream, or one
  whose upstream is chosen per stream.
\<close>

definition serves_routed :: "'s tunnel_type \<Rightarrow> socket_addr option \<Rightarrow> bool" where
  "serves_routed tt fixed \<longleftrightarrow>
     (\<exists>n. (\<exists>a. tt = TcpOut n a \<and> fixed = Some a) \<or> tt = DynamicUpstreamTcpOut n \<and> fixed = None)"

lemma run_service_routed:
  assumes "serves_routed tt fixed" and "routed connect fixed target u"
  shows "run_service None connect (start_service sc timeouts tt)
      [Accepted \<lparr>avail = target_bytes target @ data, tail_of = e\<rparr>] =
    [Flowing u \<lparr>avail = data, tail_of = e\<rparr> codec_config_default]"
  using assms(1) accept_routed [OF assms(2)]
  by (auto simp: serves_routed_def start_accepting_def start_dynamic_accepting_def)

text \<open>
  C34. Compression needs both ends, and the server never does its part. A client that
  compresses starts every stream with the exchange of pair identifiers; the service a server
  starts for an outbound TCP tunnel, with its own upstream or with one per stream and no
  connector, runs with the default codec configuration, which is off, so it relays plainly:
  the first sixteen bytes the upstream receives are the identifier of the pair the client
  checked out for the stream, which no application sent, whatever the upstream answers and
  whatever follows on the stream.
\<close>

theorem compressing_client_plain_server:
  fixes env :: "('e, 'd, 'ed, 'dd, 'c) codec_env"
  assumes "routed connect fixed (req_target r) u" and "serves_routed tt fixed"
    and "pending_request st = None" and "requests_queue st = [Request r]"
    and "cc_enabled cfg" and "checkout Z M rid (fst (config_lru M cfg)) = (Some (i, p), lru1)"
  shows "\<exists>k. started (start_serving cfg [Opened open_sink] st) = started st @ [(r, k, cfg)] \<and>
    (\<forall>quic_recv more ending. \<exists>rest codec.
       run_service None connect (start_service sc timeouts tt)
         [Accepted \<lparr>avail = written (fst (snd (exchange_pair_id Z M rid k quic_recv (fst (config_lru M cfg))))) @ more,
            tail_of = ending\<rparr>] = [Flowing u rest codec] \<and>
       (\<forall>chunks. concat chunks = avail rest \<longrightarrow> [] \<notin> set chunks \<longrightarrow>
          (\<exists>v. to_stream (relay_with env codec b open_sink rest open_sink) (read_in chunks rest) = Some v \<and>
             take 16 (written v) = to_be_bytes i)))"
proof -
  let ?k = "open_sink\<lparr>written := target_bytes (req_target r)\<rparr>"
  let ?lru = "fst (config_lru M cfg)"
  let ?s = "\<lambda>quic_recv more ending. \<lparr>avail = written (fst (snd (exchange_pair_id Z M rid ?k quic_recv ?lru))) @ more,
    tail_of = ending\<rparr>"
  have "\<exists>rest codec. run_service None connect (start_service sc timeouts tt) [Accepted (?s quic_recv more ending)] =
         [Flowing u rest codec] \<and>
       (\<forall>chunks. concat chunks = avail rest \<longrightarrow> [] \<notin> set chunks \<longrightarrow>
          (\<exists>v. to_stream (relay_with env codec b open_sink rest open_sink) (read_in chunks rest) = Some v \<and>
             take 16 (written v) = to_be_bytes i))" for quic_recv more ending
  proof -
    obtain res k' s' lru' where ex: "exchange_pair_id Z M rid ?k quic_recv ?lru = (res, k', s', lru')"
      by (rule prod_cases4)
    from exchange_writes_id [OF assms(6) _ ex] obtain ys where
      "written k' = target_bytes (req_target r) @ to_be_bytes i @ ys" by auto
    then have "?s quic_recv more ending = \<lparr>avail = target_bytes (req_target r) @ to_be_bytes i @ ys @ more, tail_of = ending\<rparr>"
      using ex by simp
    then have "run_service None connect (start_service sc timeouts tt) [Accepted (?s quic_recv more ending)] =
        [Flowing u \<lparr>avail = to_be_bytes i @ ys @ more, tail_of = ending\<rparr> codec_config_default]"
      using run_service_routed [OF assms(2,1)] by simp
    moreover have "\<exists>v. to_stream (relay_with env codec_config_default b open_sink x open_sink) (read_in chunks x) = Some v \<and>
        take 16 (written v) = to_be_bytes i"
      if "x = \<lparr>avail = to_be_bytes i @ ys @ more, tail_of = ending\<rparr>" "concat chunks = avail x" "[] \<notin> set chunks" for x chunks
      using plain_to_stream [OF default_disabled that(2,3), of env b open_sink x] that(1) by auto
    ultimately show ?thesis by blast
  qed
  then show ?thesis
    by (intro exI [of _ ?k]) (use start_serving_one [OF assms(1,3,4)] in blast)
qed

theorem compressing_client_plain_server_witness:
  "\<exists>i p lru1 k rest codec v.
    checkout storing_zstd list_moka 8 rest_lru = (Some (i, p), lru1) \<and>
    run_service None Some (start_service example_server \<lparr>to_tcp_ms = 1, to_udp_ms = 1\<rparr>
        (DynamicUpstreamTcpOut 7 :: nat tunnel_type))
      [Accepted \<lparr>avail = written (fst (snd (exchange_pair_id storing_zstd list_moka 8 k
         \<lparr>avail = [], tail_of = Stalled\<rparr> rest_lru))) @ [], tail_of = Stalled\<rparr>] =
      [Flowing (Addr (V4 1 80)) rest codec] \<and>
    to_stream (relay_with plain_env codec (V4 0 2) open_sink rest open_sink) (read_in (map (\<lambda>x. [x]) (avail rest)) rest) =
      Some v \<and> take 16 (written v) = to_be_bytes i"
proof -
  let ?cfg = "(codec_config_new True False 9 24 600 150)\<lparr>cc_lru := Some rest_lru\<rparr> ::
    (bytes \<times> bytes, bytes \<times> bytes, unit, unit, (u128 \<times> nat) list) codec_config"
  have cfg: "cc_enabled ?cfg" "fst (config_lru list_moka ?cfg) = rest_lru"
    by (simp_all add: codec_config_new_def config_lru_def)
  have "makes_pairs storing_zstd (fst (config_lru list_moka ?cfg))"
    using rest_lru_made by (simp add: config_lru_def makes_pairs_def)
  from checkout_total [OF this] obtain i p lru1 where
    c: "checkout storing_zstd list_moka 8 (fst (config_lru list_moka ?cfg)) = (Some (i, p), lru1)" by blast
  have tt: "serves_routed (DynamicUpstreamTcpOut 7 :: nat tunnel_type) None" by (simp add: serves_routed_def)
  from compressing_client_plain_server [OF one_request_routed tt one_request_state(1,3) cfg(1) c,
      where env = plain_env and b = "V4 0 2" and sc = example_server and timeouts = "\<lparr>to_tcp_ms = 1, to_udp_ms = 1\<rparr>"]
  obtain k where k: "\<forall>quic_recv more ending. \<exists>rest codec.
       run_service None Some (start_service example_server \<lparr>to_tcp_ms = 1, to_udp_ms = 1\<rparr>
          (DynamicUpstreamTcpOut 7 :: nat tunnel_type))
         [Accepted \<lparr>avail = written (fst (snd (exchange_pair_id storing_zstd list_moka 8 k quic_recv rest_lru))) @ more,
            tail_of = ending\<rparr>] = [Flowing (Addr (V4 1 80)) rest codec] \<and>
       (\<forall>chunks. concat chunks = avail rest \<longrightarrow> [] \<notin> set chunks \<longrightarrow>
          (\<exists>v. to_stream (relay_with plain_env codec (V4 0 2) open_sink rest open_sink) (read_in chunks rest) = Some v \<and>
             take 16 (written v) = to_be_bytes i))"
    unfolding cfg(2) by blast
  let ?q = "\<lparr>avail = [], tail_of = Stalled\<rparr>"
  from k [THEN spec, of ?q, THEN spec, of "[]", THEN spec, of Stalled] obtain rest codec where
    f: "run_service None Some (start_service example_server \<lparr>to_tcp_ms = 1, to_udp_ms = 1\<rparr>
          (DynamicUpstreamTcpOut 7 :: nat tunnel_type))
         [Accepted \<lparr>avail = written (fst (snd (exchange_pair_id storing_zstd list_moka 8 k ?q rest_lru))) @ [],
            tail_of = Stalled\<rparr>] = [Flowing (Addr (V4 1 80)) rest codec]"
    and r: "\<forall>chunks. concat chunks = avail rest \<longrightarrow> [] \<notin> set chunks \<longrightarrow>
          (\<exists>v. to_stream (relay_with plain_env codec (V4 0 2) open_sink rest open_sink) (read_in chunks rest) = Some v \<and>
             take 16 (written v) = to_be_bytes i)" by (elim exE conjE)
  have "concat (map (\<lambda>x. [x]) (avail rest)) = avail rest" "[] \<notin> set (map (\<lambda>x. [x]) (avail rest))" by auto
  with r obtain v where "to_stream (relay_with plain_env codec (V4 0 2) open_sink rest open_sink)
      (read_in (map (\<lambda>x. [x]) (avail rest)) rest) = Some v" "take 16 (written v) = to_be_bytes i" by blast
  with f c [unfolded cfg(2)] show ?thesis by blast
qed

end
