(* ===== verification/Udp_Tunnel.thy ===== *)
theory Udp_Tunnel
  imports Stream_Util Tunnel_Message Servers
begin

text \<open>
  \<^verbatim>\<open>src/src/udp/udp_tunnel.rs\<close>: the client side that keeps one QUIC stream per flow
  (\<open>open_stream\<close> with its writer and reader tasks), the server side that unpacks a
  stream into an upstream socket (\<open>process\<close>, \<open>udp_to_quic\<close>), and the bridge to a
  channel (\<open>process_channel_io\<close> with its synthetic local addresses). The concurrent maps
  are maps; sockets, name resolution and opening a stream are given by their results.
\<close>

section \<open>Flows of the serving side\<close>

record udp_stream_key =
  key_local_addr :: socket_addr
  key_peer_addr :: "tunnel_target option"

text \<open>
  A stream of a flow: its queue to the writer task, what the writer put on the QUIC stream,
  where the writer is (sending, past its loop, past the removal of its key, or over, when the
  queue's receiver and the send half are dropped) and whether the reader runs.
\<close>

datatype writer_phase = Sending | Leaving | KeyRemoved | WriterEnded

record udp_flow =
  flow_key :: udp_stream_key
  flow_queue :: "udp_packet list"
  flow_out :: sink
  writer_at :: writer_phase
  reader_alive :: bool

text \<open>The writer's task is not over, so its queue can still be sent to.\<close>

abbreviation writer_alive :: "udp_flow \<Rightarrow> bool" where
  "writer_alive f \<equiv> writer_at f \<noteq> WriterEnded"

record udp_serving =
  stream_map :: "udp_stream_key \<rightharpoonup> nat"
  flows :: "udp_flow list"

definition PACKET_QUEUE :: nat where
  "PACKET_QUEUE = 512"

text \<open>
  \<^verbatim>\<open>open_stream\<close>: the flow's stream if it has one, otherwise a new one (the argument
  is its send half, \<open>None\<close> when the connection cannot open one) that begins with the
  flow's target and enters the map after the target was written.
\<close>

definition open_stream ::
    "sink option \<Rightarrow> udp_stream_key \<Rightarrow> udp_serving \<Rightarrow> nat option \<times> udp_serving" where
  "open_stream bi key st =
     (case stream_map st key of
        Some i \<Rightarrow> (Some i, st)
      | None \<Rightarrow>
          (case bi of
             None \<Rightarrow> (None, st)
           | Some k \<Rightarrow>
               (case write_tunnel_target k (key_peer_addr key) True of
                  (Inl _, _) \<Rightarrow> (None, st)
                | (Inr _, k') \<Rightarrow>
                    (Some (length (flows st)),
                     st\<lparr>stream_map := (stream_map st)(key \<mapsto> length (flows st)),
                        flows := flows st @ [\<lparr>flow_key = key, flow_queue = [], flow_out = k',
                          writer_at = Sending, reader_alive = True\<rparr>]\<rparr>))))"

definition packet_key :: "udp_packet \<Rightarrow> udp_stream_key" where
  "packet_key p = \<lparr>key_local_addr = local_addr p, key_peer_addr = peer_addr p\<rparr>"

text \<open>
  One packet of the serving loop: it is queued on its flow's stream, and dropped when that
  has no room, has no writer any more, or could not be opened.
\<close>

definition serve_packet :: "sink option \<Rightarrow> udp_packet \<Rightarrow> udp_serving \<Rightarrow> udp_serving" where
  "serve_packet bi p st =
     (case open_stream bi (packet_key p) st of
        (None, st1) \<Rightarrow> st1
      | (Some i, st1) \<Rightarrow>
          (let f = flows st1 ! i in
           if writer_alive f \<and> length (flow_queue f) < PACKET_QUEUE
           then st1\<lparr>flows := (flows st1)[i := f\<lparr>flow_queue := flow_queue f @ [p]\<rparr>]\<rparr>
           else st1))"

text \<open>
  The writer of stream \<open>i\<close> sends its next packet; when sending fails, or when its queue
  is empty and the map no longer holds its sender, it leaves its loop. It then removes its
  key, and at last the task ends: the queue is closed with what is in it, and the dropped
  send half finishes the stream. The serving loop and other tasks may act in between.
\<close>

definition writer_send :: "nat \<Rightarrow> udp_serving \<Rightarrow> udp_serving" where
  "writer_send i st =
     (let f = flows st ! i in
      case flow_queue f of
        [] \<Rightarrow>
          if stream_map st (flow_key f) \<noteq> Some i
          then st\<lparr>flows := (flows st)[i := f\<lparr>writer_at := Leaving\<rparr>]\<rparr>
          else st
      | p # q \<Rightarrow>
          (case send_raw_to (flow_out f) (payload p) of
             (True, k) \<Rightarrow> st\<lparr>flows := (flows st)[i := f\<lparr>flow_queue := q, flow_out := k\<rparr>]\<rparr>
           | (False, k) \<Rightarrow>
               st\<lparr>flows := (flows st)[i := f\<lparr>flow_queue := q, flow_out := k, writer_at := Leaving\<rparr>]\<rparr>))"

definition writer_remove :: "nat \<Rightarrow> udp_serving \<Rightarrow> udp_serving" where
  "writer_remove i st =
     st\<lparr>stream_map := (stream_map st)(flow_key (flows st ! i) := None),
        flows := (flows st)[i := (flows st ! i)\<lparr>writer_at := KeyRemoved\<rparr>]\<rparr>"

definition writer_drop :: "nat \<Rightarrow> udp_serving \<Rightarrow> udp_serving" where
  "writer_drop i st =
     (let f = flows st ! i in
      st\<lparr>flows := (flows st)[i := f\<lparr>flow_queue := [], flow_out := (flow_out f)\<lparr>finished := True\<rparr>,
                                   writer_at := WriterEnded\<rparr>]\<rparr>)"

text \<open>The reader of stream \<open>i\<close> ends on a timeout or an error and removes its key.\<close>

definition reader_end :: "nat \<Rightarrow> udp_serving \<Rightarrow> udp_serving" where
  "reader_end i st =
     st\<lparr>stream_map := (stream_map st)(flow_key (flows st ! i) := None),
        flows := (flows st)[i := (flows st ! i)\<lparr>reader_alive := False\<rparr>]\<rparr>"

text \<open>
  The loop of the reader task: the datagrams it forwards to the local socket, with the
  addresses of its flow, until its stream ends, errs or is silent for the timeout.
\<close>

function read_datagrams :: "instream \<Rightarrow> bytes \<Rightarrow> bytes list \<times> instream" where
  "read_datagrams s buf =
     (case recv_raw_from s buf of
        Inl _ \<Rightarrow> ([], s)
      | Inr (n, buf', s') \<Rightarrow>
          (case read_datagrams s' buf of (ds, s'') \<Rightarrow> (take (unat n) buf' # ds, s'')))"
  by pat_completeness auto
termination
  by (relation "measure (\<lambda>(s, buf). length (avail s))") (auto dest!: recv_raw_shorter)

declare read_datagrams.simps [simp del]

section \<open>The accepting side\<close>

text \<open>
  \<^verbatim>\<open>resolve_udp_target\<close>, given the resolver's answer (\<open>None\<close>: it failed or timed
  out): the first IPv4 address, or the first of any family.
\<close>

datatype process_error =
    TargetRead transfer_error
  | NoUpstream
  | ResolveFailed
  | ResolveEmpty
  | SocketFailed
  | SendFailed

definition resolve_udp_target ::
    "(string \<Rightarrow> u16 \<Rightarrow> socket_addr list option) \<Rightarrow> tunnel_target \<Rightarrow> process_error + socket_addr" where
  "resolve_udp_target lookup_host target =
     (case target of
        Addr a \<Rightarrow> Inr a
      | Domain host port \<Rightarrow>
          (case lookup_host host port of
             None \<Rightarrow> Inl ResolveFailed
           | Some addrs \<Rightarrow>
               (case find is_ipv4 addrs of
                  Some a \<Rightarrow> Inr a
                | None \<Rightarrow> (case addrs of [] \<Rightarrow> Inl ResolveEmpty | a # _ \<Rightarrow> Inr a))))"

text \<open>
  The forwarding loop of \<^verbatim>\<open>process\<close>: every datagram of the stream goes to the connected
  socket; \<open>ok i\<close> is whether the \<open>i\<close>-th send succeeds. One buffer serves all of them.
\<close>

function forward_loop ::
    "(nat \<Rightarrow> bool) \<Rightarrow> instream \<Rightarrow> bytes \<Rightarrow> bytes list \<Rightarrow> bool \<times> bytes list \<times> instream" where
  "forward_loop ok s buf outs =
     (case recv_raw_from s buf of
        Inl _ \<Rightarrow> (True, outs, s)
      | Inr (n, buf', s') \<Rightarrow>
          if ok (length outs) then forward_loop ok s' buf' (outs @ [take (unat n) buf'])
          else (False, outs, s'))"
  by pat_completeness auto
termination
  by (relation "measure (\<lambda>(ok, s, buf, outs). length (avail s))") (auto dest!: recv_raw_shorter)

declare forward_loop.simps [simp del]

text \<open>
  \<^verbatim>\<open>process\<close>: the target is read even when a fixed upstream wins; the result is the
  upstream address and the datagrams sent to it.
\<close>

definition process ::
    "(string \<Rightarrow> u16 \<Rightarrow> socket_addr list option) \<Rightarrow> (socket_addr \<Rightarrow> bool) \<Rightarrow> (nat \<Rightarrow> bool) \<Rightarrow>
     socket_addr option \<Rightarrow> instream \<Rightarrow> process_error + socket_addr \<times> bool \<times> bytes list" where
  "process lookup_host connects ok fixed quic_recv =
     (case read_optional_tunnel_target quic_recv of
        Inl e \<Rightarrow> Inl (TargetRead e)
      | Inr (target, s) \<Rightarrow>
          try_then (case fixed of
                      Some a \<Rightarrow> Inr a
                    | None \<Rightarrow>
                        (case target of
                           Some t \<Rightarrow> resolve_udp_target lookup_host t
                         | None \<Rightarrow> Inl NoUpstream))
            (\<lambda>resolved.
               if \<not> connects resolved then Inl SocketFailed
               else (case forward_loop ok s (replicate UDP_PACKET_SIZE 0) [] of
                       (sent_ok, outs, _) \<Rightarrow> Inr (resolved, sent_ok, outs))))"

text \<open>
  The way back, \<^verbatim>\<open>udp_to_quic\<close>: datagrams of the upstream socket, cut to the buffer,
  are framed onto the stream until the socket fails, is silent for the timeout, or the
  forwarding side ended. A failed write is ignored.
\<close>

datatype upstream_event = FromUpstream bytes | UpstreamError | UpstreamSilent | Shutdown

fun udp_to_quic :: "upstream_event list \<Rightarrow> sink \<Rightarrow> sink" where
  "udp_to_quic [] k = k"
| "udp_to_quic (FromUpstream d # evs) k =
     udp_to_quic evs (snd (send_raw_to k (take UDP_PACKET_SIZE d)))"
| "udp_to_quic (_ # evs) k = k"

section \<open>The bridge to a channel\<close>

definition target_family_is_ipv6 :: "tunnel_target option \<Rightarrow> socket_addr option \<Rightarrow> bool" where
  "target_family_is_ipv6 target dflt =
     (case target of
        Some (Addr a) \<Rightarrow> is_ipv6 a
      | _ \<Rightarrow> (case dflt of Some a \<Rightarrow> is_ipv6 a | None \<Rightarrow> False))"

definition channel_local_addr_for_port :: "u16 \<Rightarrow> bool \<Rightarrow> socket_addr" where
  "channel_local_addr_for_port port ipv6 = set_port port (socket_addr_with_unspecified_ip_port ipv6)"

text \<open>
  The synthetic addresses: a map from address to the flow that replies go to and the shared
  port counter. \<open>reserve_loop k\<close> makes \<open>k\<close> attempts.
\<close>

record reply_table =
  reply_map :: "socket_addr \<rightharpoonup> nat"
  next_local_port :: u16

fun reserve_loop :: "nat \<Rightarrow> bool \<Rightarrow> nat \<Rightarrow> reply_table \<Rightarrow> socket_addr option \<times> reply_table" where
  "reserve_loop 0 ipv6 tx t = (None, t)"
| "reserve_loop (Suc k) ipv6 tx t =
     (let port = next_local_port t;
          t' = t\<lparr>next_local_port := port + 1\<rparr>;
          a = channel_local_addr_for_port port ipv6
      in if port = 0 then reserve_loop k ipv6 tx t'
         else if reply_map t' a \<noteq> None then reserve_loop k ipv6 tx t'
         else (Some a, t'\<lparr>reply_map := (reply_map t')(a \<mapsto> tx)\<rparr>))"

definition reserve_channel_local_addr :: "bool \<Rightarrow> nat \<Rightarrow> reply_table \<Rightarrow> socket_addr option \<times> reply_table" where
  "reserve_channel_local_addr ipv6 tx t = reserve_loop 65535 ipv6 tx t"

definition channel_local_addr ::
    "socket_addr option \<Rightarrow> bool \<Rightarrow> nat \<Rightarrow> reply_table \<Rightarrow> socket_addr option \<times> reply_table" where
  "channel_local_addr cached ipv6 tx t =
     (case cached of Some a \<Rightarrow> (Some a, t) | None \<Rightarrow> reserve_channel_local_addr ipv6 tx t)"

text \<open>
  \<^verbatim>\<open>process_channel_io\<close> for the flow numbered \<open>tx\<close>: the packets it sends into the
  channel, and the table afterwards. The flow's address is reserved with its first datagram
  and given back when its stream ends.
\<close>

fun channel_packets ::
    "bytes list \<Rightarrow> tunnel_target option \<Rightarrow> bool \<Rightarrow> nat \<Rightarrow> socket_addr option \<Rightarrow> reply_table \<Rightarrow>
     bool \<times> udp_message list \<times> socket_addr option \<times> reply_table" where
  "channel_packets [] target ipv6 tx cached t = (True, [], cached, t)"
| "channel_packets (d # ds) target ipv6 tx cached t =
     (case channel_local_addr cached ipv6 tx t of
        (None, t1) \<Rightarrow> (False, [], cached, t1)
      | (Some a, t1) \<Rightarrow>
          (case channel_packets ds target ipv6 tx (Some a) t1 of
             (ok, ms, c, t2) \<Rightarrow>
               (ok, Packet \<lparr>payload = d, local_addr = a, peer_addr = target\<rparr> # ms, c, t2)))"

definition process_channel_io ::
    "socket_addr option \<Rightarrow> nat \<Rightarrow> instream \<Rightarrow> reply_table \<Rightarrow> udp_message list \<times> reply_table" where
  "process_channel_io dflt tx quic_recv t =
     (case read_optional_tunnel_target quic_recv of
        Inl _ \<Rightarrow> ([], t)
      | Inr (target, s) \<Rightarrow>
          (case read_datagrams s (replicate UDP_PACKET_SIZE 0) of
             (ds, _) \<Rightarrow>
               (case channel_packets ds target (target_family_is_ipv6 target dflt) tx None t of
                  (False, ms, c, t1) \<Rightarrow> (ms, t1)
                | (True, ms, None, t1) \<Rightarrow> (ms, t1)
                | (True, ms, Some a, t1) \<Rightarrow> (ms, t1\<lparr>reply_map := (reply_map t1)(a := None)\<rparr>))))"

text \<open>The reply router: a packet goes to the flow its local address belongs to.\<close>

fun reply_router :: "(socket_addr \<rightharpoonup> nat) \<Rightarrow> udp_message list \<Rightarrow> (nat \<times> udp_packet) list" where
  "reply_router m [] = []"
| "reply_router m (UQuit # ms) = []"
| "reply_router m (Packet p # ms) =
     (case m (local_addr p) of
        Some tx \<Rightarrow> (tx, p) # reply_router m ms
      | None \<Rightarrow> reply_router m ms)"

section \<open>The framing along a stream\<close>

lemma recv_raw_nothing:
  "recv_raw_from \<lparr>avail = [], tail_of = t\<rparr> buf = Inl (ReadFailed (tail_error t))"
  by (simp add: recv_raw_from_def read_exact_def)

lemma recv_raw_next:
  assumes "length d \<le> UDP_PACKET_SIZE" and "length buf = UDP_PACKET_SIZE"
  shows "recv_raw_from \<lparr>avail = raw_frame d @ rest, tail_of = t\<rparr> buf =
    Inr (word_of_nat (length d), d @ drop (length d) buf, \<lparr>avail = rest, tail_of = t\<rparr>) \<and>
    unat (word_of_nat (length d) :: u16) = length d"
  using assms recv_raw_frame [of d rest t buf] by (simp_all add: UDP_PACKET_SIZE_def unat_of_nat)

lemma forward_loop_frames:
  assumes "list_all (\<lambda>d. length d \<le> UDP_PACKET_SIZE) ds" and "length buf = UDP_PACKET_SIZE"
    and "\<And>i. ok i"
  shows "\<exists>s. forward_loop ok \<lparr>avail = concat (map raw_frame ds), tail_of = t\<rparr> buf outs = (True, outs @ ds, s)"
  using assms(1,2)
proof (induction ds arbitrary: buf outs)
  case Nil
  then show ?case by (simp add: forward_loop.simps recv_raw_nothing)
next
  case (Cons d ds)
  have "forward_loop ok \<lparr>avail = concat (map raw_frame (d # ds)), tail_of = t\<rparr> buf outs =
      forward_loop ok \<lparr>avail = concat (map raw_frame ds), tail_of = t\<rparr> (d @ drop (length d) buf) (outs @ [d])"
    using Cons.prems recv_raw_next [of d buf "concat (map raw_frame ds)" t] assms(3)
    by (subst forward_loop.simps) simp
  moreover have "length (d @ drop (length d) buf) = UDP_PACKET_SIZE" using Cons.prems by simp
  ultimately show ?case using Cons.IH [of "d @ drop (length d) buf" "outs @ [d]"] Cons.prems(1) by simp
qed

lemma read_datagrams_frames:
  "list_all (\<lambda>d. length d \<le> UDP_PACKET_SIZE) ds \<Longrightarrow> length buf = UDP_PACKET_SIZE \<Longrightarrow>
     fst (read_datagrams \<lparr>avail = concat (map raw_frame ds), tail_of = t\<rparr> buf) = ds"
proof (induction ds)
  case Nil
  then show ?case by (simp add: read_datagrams.simps recv_raw_nothing)
next
  case (Cons d ds)
  then show ?case using recv_raw_next [of d buf "concat (map raw_frame ds)" t]
    by (subst read_datagrams.simps) (auto split: prod.split)
qed

section \<open>One flow\<close>

definition serving_empty :: udp_serving where
  "serving_empty = \<lparr>stream_map = Map.empty, flows = []\<rparr>"

definition new_flow :: "udp_stream_key \<Rightarrow> udp_packet list \<Rightarrow> sink \<Rightarrow> udp_flow" where
  "new_flow key ps k = \<lparr>flow_key = key, flow_queue = ps, flow_out = k, writer_at = Sending, reader_alive = True\<rparr>"

definition opened :: "udp_stream_key \<Rightarrow> sink" where
  "opened key = open_sink\<lparr>written := target_frame (key_peer_addr key)\<rparr>"

lemma opened_sel [simp]: "budget (opened key) = None" "written (opened key) = target_frame (key_peer_addr key)"
  by (simp_all add: opened_def open_sink_def)

lemma open_stream_new:
  assumes "stream_map st key = None" and "sendable_opt (key_peer_addr key)"
  shows "open_stream (Some open_sink) key st =
    (Some (length (flows st)),
     st\<lparr>stream_map := (stream_map st)(key \<mapsto> length (flows st)), flows := flows st @ [new_flow key [] (opened key)]\<rparr>)"
  using assms encode_is_frame [OF assms(2)]
  by (simp add: open_stream_def write_tunnel_target_def open_sink_def opened_def new_flow_def)

definition flow_map :: "udp_stream_key \<Rightarrow> udp_stream_key \<rightharpoonup> nat" where
  "flow_map key = Map.empty(key \<mapsto> 0)"

lemma flow_map_key [simp]: "flow_map key key = Some 0"
  by (simp add: flow_map_def)

lemma serve_queued:
  "packet_key p = key \<Longrightarrow> length ps < PACKET_QUEUE \<Longrightarrow>
     serve_packet bi p \<lparr>stream_map = flow_map key, flows = [new_flow key ps k]\<rparr> =
       \<lparr>stream_map = flow_map key, flows = [new_flow key (ps @ [p]) k]\<rparr>"
  by (simp add: serve_packet_def open_stream_def new_flow_def)

lemma serve_packets:
  assumes "ps \<noteq> []" and "\<And>p. p \<in> set ps \<Longrightarrow> packet_key p = key" and "length ps \<le> PACKET_QUEUE"
    and "sendable_opt (key_peer_addr key)"
  shows "fold (serve_packet (Some open_sink)) ps serving_empty =
    \<lparr>stream_map = flow_map key, flows = [new_flow key ps (opened key)]\<rparr>"
  using assms(1-3)
proof (induction ps rule: rev_nonempty_induct)
  case (single p)
  then show ?case using open_stream_new [of serving_empty key] assms(4)
    by (simp add: serve_packet_def serving_empty_def new_flow_def PACKET_QUEUE_def flow_map_def)
      (simp add: fun_eq_iff)
next
  case (snoc p ps)
  then have "fold (serve_packet (Some open_sink)) ps serving_empty =
      \<lparr>stream_map = flow_map key, flows = [new_flow key ps (opened key)]\<rparr>" by simp
  moreover have "packet_key p = key" and "length ps < PACKET_QUEUE" using snoc by auto
  ultimately show ?case by (simp add: serve_queued)
qed

lemma writer_drains:
  assumes "budget k = None"
  shows "(writer_send 0 ^^ length ps) \<lparr>stream_map = m, flows = [new_flow key (ps @ qs) k]\<rparr> =
    \<lparr>stream_map = m, flows = [new_flow key qs (k\<lparr>written := written k @ concat (map (\<lambda>p. raw_frame (payload p)) ps)\<rparr>)]\<rparr>"
  using assms
proof (induction ps arbitrary: k)
  case (Cons p ps)
  let ?k = "k\<lparr>written := written k @ raw_frame (payload p)\<rparr>"
  have "writer_send 0 \<lparr>stream_map = m, flows = [new_flow key ((p # ps) @ qs) k]\<rparr> =
      \<lparr>stream_map = m, flows = [new_flow key (ps @ qs) ?k]\<rparr>"
    using Cons.prems by (simp add: writer_send_def new_flow_def send_raw_frame)
  then show ?case using Cons.IH [of ?k] Cons.prems
    by (simp add: funpow_Suc_right del: funpow.simps)
qed simp

section \<open>Synthetic addresses\<close>

definition port_taken :: "bool \<Rightarrow> reply_table \<Rightarrow> u16 \<Rightarrow> bool" where
  "port_taken ipv6 t p \<longleftrightarrow> p = 0 \<or> reply_map t (channel_local_addr_for_port p ipv6) \<noteq> None"

lemma reserve_loop_Some:
  "reserve_loop k ipv6 tx t = (Some a, t') \<Longrightarrow>
     \<exists>j < k. a = channel_local_addr_for_port (next_local_port t + word_of_nat j) ipv6 \<and>
       \<not> port_taken ipv6 t (next_local_port t + word_of_nat j) \<and>
       reply_map t' = (reply_map t)(a \<mapsto> tx)"
proof (induction k arbitrary: t)
  case (Suc k)
  let ?t = "t\<lparr>next_local_port := next_local_port t + 1\<rparr>"
  show ?case
  proof (cases "port_taken ipv6 t (next_local_port t)")
    case True
    then have "reserve_loop k ipv6 tx ?t = (Some a, t')"
      using Suc.prems by (auto simp: port_taken_def Let_def split: if_splits)
    from Suc.IH [OF this] obtain j where "j < k"
      and "a = channel_local_addr_for_port (next_local_port ?t + word_of_nat j) ipv6"
      and "\<not> port_taken ipv6 ?t (next_local_port ?t + word_of_nat j)"
      and "reply_map t' = (reply_map ?t)(a \<mapsto> tx)" by blast
    then show ?thesis
      by (intro exI [of _ "Suc j"]) (simp add: port_taken_def algebra_simps)
  next
    case False
    then show ?thesis using Suc.prems by (intro exI [of _ 0]) (auto simp: port_taken_def Let_def)
  qed
qed simp

lemma reserve_loop_None:
  "reserve_loop k ipv6 tx t = (None, t') \<Longrightarrow> j < k \<Longrightarrow>
     port_taken ipv6 t (next_local_port t + word_of_nat j) \<and> reply_map t' = reply_map t"
proof (induction k arbitrary: t j)
  case (Suc k)
  let ?t = "t\<lparr>next_local_port := next_local_port t + 1\<rparr>"
  have taken: "port_taken ipv6 t (next_local_port t)" and rest: "reserve_loop k ipv6 tx ?t = (None, t')"
    using Suc.prems(1) by (auto simp: port_taken_def Let_def split: if_splits)
  show ?case
  proof (cases j)
    case 0
    have "reply_map t' = reply_map t"
    proof (cases k)
      case 0
      then show ?thesis using rest by auto
    next
      case (Suc k')
      then show ?thesis using Suc.IH [OF rest, of 0] by simp
    qed
    then show ?thesis using taken 0 by simp
  next
    case (Suc i)
    then show ?thesis using Suc.IH [OF rest, of i] Suc.prems(2)
      by (simp add: port_taken_def algebra_simps)
  qed
qed simp

lemma port_offset: "p \<noteq> n - 1 \<Longrightarrow> \<exists>j < 65535. (p :: u16) = n + word_of_nat j"
proof (intro exI conjI)
  assume "p \<noteq> n - 1"
  then have "p - n \<noteq> - 1" by (metis add.commute diff_add_cancel uminus_add_conv_diff)
  moreover have "unat (- 1 :: u16) = 65535" by (simp add: unat_max_word)
  ultimately have "unat (p - n) \<noteq> 65535" by (metis word_unat_eq_iff)
  moreover have "unat (p - n) < 2 ^ LENGTH(16)" by (rule unsigned_less)
  ultimately show "unat (p - n) < 65535" by simp
  show "p = n + word_of_nat (unat (p - n))" by simp
qed

section \<open>Properties\<close>

text \<open>
  C15. A UDP flow end to end. Up to 512 datagrams of one flow (each at most
  \<open>UDP_PACKET_SIZE\<close> bytes) taken from the local socket, queued, framed by the writer and
  read by the server's \<open>process\<close> reach the upstream socket unchanged and in order, on
  one stream; the upstream is the server's fixed one, else what the flow's target resolves
  to, and without either the stream is refused.
\<close>

theorem udp_flow_delivered:
  assumes "ps \<noteq> []" and "length ps \<le> PACKET_QUEUE" and "\<forall>p \<in> set ps. packet_key p = key"
    and "list_all (\<lambda>p. length (payload p) \<le> UDP_PACKET_SIZE) ps"
    and "pred_option sendable (key_peer_addr key)"
  defines "sent_state \<equiv> (writer_send 0 ^^ length ps)
      (fold (serve_packet (Some open_sink)) ps serving_empty)"
  shows "length (flows sent_state) = 1 \<and>
    process lookup_host (\<lambda>_. True) (\<lambda>_. True) fixed
      \<lparr>avail = written (flow_out (flows sent_state ! 0)), tail_of = t\<rparr> =
    (case fixed of
       Some a \<Rightarrow> Inr (a, True, map payload ps)
     | None \<Rightarrow>
         (case key_peer_addr key of
            None \<Rightarrow> Inl NoUpstream
          | Some target \<Rightarrow>
              (case resolve_udp_target lookup_host (wire_target target) of
                 Inl e \<Rightarrow> Inl e
               | Inr a \<Rightarrow> Inr (a, True, map payload ps))))"
proof -
  let ?body = "concat (map raw_frame (map payload ps))"
  have st: "sent_state = \<lparr>stream_map = flow_map key,
      flows = [new_flow key [] ((opened key)\<lparr>written := target_frame (key_peer_addr key) @ ?body\<rparr>)]\<rparr>"
    using serve_packets [OF assms(1) _ assms(2,5)] assms(3)
      writer_drains [of "opened key" ps "flow_map key" key "[]"]
    by (simp add: sent_state_def comp_def)
  have "list_all (\<lambda>d. length d \<le> UDP_PACKET_SIZE) (map payload ps)"
    using assms(4) by (simp add: list_all_iff)
  from forward_loop_frames [OF this, of "replicate UDP_PACKET_SIZE 0" "\<lambda>_. True" t "[]"]
  obtain s where loop: "forward_loop (\<lambda>_. True) \<lparr>avail = ?body, tail_of = t\<rparr> (replicate UDP_PACKET_SIZE 0) [] =
      (True, map payload ps, s)" by auto
  show ?thesis
    using read_optional_target_frame [OF assms(5), of ?body t] loop
    by (cases fixed; cases "key_peer_addr key")
      (auto simp: st process_def new_flow_def split: sum.split)
qed

definition example_packet :: "bytes \<Rightarrow> udp_packet" where
  "example_packet d = \<lparr>payload = d, local_addr = V4 localhost_v4 5353, peer_addr = Some (Addr (V4 1 53))\<rparr>"

theorem udp_flow_delivered_witness:
  "process (\<lambda>_ _. None) (\<lambda>_. True) (\<lambda>_. True) None
     \<lparr>avail = written (flow_out (flows ((writer_send 0 ^^ length (map example_packet [[1, 2], [], [3]]))
        (fold (serve_packet (Some open_sink)) (map example_packet [[1, 2], [], [3]]) serving_empty)) ! 0)),
      tail_of = Closed\<rparr> =
   Inr (V4 1 53, True, [[1, 2], [], [3]])"
  using udp_flow_delivered [of "map example_packet [[1, 2], [], [3]]" "packet_key (example_packet [])"
      "\<lambda>_ _. None" None Closed]
  by (simp add: example_packet_def packet_key_def PACKET_QUEUE_def UDP_PACKET_SIZE_def resolve_udp_target_def)

text \<open>
  C39. A flow's idle stream that ends takes its successor out of the map. The reader of a
  silent stream times out and removes the flow's key; the next datagram opens a second
  stream under that key; then the first stream's writer, finding its sender gone, leaves its
  loop and removes the key again, although it now belongs to the second stream, which still has a live
  writer with a queued datagram; the datagram after that opens a third stream.
\<close>

theorem stale_stream_removes_successor:
  assumes "pred_option sendable (peer_addr p)"
  defines "idle \<equiv> reader_end 0 (writer_send 0 (serve_packet (Some open_sink) p serving_empty))"
  defines "reopened \<equiv> serve_packet (Some open_sink) p idle"
  defines "stale \<equiv> writer_remove 0 (writer_send 0 reopened)"
  shows "stream_map reopened (packet_key p) = Some 1 \<and>
    stream_map stale (packet_key p) = None \<and>
    writer_at (flows stale ! 1) = Sending \<and> flow_queue (flows stale ! 1) = [p] \<and>
    length (flows (serve_packet (Some open_sink) p stale)) = 3"
proof -
  let ?key = "packet_key p"
  have ok: "sendable_opt (key_peer_addr ?key)" using assms(1) by (simp add: packet_key_def)
  obtain k where idle: "idle = \<lparr>stream_map = Map.empty,
      flows = [(new_flow ?key [] k)\<lparr>reader_alive := False\<rparr>]\<rparr>"
    using serve_packets [of "[p]" ?key] ok writer_drains [of "opened ?key" "[p]" "flow_map ?key" ?key "[]"]
    by (auto simp: idle_def PACKET_QUEUE_def reader_end_def new_flow_def flow_map_def)
  have reopened: "reopened = \<lparr>stream_map = Map.empty(?key \<mapsto> 1),
      flows = [(new_flow ?key [] k)\<lparr>reader_alive := False\<rparr>, new_flow ?key [p] (opened ?key)]\<rparr>"
    using open_stream_new [of idle ?key] ok
    by (simp add: reopened_def idle serve_packet_def new_flow_def PACKET_QUEUE_def)
  have stale: "stream_map stale ?key = None" "flows stale ! 1 = new_flow ?key [p] (opened ?key)"
    "length (flows stale) = 2"
    by (simp_all add: stale_def reopened writer_send_def writer_remove_def new_flow_def)
  have "length (flows (serve_packet (Some open_sink) p stale)) = 3"
    using open_stream_new [of stale ?key] ok stale
    by (simp add: serve_packet_def Let_def)
  then show ?thesis using stale reopened by (simp add: new_flow_def)
qed

theorem stale_stream_removes_successor_witness:
  "stream_map (writer_remove 0 (writer_send 0 (serve_packet (Some open_sink) (example_packet [1])
     (reader_end 0 (writer_send 0 (serve_packet (Some open_sink) (example_packet [1]) serving_empty))))))
     (packet_key (example_packet [1])) = None"
  using stale_stream_removes_successor [of "example_packet [1]"] by (simp add: example_packet_def)

text \<open>
  Synthetic addresses. A reserved address is new, of the requested family, has a port
  other than zero, and is the only change to the map; without a result every port is taken
  except possibly the one just before the counter, which the loop never tries: when it is
  the only free one the reservation fails.
\<close>

lemma reserve_local_addr:
  "(case reserve_channel_local_addr ipv6 tx t of
      (Some a, t') \<Rightarrow> reply_map t a = None \<and> sa_port a \<noteq> 0 \<and> is_ipv6 a = ipv6 \<and>
        reply_map t' = (reply_map t)(a \<mapsto> tx)
    | (None, t') \<Rightarrow> reply_map t' = reply_map t \<and>
        (\<forall>p. p \<noteq> next_local_port t - 1 \<longrightarrow> port_taken ipv6 t p)) \<and>
   ((\<forall>p. p \<noteq> next_local_port t - 1 \<longrightarrow> port_taken ipv6 t p) \<longrightarrow>
      fst (reserve_channel_local_addr ipv6 tx t) = None)"
proof
  have addr: "sa_port (channel_local_addr_for_port p v) = p" "is_ipv6 (channel_local_addr_for_port p v) = v" for p v
    by (cases v; simp add: channel_local_addr_for_port_def)+
  show "case reserve_channel_local_addr ipv6 tx t of
      (Some a, t') \<Rightarrow> reply_map t a = None \<and> sa_port a \<noteq> 0 \<and> is_ipv6 a = ipv6 \<and>
        reply_map t' = (reply_map t)(a \<mapsto> tx)
    | (None, t') \<Rightarrow> reply_map t' = reply_map t \<and>
        (\<forall>p. p \<noteq> next_local_port t - 1 \<longrightarrow> port_taken ipv6 t p)"
  proof (cases "reserve_channel_local_addr ipv6 tx t")
    case (Pair r t')
    show ?thesis
    proof (cases r)
      case None
      then have none: "reserve_loop 65535 ipv6 tx t = (None, t')"
        using Pair by (simp add: reserve_channel_local_addr_def)
      have "port_taken ipv6 t p" if "p \<noteq> next_local_port t - 1" for p
        using port_offset [OF that] reserve_loop_None [OF none] by blast
      then show ?thesis using Pair None reserve_loop_None [OF none, of 0] by simp
    next
      case (Some a)
      then have "reserve_loop 65535 ipv6 tx t = (Some a, t')"
        using Pair by (simp add: reserve_channel_local_addr_def)
      from reserve_loop_Some [OF this] Pair Some show ?thesis
        by (auto simp: port_taken_def addr)
    qed
  qed
  show "(\<forall>p. p \<noteq> next_local_port t - 1 \<longrightarrow> port_taken ipv6 t p) \<longrightarrow>
      fst (reserve_channel_local_addr ipv6 tx t) = None"
  proof
    assume taken: "\<forall>p. p \<noteq> next_local_port t - 1 \<longrightarrow> port_taken ipv6 t p"
    show "fst (reserve_channel_local_addr ipv6 tx t) = None"
    proof (rule ccontr)
      assume "fst (reserve_channel_local_addr ipv6 tx t) \<noteq> None"
      then obtain a t' where "reserve_loop 65535 ipv6 tx t = (Some a, t')"
        by (cases "reserve_loop 65535 ipv6 tx t") (auto simp: reserve_channel_local_addr_def)
      from reserve_loop_Some [OF this] obtain j where j: "j < 65535"
        and "\<not> port_taken ipv6 t (next_local_port t + word_of_nat j)" by blast
      with taken have "next_local_port t + word_of_nat j = next_local_port t - 1" by blast
      then have "(word_of_nat j :: u16) = - 1" by (simp add: diff_conv_add_uminus del: add_uminus_conv_diff)
      then have "unat (word_of_nat j :: u16) = unat (- 1 :: u16)" by (simp only:)
      then show False using j by (simp add: unat_of_nat unat_max_word)
    qed
  qed
qed

lemma reserve_local_addr_witness:
  "fst (reserve_channel_local_addr False 7
     \<lparr>reply_map = (\<lambda>a. if a = V4 0 9999 then None else Some 0), next_local_port = 10000\<rparr>) = None"
proof -
  let ?t = "\<lparr>reply_map = (\<lambda>a. if a = V4 0 9999 then None else Some (0 :: nat)), next_local_port = 10000\<rparr>"
  have "\<forall>p. p \<noteq> next_local_port ?t - 1 \<longrightarrow> port_taken False ?t p"
    by (simp add: port_taken_def channel_local_addr_for_port_def)
  then show ?thesis using reserve_local_addr [where ?ipv6.0 = False and tx = 7 and t = ?t] by blast
qed

lemma channel_packets_cached:
  "channel_packets ds target v tx (Some a) t =
     (True, map (\<lambda>d. Packet \<lparr>payload = d, local_addr = a, peer_addr = target\<rparr>) ds, Some a, t)"
  by (induction ds) (simp_all add: channel_local_addr_def)

lemma reserved_addr:
  assumes "reserve_channel_local_addr v tx t = (r, t')"
  shows "case r of
      None \<Rightarrow> reply_map t' = reply_map t
    | Some a \<Rightarrow> reply_map t a = None \<and> reply_map t' = (reply_map t)(a \<mapsto> tx)"
proof (cases r)
  case None
  then show ?thesis using assms reserve_loop_None [of 65535 v tx t t' 0]
    by (simp add: reserve_channel_local_addr_def)
next
  case (Some a)
  then show ?thesis using assms reserve_loop_Some [of 65535 v tx t a t']
    by (auto simp: reserve_channel_local_addr_def port_taken_def)
qed

text \<open>
  The bridge of one stream to a channel: all its packets carry the stream's target and
  one and the same local address, which belonged to no other flow; the payloads are the
  datagrams of the stream in order; and when the stream has ended the reply table is as
  before, so no address leaks.
\<close>

lemma bridge_stamps_packets:
  assumes "list_all (\<lambda>d. length d \<le> UDP_PACKET_SIZE) ds" and "pred_option sendable target"
    and "process_channel_io dflt tx
      \<lparr>avail = target_frame target @ concat (map raw_frame ds), tail_of = e\<rparr> t = (ms, t')"
  shows "reply_map t' = reply_map t \<and>
    (ms = [] \<or> (\<exists>a. reply_map t a = None \<and>
       ms = map (\<lambda>d. Packet \<lparr>payload = d, local_addr = a, peer_addr = map_option wire_target target\<rparr>) ds))"
proof -
  let ?target = "map_option wire_target target"
  let ?v = "target_family_is_ipv6 ?target dflt"
  have read: "fst (read_datagrams \<lparr>avail = concat (map raw_frame ds), tail_of = e\<rparr>
      (replicate UDP_PACKET_SIZE 0)) = ds"
    using read_datagrams_frames [OF assms(1)] by simp
  obtain ok ms1 c t1 where cp: "channel_packets ds ?target ?v tx None t = (ok, ms1, c, t1)" by (metis prod.exhaust)
  have io: "(ms, t') = (case (ok, c) of (True, Some a) \<Rightarrow> (ms1, t1\<lparr>reply_map := (reply_map t1)(a := None)\<rparr>)
      | _ \<Rightarrow> (ms1, t1))"
    using assms(3) read_optional_target_frame [OF assms(2), of "concat (map raw_frame ds)" e] read cp
    by (auto simp: process_channel_io_def split: prod.splits bool.splits option.splits)
  show ?thesis
  proof (cases ds)
    case Nil
    then show ?thesis using cp io by auto
  next
    case (Cons d ds')
    obtain r t2 where r: "reserve_channel_local_addr ?v tx t = (r, t2)" by fastforce
    show ?thesis
    proof (cases r)
      case None
      then show ?thesis using reserved_addr [OF r] cp io r Cons
        by (auto simp: channel_local_addr_def)
    next
      case (Some a)
      then show ?thesis using reserved_addr [OF r] cp io r Cons
        by (auto simp: channel_local_addr_def channel_packets_cached fun_upd_idem)
    qed
  qed
qed

lemma bridge_stamps_packets_witness:
  "reply_map (snd (process_channel_io None 4
     \<lparr>avail = target_frame None @ concat (map raw_frame [[1], [2, 3]]), tail_of = Closed\<rparr>
     \<lparr>reply_map = Map.empty, next_local_port = 10000\<rparr>)) = Map.empty"
  using bridge_stamps_packets [of "[[1], [2, 3]]" None None 4 Closed
      "\<lparr>reply_map = Map.empty, next_local_port = 10000\<rparr>"]
  by (simp add: UDP_PACKET_SIZE_def) (metis prod.collapse)

end
