(* ===== verification/Udp_Serving.thy ===== *)
theory Udp_Serving
  imports Udp_Tunnel
begin

text \<open>
  The loops of \<^verbatim>\<open>src/src/udp/udp_tunnel.rs\<close> around the flows: the serving loop with
  the writer and reader tasks that run beside it, the accepting loops, and the bridge of an
  accepting connection to a channel, with its shared table of local addresses and its reply
  router. The tasks interleave in any order: a step relation has one rule per task.
\<close>

section \<open>The serving loop\<close>

text \<open>
  One turn of \<^verbatim>\<open>start_serving\<close>: a message of the channel (\<open>None\<close>: it was closed),
  what opening a stream gives, and whether the connection is closed by then. The result says
  whether the loop goes on.
\<close>

definition serve_round ::
    "sink option \<Rightarrow> bool \<Rightarrow> udp_message option \<Rightarrow> udp_serving \<Rightarrow> bool \<times> udp_serving" where
  "serve_round bi closed msg st =
     (case msg of
        Some (Packet p) \<Rightarrow>
          (case open_stream bi (packet_key p) st of
             (None, st1) \<Rightarrow> (\<not> closed, st1)
           | (Some i, st1) \<Rightarrow>
               (let f = flows st1 ! i in
                if \<not> writer_alive f then (\<not> closed, st1)
                else if length (flow_queue f) < PACKET_QUEUE
                then (True, st1\<lparr>flows := (flows st1)[i := f\<lparr>flow_queue := flow_queue f @ [p]\<rparr>]\<rparr>)
                else (True, st1)))
      | _ \<Rightarrow> (False, st))"

text \<open>
  The loop with the tasks it spawned. The second component is the history of the packets
  the loop received.
\<close>

inductive serving_step :: "udp_serving \<times> udp_packet list \<Rightarrow> udp_serving \<times> udp_packet list \<Rightarrow> bool" where
  served: "pred_option (\<lambda>k. written k = []) bi \<Longrightarrow>
    serving_step (st, hist) (snd (serve_round bi closed (Some (Packet p)) st), hist @ [p])"
| wrote: "i < length (flows st) \<Longrightarrow> writer_at (flows st ! i) = Sending \<Longrightarrow>
    serving_step (st, hist) (writer_send i st, hist)"
| removed: "i < length (flows st) \<Longrightarrow> writer_at (flows st ! i) = Leaving \<Longrightarrow>
    serving_step (st, hist) (writer_remove i st, hist)"
| dropped: "i < length (flows st) \<Longrightarrow> writer_at (flows st ! i) = KeyRemoved \<Longrightarrow>
    serving_step (st, hist) (writer_drop i st, hist)"
| silent: "i < length (flows st) \<Longrightarrow> reader_alive (flows st ! i) \<Longrightarrow>
    serving_step (st, hist) (reader_end i st, hist)"

lemma serve_round_packet: "snd (serve_round bi closed (Some (Packet p)) st) = serve_packet bi p st"
  by (simp add: serve_round_def serve_packet_def Let_def split: prod.split option.split)

text \<open>The bytes a flow's stream begins with.\<close>

definition flow_head :: "udp_stream_key \<Rightarrow> bytes" where
  "flow_head key =
     (case encode_tunnel_target (key_peer_addr key) True of Inr (Some bs) \<Rightarrow> bs | _ \<Rightarrow> [])"

definition frames_of :: "udp_packet list \<Rightarrow> bytes" where
  "frames_of ps = concat (map (\<lambda>p. raw_frame (payload p)) ps)"

lemma frames_of_simps [simp]: "frames_of [] = []" "frames_of (p # ps) = raw_frame (payload p) @ frames_of ps"
  "frames_of (ps @ qs) = frames_of ps @ frames_of qs"
  by (simp_all add: frames_of_def)

text \<open>A writer that has not removed its key yet.\<close>

definition keyed :: "udp_flow \<Rightarrow> bool" where
  "keyed f \<longleftrightarrow> writer_at f = Sending \<or> writer_at f = Leaving"

lemma keyed_alive: "keyed f \<Longrightarrow> writer_alive f"
  by (auto simp: keyed_def)

text \<open>
  A flow is faithful to a history: what its stream carries is its target and then packets of
  its own, in the order in which the loop received them, and what is queued comes after.
  A stream whose writer left its loop may have been cut off within a frame.
\<close>

definition faithful :: "udp_packet list \<Rightarrow> udp_flow \<Rightarrow> bool" where
  "faithful hist f \<longleftrightarrow>
     (\<exists>ps. subseq (ps @ flow_queue f) (filter (\<lambda>p. packet_key p = flow_key f) hist) \<and>
        (if writer_at f = Sending then written (flow_out f) = flow_head (flow_key f) @ frames_of ps
         else prefix (written (flow_out f)) (flow_head (flow_key f) @ frames_of ps)))"

definition serving_inv :: "udp_serving \<times> udp_packet list \<Rightarrow> bool" where
  "serving_inv s \<longleftrightarrow>
     (\<forall>key i. stream_map (fst s) key = Some i \<longrightarrow>
        i < length (flows (fst s)) \<and> flow_key (flows (fst s) ! i) = key \<and> keyed (flows (fst s) ! i)) \<and>
     (\<forall>f \<in> set (flows (fst s)). faithful (snd s) f \<and> length (flow_queue f) \<le> PACKET_QUEUE)"

lemma faithful_more: "faithful hist f \<Longrightarrow> faithful (hist @ [p]) f"
proof -
  assume "faithful hist f"
  then obtain ps where sub: "subseq (ps @ flow_queue f) (filter (\<lambda>p. packet_key p = flow_key f) hist)"
    and out: "if writer_at f = Sending then written (flow_out f) = flow_head (flow_key f) @ frames_of ps
      else prefix (written (flow_out f)) (flow_head (flow_key f) @ frames_of ps)"
    unfolding faithful_def by (elim exE conjE)
  from sub have "subseq (ps @ flow_queue f) (filter (\<lambda>p. packet_key p = flow_key f) (hist @ [p]))"
    by (simp add: list_emb_prefix)
  with out show ?thesis unfolding faithful_def by (intro exI [of _ ps]) (rule conjI)
qed

lemma send_raw_prefix:
  assumes "send_raw_to k d = (ok, k')"
  shows "\<exists>part. written k' = written k @ part \<and> prefix part (raw_frame d) \<and> (ok \<longrightarrow> part = raw_frame d)"
proof -
  let ?len = "to_be_bytes (word_of_nat (length d) :: u16)"
  obtain ok1 k1 where w: "write_all ?len k = (ok1, k1)" by fastforce
  from write_all_prefix [OF w] obtain a where
    a: "written k1 = written k @ a" "prefix a ?len" "ok1 \<longrightarrow> a = ?len" by blast
  show ?thesis
  proof (cases ok1)
    case False
    then show ?thesis using assms w a by (auto simp: send_raw_to_def raw_frame_def)
  next
    case True
    then have w2: "write_all d k1 = (ok, k')" using assms w by (simp add: send_raw_to_def)
    from write_all_prefix [OF w2] True a show ?thesis
      by (auto simp: raw_frame_def)
  qed
qed

lemma serving_invD:
  assumes "serving_inv (st, hist)"
  shows "stream_map st key = Some i \<Longrightarrow>
      i < length (flows st) \<and> flow_key (flows st ! i) = key \<and> keyed (flows st ! i)"
    and "f \<in> set (flows st) \<Longrightarrow> faithful hist f \<and> length (flow_queue f) \<le> PACKET_QUEUE"
  using assms by (auto simp: serving_inv_def)

lemma serving_invI:
  assumes "\<And>key i. stream_map st key = Some i \<Longrightarrow>
      i < length (flows st) \<and> flow_key (flows st ! i) = key \<and> keyed (flows st ! i)"
    and "\<And>f. f \<in> set (flows st) \<Longrightarrow> faithful hist f \<and> length (flow_queue f) \<le> PACKET_QUEUE"
  shows "serving_inv (st, hist)"
  using assms by (simp add: serving_inv_def)

lemma open_stream_inv:
  assumes inv: "serving_inv (st, hist)" and bi: "pred_option (\<lambda>k. written k = []) bi"
    and op: "open_stream bi key st = (r, st1)"
  shows "serving_inv (st1, hist) \<and> (\<forall>i. r = Some i \<longrightarrow> stream_map st1 key = Some i)"
proof (cases "stream_map st key = None \<and> r \<noteq> None")
  case False
  then have "st1 = st \<and> (\<forall>i. r = Some i \<longrightarrow> stream_map st key = Some i)"
    using op by (auto simp: open_stream_def split: option.splits prod.splits sum.splits)
  then show ?thesis using inv by simp
next
  case True
  then obtain k k' where k: "bi = Some k" "write_tunnel_target k (key_peer_addr key) True = (Inr (), k')"
    and st1: "r = Some (length (flows st))"
      "st1 = st\<lparr>stream_map := (stream_map st)(key \<mapsto> length (flows st)), flows := flows st @ [new_flow key [] k']\<rparr>"
    using op by (auto simp: open_stream_def new_flow_def split: option.splits prod.splits sum.splits)
  have "written k' = flow_head key"
    using k bi by (auto simp: write_tunnel_target_def flow_head_def write_all_def
        split: sum.splits option.splits prod.splits bool.splits if_splits)
  then have new: "faithful hist (new_flow key [] k')"
    by (auto simp: faithful_def new_flow_def intro!: exI [of _ "[]"])
  have "serving_inv (st1, hist)"
  proof (rule serving_invI)
    fix key' i assume "stream_map st1 key' = Some i"
    then show "i < length (flows st1) \<and> flow_key (flows st1 ! i) = key' \<and> keyed (flows st1 ! i)"
      using serving_invD(1) [OF inv, of key' i] st1(2)
      by (auto simp: nth_append new_flow_def keyed_def split: if_splits)
  next
    fix f assume "f \<in> set (flows st1)"
    then show "faithful hist f \<and> length (flow_queue f) \<le> PACKET_QUEUE"
      using serving_invD(2) [OF inv, of f] new st1(2) by (auto simp: new_flow_def)
  qed
  then show ?thesis using st1 by simp
qed

lemma serving_inv_more: "serving_inv (st, hist) \<Longrightarrow> serving_inv (st, hist @ [p])"
  by (auto simp: serving_inv_def intro: faithful_more)

lemma serving_inv_update:
  assumes inv: "serving_inv (st, hist)"
    and f': "flow_key f' = flow_key (flows st ! i)" "faithful hist f'" "length (flow_queue f') \<le> PACKET_QUEUE"
    and m: "\<And>key j. m key = Some j \<Longrightarrow> stream_map st key = Some j \<and> (j = i \<longrightarrow> keyed f')"
  shows "serving_inv (st\<lparr>stream_map := m, flows := (flows st)[i := f']\<rparr>, hist)"
proof (rule serving_invI)
  fix key j assume "stream_map (st\<lparr>stream_map := m, flows := (flows st)[i := f']\<rparr>) key = Some j"
  then have "stream_map st key = Some j" "j = i \<longrightarrow> keyed f'" using m by auto
  with serving_invD(1) [OF inv this(1)] f'(1) show
    "j < length (flows (st\<lparr>stream_map := m, flows := (flows st)[i := f']\<rparr>)) \<and>
     flow_key (flows (st\<lparr>stream_map := m, flows := (flows st)[i := f']\<rparr>) ! j) = key \<and>
     keyed (flows (st\<lparr>stream_map := m, flows := (flows st)[i := f']\<rparr>) ! j)"
    by (cases "j = i") (auto simp: nth_list_update)
next
  fix f assume "f \<in> set (flows (st\<lparr>stream_map := m, flows := (flows st)[i := f']\<rparr>))"
  then have "f = f' \<or> f \<in> set (flows st)" using set_update_subset_insert [of "flows st" i f'] by auto
  then show "faithful hist f \<and> length (flow_queue f) \<le> PACKET_QUEUE"
    using serving_invD(2) [OF inv, of f] f' by auto
qed

lemma faithful_queue:
  assumes "faithful hist f" "flow_key f = packet_key p"
  shows "faithful (hist @ [p]) (f\<lparr>flow_queue := flow_queue f @ [p]\<rparr>)"
proof -
  obtain ps where ps: "subseq (ps @ flow_queue f) (filter (\<lambda>q. packet_key q = packet_key p) hist)"
    "if writer_at f = Sending then written (flow_out f) = flow_head (packet_key p) @ frames_of ps
     else prefix (written (flow_out f)) (flow_head (packet_key p) @ frames_of ps)"
    using assms(1) unfolding faithful_def assms(2) by blast
  have "subseq (ps @ flow_queue f @ [p]) (filter (\<lambda>q. packet_key q = packet_key p) (hist @ [p]))"
    using list_emb_append_mono [OF ps(1), of "[p]" "[p]"] by simp
  with ps(2) assms(2) show ?thesis unfolding faithful_def by (intro exI [of _ ps]) simp
qed

lemma serve_packet_inv:
  assumes inv: "serving_inv (st, hist)" and bi: "pred_option (\<lambda>k. written k = []) bi"
  shows "serving_inv (serve_packet bi p st, hist @ [p])"
proof -
  obtain r st1 where op: "open_stream bi (packet_key p) st = (r, st1)" by fastforce
  note o = open_stream_inv [OF inv bi op]
  show ?thesis
  proof (cases "\<exists>i. r = Some i \<and> writer_alive (flows st1 ! i) \<and> length (flow_queue (flows st1 ! i)) < PACKET_QUEUE")
    case False
    then have "serve_packet bi p st = st1" using op by (auto simp: serve_packet_def Let_def split: option.split)
    then show ?thesis using o serving_inv_more by simp
  next
    case True
    then obtain i where i: "r = Some i" "writer_alive (flows st1 ! i)"
      "length (flow_queue (flows st1 ! i)) < PACKET_QUEUE" by blast
    let ?f = "flows st1 ! i" and ?f' = "(flows st1 ! i)\<lparr>flow_queue := flow_queue (flows st1 ! i) @ [p]\<rparr>"
    have key: "i < length (flows st1)" "flow_key ?f = packet_key p" "keyed ?f"
      using serving_invD(1) [of st1 hist "packet_key p" i] o i(1) by auto
    from key(1) have "?f \<in> set (flows st1)" by simp
    with serving_invD(2) [of st1 hist ?f] o have "faithful hist ?f" by simp
    then have "faithful (hist @ [p]) ?f'" by (rule faithful_queue [OF _ key(2)])
    then have "serving_inv (st1\<lparr>stream_map := stream_map st1, flows := (flows st1)[i := ?f']\<rparr>, hist @ [p])"
      using i o key(3) by (intro serving_inv_update serving_inv_more) (auto simp: keyed_def)
    moreover have "serve_packet bi p st = st1\<lparr>stream_map := stream_map st1, flows := (flows st1)[i := ?f']\<rparr>"
      using op i by (simp add: serve_packet_def Let_def)
    ultimately show ?thesis by simp
  qed
qed

lemma subseq_append_left: "subseq (xs @ ys) zs \<Longrightarrow> subseq xs zs"
  by (rule subseq_order.trans [OF list_emb_prefix [OF subseq_order.refl]])

lemma faithful_cong:
  "flow_key g = flow_key f \<Longrightarrow> flow_queue g = flow_queue f \<Longrightarrow> flow_out g = flow_out f \<Longrightarrow>
     writer_at g = writer_at f \<Longrightarrow> faithful hist g = faithful hist f"
  unfolding faithful_def by (simp only:)

text \<open>Past its loop a writer owes no more than a prefix, and may drop its queue.\<close>

lemma faithful_past:
  assumes "faithful hist f" "flow_key g = flow_key f" "written (flow_out g) = written (flow_out f)"
    and "flow_queue g = flow_queue f \<or> flow_queue g = []" "writer_at g \<noteq> Sending"
  shows "faithful hist g"
proof -
  obtain ps where ps: "subseq (ps @ flow_queue f) (filter (\<lambda>r. packet_key r = flow_key f) hist)"
    "prefix (written (flow_out f)) (flow_head (flow_key f) @ frames_of ps)"
    using assms(1) by (auto simp: faithful_def split: if_splits)
  from ps(1) have "subseq (ps @ flow_queue g) (filter (\<lambda>r. packet_key r = flow_key f) hist)"
    using assms(4) subseq_append_left [of ps "flow_queue f"] by auto
  with ps(2) assms(2,3,5) show ?thesis by (auto simp: faithful_def intro!: exI [of _ ps])
qed

lemma flow_cut:
  assumes "faithful hist f" and "send_raw_to (flow_out f) (payload p) = (ok, k)"
    and "flow_queue f = p # q" and "writer_at f = Sending" and "ok \<or> ph \<noteq> Sending"
  shows "faithful hist (f\<lparr>flow_queue := q, flow_out := k, writer_at := ph\<rparr>)"
proof -
  obtain ps where ps: "subseq (ps @ p # q) (filter (\<lambda>r. packet_key r = flow_key f) hist)"
    "written (flow_out f) = flow_head (flow_key f) @ frames_of ps"
    using assms(1,3,4) by (auto simp: faithful_def)
  obtain part where part: "written k = written (flow_out f) @ part" "prefix part (raw_frame (payload p))"
    "ok \<longrightarrow> part = raw_frame (payload p)" using send_raw_prefix [OF assms(2)] by blast
  have "prefix (written k) (flow_head (flow_key f) @ frames_of (ps @ [p]))"
    using part ps(2) by simp
  then show ?thesis
    using ps part assms(5) unfolding faithful_def by (intro exI [of _ "ps @ [p]"]) auto
qed

lemma writer_send_inv:
  assumes inv: "serving_inv (st, hist)" and i: "i < length (flows st)" "writer_at (flows st ! i) = Sending"
  shows "serving_inv (writer_send i st, hist)"
proof -
  let ?f = "flows st ! i"
  have f: "faithful hist ?f" "length (flow_queue ?f) \<le> PACKET_QUEUE"
    using serving_invD(2) [OF inv, of ?f] i(1) by simp_all
  have upd: "serving_inv (st\<lparr>flows := (flows st)[i := f']\<rparr>, hist)"
    if "faithful hist f'" "flow_key f' = flow_key ?f" "length (flow_queue f') \<le> PACKET_QUEUE" "keyed f'" for f'
    using serving_inv_update [OF inv that(2,1,3), of "stream_map st"] that(4) by simp
  show ?thesis
  proof (cases "flow_queue ?f")
    case Nil
    have "faithful hist (?f\<lparr>writer_at := Leaving\<rparr>)" by (rule faithful_past [OF f(1)]) simp_all
    from upd [OF this] show ?thesis using Nil inv by (simp add: writer_send_def keyed_def Let_def)
  next
    case (Cons p q)
    obtain ok k where snd: "send_raw_to (flow_out ?f) (payload p) = (ok, k)" by fastforce
    note cut = flow_cut [OF f(1) snd Cons i(2), of "if ok then Sending else Leaving"]
    have same: "?f\<lparr>flow_queue := q, flow_out := k, writer_at := Sending\<rparr> = ?f\<lparr>flow_queue := q, flow_out := k\<rparr>"
      using i(2) by (cases ?f) simp
    have "writer_send i st = st\<lparr>flows := (flows st)[i := ?f\<lparr>flow_queue := q, flow_out := k,
        writer_at := if ok then Sending else Leaving\<rparr>]\<rparr>"
      using Cons snd by (cases ok) (simp_all add: writer_send_def Let_def same)
    then show ?thesis using upd [OF cut] f(2) Cons by (simp add: keyed_def)
  qed
qed

lemma writer_remove_inv:
  assumes inv: "serving_inv (st, hist)" and i: "i < length (flows st)"
  shows "serving_inv (writer_remove i st, hist)"
proof -
  let ?f = "flows st ! i"
  have f: "faithful hist ?f" "length (flow_queue ?f) \<le> PACKET_QUEUE"
    using serving_invD(2) [OF inv, of ?f] i by simp_all
  have gone: "((stream_map st)(flow_key ?f := None)) key = Some j \<Longrightarrow>
      stream_map st key = Some j \<and> j \<noteq> i" for key j
    using serving_invD(1) [OF inv, of key j] by (auto split: if_splits)
  have "faithful hist (?f\<lparr>writer_at := KeyRemoved\<rparr>)" by (rule faithful_past [OF f(1)]) simp_all
  then show ?thesis unfolding writer_remove_def
    using gone f(2) by (intro serving_inv_update [OF inv]) auto
qed

lemma writer_drop_inv:
  assumes inv: "serving_inv (st, hist)" and i: "i < length (flows st)" "writer_at (flows st ! i) = KeyRemoved"
  shows "serving_inv (writer_drop i st, hist)"
proof -
  let ?f = "flows st ! i"
  have f: "faithful hist ?f" using serving_invD(2) [OF inv, of ?f] i by simp
  have away: "stream_map st key = Some j \<Longrightarrow> j \<noteq> i" for key j
    using serving_invD(1) [OF inv, of key j] i(2) by (auto simp: keyed_def)
  let ?g = "?f\<lparr>flow_queue := [], flow_out := (flow_out ?f)\<lparr>finished := True\<rparr>, writer_at := WriterEnded\<rparr>"
  have "faithful hist ?g" by (rule faithful_past [OF f]) simp_all
  then have "serving_inv (st\<lparr>stream_map := stream_map st, flows := (flows st)[i := ?g]\<rparr>, hist)"
    using away by (intro serving_inv_update [OF inv]) auto
  then show ?thesis by (simp add: writer_drop_def Let_def)
qed

lemma reader_end_inv:
  assumes inv: "serving_inv (st, hist)" and i: "i < length (flows st)"
  shows "serving_inv (reader_end i st, hist)"
proof -
  let ?f = "flows st ! i"
  have f: "faithful hist ?f" "length (flow_queue ?f) \<le> PACKET_QUEUE"
    using serving_invD(2) [OF inv, of ?f] i by simp_all
  then have "faithful hist (?f\<lparr>reader_alive := False\<rparr>)" using faithful_cong [of "?f\<lparr>reader_alive := False\<rparr>" ?f] by simp
  then show ?thesis unfolding reader_end_def
    using f(2) serving_invD(1) [OF inv]
    by (intro serving_inv_update [OF inv]) (auto simp: keyed_def split: if_splits)
qed

interpretation udp_serving: invariant_system "\<lambda>s. s = (serving_empty, [])" serving_step serving_inv
proof (rule invariant_system.intro)
  show "serving_inv s" if "s = (serving_empty, [])" for s
    using that by (simp add: serving_inv_def serving_empty_def)
  show "serving_inv t" if "serving_inv s" and "serving_step s t" for s t
    using that(2,1)
  proof (induction rule: serving_step.induct)
    case (served bi st hist closed p)
    then show ?case by (simp add: serve_round_packet serve_packet_inv)
  qed (simp_all add: writer_send_inv writer_remove_inv writer_drop_inv reader_end_inv)
qed

text \<open>
  C12. Isolation of UDP flows, in every interleaving of the serving loop with its writer and
  reader tasks and with streams that fail at any byte: the map only leads to streams of the
  same flow whose writer's task is not over, so a datagram is never sent into a closed queue;
  and every stream carries its flow's target followed by datagrams of its own flow only, in
  the order in which they were received and none of them twice, whole as long as its writer
  is in its loop and possibly cut short afterwards.
\<close>

theorem flows_isolated:
  assumes "reachable (\<lambda>s. s = (serving_empty, [])) serving_step (st, hist)"
  shows "(\<forall>key i. stream_map st key = Some i \<longrightarrow>
      i < length (flows st) \<and> flow_key (flows st ! i) = key \<and> writer_alive (flows st ! i)) \<and>
    (\<forall>f \<in> set (flows st). \<exists>ps.
      subseq (ps @ flow_queue f) (filter (\<lambda>p. packet_key p = flow_key f) hist) \<and>
      prefix (written (flow_out f)) (flow_head (flow_key f) @ frames_of ps) \<and>
      (writer_at f = Sending \<longrightarrow> written (flow_out f) = flow_head (flow_key f) @ frames_of ps))"
proof -
  have inv: "serving_inv (st, hist)" using assms by (rule udp_serving.reachable_inv)
  have "\<exists>ps. subseq (ps @ flow_queue f) (filter (\<lambda>p. packet_key p = flow_key f) hist) \<and>
      prefix (written (flow_out f)) (flow_head (flow_key f) @ frames_of ps) \<and>
      (writer_at f = Sending \<longrightarrow> written (flow_out f) = flow_head (flow_key f) @ frames_of ps)"
    if "f \<in> set (flows st)" for f
    using serving_invD(2) [OF inv that] by (auto simp: faithful_def split: if_splits)
  then show ?thesis using serving_invD(1) [OF inv] keyed_alive by blast
qed

theorem flows_isolated_witness:
  "\<exists>ps. subseq (ps @ []) [example_packet [1, 2]] \<and>
     written (flow_out (flows (writer_send 0 (serve_packet (Some open_sink) (example_packet [1, 2]) serving_empty)) ! 0)) =
       flow_head (packet_key (example_packet [])) @ frames_of ps"
proof -
  let ?p = "example_packet [1, 2]"
  let ?s = "serve_packet (Some open_sink) ?p serving_empty"
  have key: "packet_key ?p = packet_key (example_packet [])" by (simp add: packet_key_def example_packet_def)
  have s: "?s = \<lparr>stream_map = flow_map (packet_key ?p), flows = [new_flow (packet_key ?p) [?p] (opened (packet_key ?p))]\<rparr>"
    using serve_packets [of "[?p]" "packet_key ?p"]
    by (simp add: PACKET_QUEUE_def packet_key_def example_packet_def)
  have r1: "reachable (\<lambda>s. s = (serving_empty, [])) serving_step (?s, [] @ [?p])"
    using served [of "Some open_sink" serving_empty "[]" False ?p]
    by (intro reach_step [OF reach_init]) (auto simp: serve_round_packet open_sink_def)
  have r2: "reachable (\<lambda>s. s = (serving_empty, [])) serving_step (writer_send 0 ?s, [] @ [?p])"
    by (rule reach_step [OF r1]) (rule wrote, simp_all add: s new_flow_def)
  have w: "writer_send 0 ?s = \<lparr>stream_map = flow_map (packet_key ?p), flows = [new_flow (packet_key ?p) []
      ((opened (packet_key ?p))\<lparr>written := written (opened (packet_key ?p)) @ concat (map (\<lambda>p. raw_frame (payload p)) [?p])\<rparr>)]\<rparr>"
    using writer_drains [of "opened (packet_key ?p)" "[?p]" "flow_map (packet_key ?p)" "packet_key ?p" "[]"] s by simp
  from flows_isolated [OF r2] show ?thesis unfolding w by (auto simp: new_flow_def key)
qed

end
