(* ===== verification/Udp_Bridge.thy ===== *)
theory Udp_Bridge
  imports Udp_Serving
begin

text \<open>
  The accepting side of \<^verbatim>\<open>src/src/udp/udp_tunnel.rs\<close>: the loops that accept the QUIC
  streams of a connection, and the bridge of all of them to one channel, where each stream
  has a local address of its own by which replies find their way back. Reading a stream,
  writing its replies, routing and accepting are tasks that interleave.
\<close>

section \<open>Accepting streams\<close>

datatype udp_accept_event = UAcceptTimedOut | UAcceptPeerClosed | UAcceptFailed | UAccepted sink instream

text \<open>The streams an accept loop hands to tasks of their own; every failure ends the loop.\<close>

fun accepted_streams :: "udp_accept_event list \<Rightarrow> (sink \<times> instream) list" where
  "accepted_streams (UAccepted k s # evs) = (k, s) # accepted_streams evs"
| "accepted_streams _ = []"

text \<open>
  \<^verbatim>\<open>create_peer_socket_and_exchange_data\<close>: a wildcard socket of the upstream's family,
  connected to it; both calls are given by whether they succeed.
\<close>

definition create_peer_socket ::
    "(socket_addr \<Rightarrow> bool) \<Rightarrow> (socket_addr \<Rightarrow> bool) \<Rightarrow> socket_addr \<Rightarrow> bool" where
  "create_peer_socket bind connect addr \<longleftrightarrow>
     bind (socket_addr_with_unspecified_ip_port (is_ipv6 addr)) \<and> connect addr"

record udp_connect_ctx =
  uctx_default_upstream :: "socket_addr option"
  uctx_timeout_ms :: u64

text \<open>
  What an accepting connection becomes: every stream handled on its own, or a bridge to the
  channel the connector gave (and whether that is told to stop afterwards), or nothing when
  the connector failed.
\<close>

datatype udp_accepting =
    Separate "(process_error + socket_addr \<times> bool \<times> bytes list) list"
  | Bridged "(sink \<times> instream) list" bool
  | ConnectorFailed

definition udp_start_accepting_with_connector ::
    "(string \<Rightarrow> u16 \<Rightarrow> socket_addr list option) \<Rightarrow> (socket_addr \<Rightarrow> bool) \<Rightarrow> (socket_addr \<Rightarrow> bool) \<Rightarrow>
     (nat \<Rightarrow> bool) \<Rightarrow> socket_addr option \<Rightarrow> u64 \<Rightarrow> (udp_connect_ctx \<Rightarrow> bool option) option \<Rightarrow>
     udp_accept_event list \<Rightarrow> udp_accepting" where
  "udp_start_accepting_with_connector lookup_host bind connect ok default_upstream timeout connector evs =
     (case connector of
        Some f \<Rightarrow>
          (case f \<lparr>uctx_default_upstream = default_upstream, uctx_timeout_ms = timeout\<rparr> of
             Some has_stop \<Rightarrow> Bridged (accepted_streams evs) has_stop
           | None \<Rightarrow> ConnectorFailed)
      | None \<Rightarrow>
          Separate (map (\<lambda>(_, s). process lookup_host (create_peer_socket bind connect) ok default_upstream s)
            (accepted_streams evs)))"

definition udp_start_accepting ::
    "(string \<Rightarrow> u16 \<Rightarrow> socket_addr list option) \<Rightarrow> (socket_addr \<Rightarrow> bool) \<Rightarrow> (socket_addr \<Rightarrow> bool) \<Rightarrow>
     (nat \<Rightarrow> bool) \<Rightarrow> socket_addr option \<Rightarrow> u64 \<Rightarrow> udp_accept_event list \<Rightarrow> udp_accepting" where
  "udp_start_accepting lookup_host bind connect ok upstream timeout evs =
     udp_start_accepting_with_connector lookup_host bind connect ok upstream timeout None evs"

definition udp_start_dynamic_accepting ::
    "(string \<Rightarrow> u16 \<Rightarrow> socket_addr list option) \<Rightarrow> (socket_addr \<Rightarrow> bool) \<Rightarrow> (socket_addr \<Rightarrow> bool) \<Rightarrow>
     (nat \<Rightarrow> bool) \<Rightarrow> socket_addr option \<Rightarrow> u64 \<Rightarrow> (udp_connect_ctx \<Rightarrow> bool option) option \<Rightarrow>
     udp_accept_event list \<Rightarrow> udp_accepting" where
  "udp_start_dynamic_accepting lookup_host bind connect ok default_upstream timeout connector evs =
     (case connector of
        Some f \<Rightarrow> udp_start_accepting_with_connector lookup_host bind connect ok default_upstream timeout (Some f) evs
      | None \<Rightarrow> udp_start_accepting lookup_host bind connect ok default_upstream timeout evs)"

section \<open>The bridge\<close>

text \<open>
  One stream of the bridge: what is still to be read of it, its target once read, its local
  address once it has one, whether its reading loop runs, its queue of replies, what its
  writer put on the stream, and whether the writer runs.
\<close>

record bridge =
  br_in :: instream
  br_target :: "tunnel_target option option"
  br_addr :: "socket_addr option"
  br_reading :: bool
  br_queue :: "udp_packet list"
  br_out :: sink
  br_writing :: bool

text \<open>
  All streams of a connection with the table they share, the packets handed to the channel,
  and the router: whether it runs, and the packet it is about to queue, with the stream it
  looked up for it.
\<close>

record bridging =
  table :: reply_table
  bridges :: "bridge list"
  to_channel :: "udp_packet list"
  router_on :: bool
  routing :: "(nat \<times> udp_packet) option"

definition bridging_start :: bridging where
  "bridging_start =
     \<lparr>table = \<lparr>reply_map = Map.empty, next_local_port = 10000\<rparr>, bridges = [], to_channel = [],
      router_on = True, routing = None\<rparr>"

definition set_bridge :: "nat \<Rightarrow> bridge \<Rightarrow> bridging \<Rightarrow> bridging" where
  "set_bridge i b st = st\<lparr>bridges := (bridges st)[i := b]\<rparr>"

definition bridge_accept :: "sink \<Rightarrow> instream \<Rightarrow> bridging \<Rightarrow> bridging" where
  "bridge_accept k s st =
     st\<lparr>bridges := bridges st @ [\<lparr>br_in = s, br_target = None, br_addr = None, br_reading = True,
        br_queue = [], br_out = k, br_writing = True\<rparr>]\<rparr>"

text \<open>The reading loop ends: its address, if it has one, leaves the table.\<close>

definition bridge_end :: "nat \<Rightarrow> bridging \<Rightarrow> bridging" where
  "bridge_end i st =
     (let b = bridges st ! i; st1 = set_bridge i (b\<lparr>br_reading := False\<rparr>) st
      in case br_addr b of
           None \<Rightarrow> st1
         | Some a \<Rightarrow> st1\<lparr>table := (table st)\<lparr>reply_map := (reply_map (table st))(a := None)\<rparr>\<rparr>)"

text \<open>The target comes first; a stream without one ends before it has an address.\<close>

definition bridge_read_target :: "nat \<Rightarrow> bridging \<Rightarrow> bridging" where
  "bridge_read_target i st =
     (let b = bridges st ! i in
      case read_optional_tunnel_target (br_in b) of
        Inl _ \<Rightarrow> set_bridge i (b\<lparr>br_reading := False\<rparr>) st
      | Inr (t, s) \<Rightarrow> set_bridge i (b\<lparr>br_in := s, br_target := Some t\<rparr>) st)"

text \<open>
  One datagram of the stream: the first reserves the address, each is handed to the channel
  (which may be closed: \<open>taken\<close>) with that address and the target. Without a free address
  the stream is given up.
\<close>

definition bridge_read :: "socket_addr option \<Rightarrow> bool \<Rightarrow> nat \<Rightarrow> bridging \<Rightarrow> bridging" where
  "bridge_read dflt taken i st =
     (let b = bridges st ! i in
      case br_target b of
        None \<Rightarrow> st
      | Some target \<Rightarrow>
          (case recv_raw_from (br_in b) (replicate UDP_PACKET_SIZE 0) of
             Inl _ \<Rightarrow> bridge_end i st
           | Inr (n, buf, s) \<Rightarrow>
               (case channel_local_addr (br_addr b) (target_family_is_ipv6 target dflt) i (table st) of
                  (None, t) \<Rightarrow> set_bridge i (b\<lparr>br_in := s, br_reading := False\<rparr>) (st\<lparr>table := t\<rparr>)
                | (Some a, t) \<Rightarrow>
                    set_bridge i (b\<lparr>br_in := s, br_addr := Some a\<rparr>)
                      (st\<lparr>table := t,
                         to_channel := to_channel st @
                           (if taken then [\<lparr>payload = take (unat n) buf, local_addr = a, peer_addr = target\<rparr>]
                            else [])\<rparr>))))"

text \<open>
  The router takes a message of the channel: a packet whose address is in the table is kept
  for the stream found there, any other is dropped, and \<open>UQuit\<close> ends the router.
\<close>

definition route :: "udp_message \<Rightarrow> bridging \<Rightarrow> bridging" where
  "route msg st =
     (case msg of
        UQuit \<Rightarrow> st\<lparr>router_on := False\<rparr>
      | Packet p \<Rightarrow>
          (case reply_map (table st) (local_addr p) of
             None \<Rightarrow> st
           | Some i \<Rightarrow> st\<lparr>routing := Some (i, p)\<rparr>))"

text \<open>It queues the packet; when the stream's writer is gone the packet is lost.\<close>

definition deliver :: "nat \<Rightarrow> udp_packet \<Rightarrow> bridging \<Rightarrow> bridging" where
  "deliver i p st =
     (let b = bridges st ! i
      in (if br_writing b then set_bridge i (b\<lparr>br_queue := br_queue b @ [p]\<rparr>) st else st)\<lparr>routing := None\<rparr>)"

definition bridge_write :: "nat \<Rightarrow> bridging \<Rightarrow> bridging" where
  "bridge_write i st =
     (let b = bridges st ! i in
      case br_queue b of
        [] \<Rightarrow> set_bridge i (b\<lparr>br_writing := False\<rparr>) st
      | p # q \<Rightarrow>
          (case send_raw_to (br_out b) (payload p) of
             (True, k) \<Rightarrow> set_bridge i (b\<lparr>br_queue := q, br_out := k\<rparr>) st
           | (False, k) \<Rightarrow> set_bridge i (b\<lparr>br_queue := [], br_out := k, br_writing := False\<rparr>) st))"

text \<open>
  The steps. A delivery waits for room in the queue, and a writer with an empty queue ends
  only when the reading loop, the table and the router have dropped their senders.
\<close>

inductive bridge_step :: "bridging \<Rightarrow> bridging \<Rightarrow> bool" where
  accepts: "written k = [] \<Longrightarrow> bridge_step st (bridge_accept k s st)"
| targets: "i < length (bridges st) \<Longrightarrow> br_reading (bridges st ! i) \<Longrightarrow> br_target (bridges st ! i) = None \<Longrightarrow>
    bridge_step st (bridge_read_target i st)"
| reads: "i < length (bridges st) \<Longrightarrow> br_reading (bridges st ! i) \<Longrightarrow>
    bridge_step st (bridge_read dflt taken i st)"
| ends: "i < length (bridges st) \<Longrightarrow> br_reading (bridges st ! i) \<Longrightarrow> bridge_step st (bridge_end i st)"
| routes: "router_on st \<Longrightarrow> routing st = None \<Longrightarrow> bridge_step st (route msg st)"
| delivers: "routing st = Some (i, p) \<Longrightarrow>
    \<not> br_writing (bridges st ! i) \<or> length (br_queue (bridges st ! i)) < PACKET_QUEUE \<Longrightarrow>
    bridge_step st (deliver i p st)"
| writes: "i < length (bridges st) \<Longrightarrow> br_writing (bridges st ! i) \<Longrightarrow>
    br_queue (bridges st ! i) \<noteq> [] \<or> \<not> br_reading (bridges st ! i) \<and> i \<notin> ran (reply_map (table st)) \<and>
      (\<forall>p. routing st \<noteq> Some (i, p)) \<Longrightarrow>
    bridge_step st (bridge_write i st)"

section \<open>The invariant\<close>

text \<open>What a stream sent back: replies to its own address only.\<close>

definition answered :: "bridge \<Rightarrow> bool" where
  "answered b \<longleftrightarrow>
     (\<forall>p \<in> set (br_queue b). br_addr b = Some (local_addr p)) \<and>
     (\<exists>ps. (\<forall>p \<in> set ps. br_addr b = Some (local_addr p)) \<and> prefix (written (br_out b)) (frames_of ps) \<and>
        (br_writing b \<longrightarrow> written (br_out b) = frames_of ps))"

definition bridging_inv :: "bridging \<Rightarrow> bool" where
  "bridging_inv st \<longleftrightarrow>
     (\<forall>a i. reply_map (table st) a = Some i \<longleftrightarrow>
        i < length (bridges st) \<and> br_reading (bridges st ! i) \<and> br_addr (bridges st ! i) = Some a) \<and>
     (\<forall>b \<in> set (bridges st). answered b) \<and>
     (\<forall>i p. routing st = Some (i, p) \<longrightarrow>
        i < length (bridges st) \<and> br_addr (bridges st ! i) = Some (local_addr p)) \<and>
     (\<forall>p \<in> set (to_channel st). \<exists>b \<in> set (bridges st).
        br_addr b = Some (local_addr p) \<and> br_target b = Some (peer_addr p)) \<and>
     (\<forall>b \<in> set (bridges st). br_addr b \<noteq> None \<longrightarrow> br_target b \<noteq> None)"

lemma bridging_invD:
  assumes "bridging_inv st"
  shows "reply_map (table st) a = Some i \<longleftrightarrow>
      i < length (bridges st) \<and> br_reading (bridges st ! i) \<and> br_addr (bridges st ! i) = Some a"
    and "i < length (bridges st) \<Longrightarrow> answered (bridges st ! i)"
    and "routing st = Some (i, p) \<Longrightarrow> i < length (bridges st) \<and> br_addr (bridges st ! i) = Some (local_addr p)"
    and "p \<in> set (to_channel st) \<Longrightarrow> \<exists>j < length (bridges st).
      br_addr (bridges st ! j) = Some (local_addr p) \<and> br_target (bridges st ! j) = Some (peer_addr p)"
    and "i < length (bridges st) \<Longrightarrow> br_target (bridges st ! i) = None \<Longrightarrow> br_addr (bridges st ! i) = None"
proof -
  show "reply_map (table st) a = Some i \<longleftrightarrow>
      i < length (bridges st) \<and> br_reading (bridges st ! i) \<and> br_addr (bridges st ! i) = Some a"
    using assms by (simp add: bridging_inv_def)
  show "answered (bridges st ! i)" if "i < length (bridges st)"
    using assms that by (simp add: bridging_inv_def)
  show "i < length (bridges st) \<and> br_addr (bridges st ! i) = Some (local_addr p)" if "routing st = Some (i, p)"
    using assms that by (simp add: bridging_inv_def)
  show "\<exists>j < length (bridges st). br_addr (bridges st ! j) = Some (local_addr p) \<and>
      br_target (bridges st ! j) = Some (peer_addr p)" if "p \<in> set (to_channel st)"
  proof -
    from assms that obtain b where "b \<in> set (bridges st)" "br_addr b = Some (local_addr p)"
      "br_target b = Some (peer_addr p)" unfolding bridging_inv_def by blast
    then show ?thesis by (metis in_set_conv_nth)
  qed
  show "br_addr (bridges st ! i) = None" if "i < length (bridges st)" "br_target (bridges st ! i) = None"
    using assms that by (auto simp: bridging_inv_def)
qed

lemma bridging_invI:
  assumes "\<And>a i. reply_map (table st) a = Some i \<longleftrightarrow>
      i < length (bridges st) \<and> br_reading (bridges st ! i) \<and> br_addr (bridges st ! i) = Some a"
    and "\<And>i. i < length (bridges st) \<Longrightarrow> answered (bridges st ! i)"
    and "\<And>i p. routing st = Some (i, p) \<Longrightarrow> i < length (bridges st) \<and> br_addr (bridges st ! i) = Some (local_addr p)"
    and "\<And>p. p \<in> set (to_channel st) \<Longrightarrow> \<exists>j < length (bridges st).
      br_addr (bridges st ! j) = Some (local_addr p) \<and> br_target (bridges st ! j) = Some (peer_addr p)"
    and "\<And>i. i < length (bridges st) \<Longrightarrow> br_target (bridges st ! i) = None \<Longrightarrow> br_addr (bridges st ! i) = None"
  shows "bridging_inv st"
proof -
  have "\<exists>b \<in> set (bridges st). br_addr b = Some (local_addr p) \<and> br_target b = Some (peer_addr p)"
    if "p \<in> set (to_channel st)" for p using assms(4) [OF that] nth_mem by blast
  moreover have "answered b \<and> (br_addr b \<noteq> None \<longrightarrow> br_target b \<noteq> None)" if "b \<in> set (bridges st)" for b
  proof -
    from that obtain i where i: "i < length (bridges st)" "b = bridges st ! i" by (auto simp: in_set_conv_nth)
    show ?thesis using assms(2) [OF i(1)] assms(5) [OF i(1)] i(2) by (cases "br_target b") auto
  qed
  ultimately show ?thesis using assms(1,3) unfolding bridging_inv_def by blast
qed

text \<open>A stream without an address has been sent nothing.\<close>

lemma answered_no_addr: "answered b \<Longrightarrow> br_addr b = None \<Longrightarrow> br_queue b = [] \<and> written (br_out b) = []"
proof -
  assume b: "answered b" "br_addr b = None"
  then obtain ps where ps: "\<forall>p \<in> set ps. br_addr b = Some (local_addr p)" "prefix (written (br_out b)) (frames_of ps)"
    by (auto simp: answered_def)
  from ps(1) b(2) have "ps = []" by (cases ps) auto
  moreover from b have "br_queue b = []" by (cases "br_queue b") (auto simp: answered_def)
  ultimately show ?thesis using ps(2) by simp
qed

lemma answered_fresh: "br_queue b = [] \<Longrightarrow> written (br_out b) = [] \<Longrightarrow> answered b"
  by (auto simp: answered_def intro!: exI [of _ "[]"])

lemma answered_cong:
  "br_queue c = br_queue b \<Longrightarrow> br_addr c = br_addr b \<Longrightarrow> br_out c = br_out b \<Longrightarrow>
     br_writing c = br_writing b \<Longrightarrow> answered c = answered b"
  unfolding answered_def by (simp only:)

text \<open>
  Replacing one stream's record keeps the invariant when the table, the channel and the router
  agree with the new record.
\<close>

lemma set_bridge_inv:
  assumes inv: "bridging_inv st" and i: "i < length (bridges st)"
    and b: "answered b" "br_target b = None \<Longrightarrow> br_addr b = None"
      "\<And>x. br_addr (bridges st ! i) = Some x \<Longrightarrow> br_addr b = Some x"
      "\<And>x. br_target (bridges st ! i) = Some x \<Longrightarrow> br_target b = Some x"
    and m: "\<And>a j. m a = Some j \<longleftrightarrow>
        (if j = i then br_reading b \<and> br_addr b = Some a else reply_map (table st) a = Some j)"
    and ch: "\<And>p. p \<in> set ch \<Longrightarrow> p \<in> set (to_channel st) \<or>
        br_addr b = Some (local_addr p) \<and> br_target b = Some (peer_addr p)"
    and st': "bridges st' = (bridges st)[i := b]" "reply_map (table st') = m" "to_channel st' = ch"
      "routing st' = None \<or> routing st' = routing st"
  shows "bridging_inv st'"
proof (rule bridging_invI)
  fix a j show "reply_map (table st') a = Some j \<longleftrightarrow>
      j < length (bridges st') \<and> br_reading (bridges st' ! j) \<and> br_addr (bridges st' ! j) = Some a"
    using m [of a j] bridging_invD(1) [OF inv, of a j] i by (auto simp: st')
next
  fix j assume "j < length (bridges st')"
  then show "answered (bridges st' ! j)"
    using bridging_invD(2) [OF inv, of j] b(1) by (cases "j = i") (auto simp: st')
next
  fix j p assume "routing st' = Some (j, p)"
  then have "routing st = Some (j, p)" using st'(4) by auto
  from bridging_invD(3) [OF inv this] show "j < length (bridges st') \<and> br_addr (bridges st' ! j) = Some (local_addr p)"
    using b(3) i by (cases "j = i") (auto simp: st')
next
  fix p assume "p \<in> set (to_channel st')"
  then consider "p \<in> set (to_channel st)" | "br_addr b = Some (local_addr p)" "br_target b = Some (peer_addr p)"
    using ch st'(3) by auto
  then show "\<exists>j < length (bridges st'). br_addr (bridges st' ! j) = Some (local_addr p) \<and>
      br_target (bridges st' ! j) = Some (peer_addr p)"
  proof cases
    case 1
    from bridging_invD(4) [OF inv this] obtain j where "j < length (bridges st)"
      "br_addr (bridges st ! j) = Some (local_addr p)" "br_target (bridges st ! j) = Some (peer_addr p)" by blast
    then show ?thesis using b(3,4) i by (intro exI [of _ j]) (cases "j = i", auto simp: st')
  next
    case 2
    then show ?thesis using i by (intro exI [of _ i]) (simp add: st')
  qed
next
  fix j assume "j < length (bridges st')" "br_target (bridges st' ! j) = None"
  then show "br_addr (bridges st' ! j) = None"
    using bridging_invD(5) [OF inv, of j] b(2) by (cases "j = i") (auto simp: st')
qed

lemma bridge_accept_inv:
  assumes inv: "bridging_inv st" and k: "written k = []"
  shows "bridging_inv (bridge_accept k s st)"
proof (rule bridging_invI)
  fix a i show "reply_map (table (bridge_accept k s st)) a = Some i \<longleftrightarrow>
      i < length (bridges (bridge_accept k s st)) \<and> br_reading (bridges (bridge_accept k s st) ! i) \<and>
      br_addr (bridges (bridge_accept k s st) ! i) = Some a"
    using bridging_invD(1) [OF inv, of a i] by (auto simp: bridge_accept_def nth_append less_Suc_eq)
next
  fix i assume "i < length (bridges (bridge_accept k s st))"
  then show "answered (bridges (bridge_accept k s st) ! i)"
    using bridging_invD(2) [OF inv, of i] k by (auto simp: bridge_accept_def nth_append less_Suc_eq intro: answered_fresh)
next
  fix i p assume "routing (bridge_accept k s st) = Some (i, p)"
  then show "i < length (bridges (bridge_accept k s st)) \<and>
      br_addr (bridges (bridge_accept k s st) ! i) = Some (local_addr p)"
    using bridging_invD(3) [OF inv, of i p] by (auto simp: bridge_accept_def nth_append)
next
  fix p assume "p \<in> set (to_channel (bridge_accept k s st))"
  then obtain j where "j < length (bridges st)" "br_addr (bridges st ! j) = Some (local_addr p)"
    "br_target (bridges st ! j) = Some (peer_addr p)"
    using bridging_invD(4) [OF inv, of p] by (auto simp: bridge_accept_def)
  then show "\<exists>j < length (bridges (bridge_accept k s st)).
      br_addr (bridges (bridge_accept k s st) ! j) = Some (local_addr p) \<and>
      br_target (bridges (bridge_accept k s st) ! j) = Some (peer_addr p)"
    by (intro exI [of _ j]) (auto simp: bridge_accept_def nth_append)
next
  fix i assume "i < length (bridges (bridge_accept k s st))" "br_target (bridges (bridge_accept k s st) ! i) = None"
  then show "br_addr (bridges (bridge_accept k s st) ! i) = None"
    using bridging_invD(5) [OF inv, of i] by (auto simp: bridge_accept_def nth_append less_Suc_eq)
qed

lemma bridge_end_inv:
  assumes inv: "bridging_inv st" and i: "i < length (bridges st)" and reading: "br_reading (bridges st ! i)"
  shows "bridging_inv (bridge_end i st)"
proof -
  let ?b = "bridges st ! i"
  let ?m = "case br_addr ?b of None \<Rightarrow> reply_map (table st) | Some a \<Rightarrow> (reply_map (table st))(a := None)"
  have m: "?m a = Some j \<longleftrightarrow> (if j = i then False else reply_map (table st) a = Some j)" for a j
    using bridging_invD(1) [OF inv, of a j] bridging_invD(1) [OF inv, of a i] i reading
    by (cases "br_addr ?b") (auto split: if_splits)
  show ?thesis
  proof (rule set_bridge_inv [OF inv i, where b = "?b\<lparr>br_reading := False\<rparr>" and m = ?m and ch = "to_channel st"])
    show "answered (?b\<lparr>br_reading := False\<rparr>)"
      using bridging_invD(2) [OF inv i] answered_cong [of "?b\<lparr>br_reading := False\<rparr>" ?b] by simp
  qed (use m bridging_invD(5) [OF inv i] in
      \<open>auto simp: bridge_end_def set_bridge_def Let_def split: option.splits\<close>)
qed

lemma bridge_read_target_inv:
  assumes inv: "bridging_inv st" and i: "i < length (bridges st)" "br_target (bridges st ! i) = None"
  shows "bridging_inv (bridge_read_target i st)"
proof -
  let ?b = "bridges st ! i"
  have none: "br_addr ?b = None" by (rule bridging_invD(5) [OF inv i])
  note ans = answered_no_addr [OF bridging_invD(2) [OF inv i(1)] none]
  have m: "reply_map (table st) a \<noteq> Some i" for a
    using bridging_invD(1) [OF inv, of a i] none by auto
  have keep: "bridging_inv (set_bridge i b st)"
    if "br_queue b = br_queue ?b" "br_out b = br_out ?b" "br_addr b = None" for b
    using that m ans i none
    by (intro set_bridge_inv [OF inv i(1), where b = b and m = "reply_map (table st)" and ch = "to_channel st"])
      (auto simp: set_bridge_def intro: answered_fresh)
  show ?thesis
    unfolding bridge_read_target_def Let_def using none by (auto split: sum.split intro!: keep)
qed

lemma bridge_read_inv:
  assumes inv: "bridging_inv st" and i: "i < length (bridges st)" "br_reading (bridges st ! i)"
  shows "bridging_inv (bridge_read dflt taken i st)"
proof -
  let ?b = "bridges st ! i"
  show ?thesis
  proof (cases "\<exists>target n buf s. br_target ?b = Some target \<and>
      recv_raw_from (br_in ?b) (replicate UDP_PACKET_SIZE 0) = Inr (n, buf, s)")
    case False
    then have "bridge_read dflt taken i st = st \<or> bridge_read dflt taken i st = bridge_end i st"
      by (auto simp: bridge_read_def Let_def split: option.split sum.split)
    then show ?thesis using inv bridge_end_inv [OF inv i] by auto
  next
    case True
    then obtain target n buf s where t: "br_target ?b = Some target"
      and recv: "recv_raw_from (br_in ?b) (replicate UDP_PACKET_SIZE 0) = Inr (n, buf, s)" by blast
    obtain r tb where cla: "channel_local_addr (br_addr ?b) (target_family_is_ipv6 target dflt) i (table st) = (r, tb)"
      by fastforce
    let ?ch = "\<lambda>a. to_channel st @
      (if taken then [\<lparr>payload = take (unat n) buf, local_addr = a, peer_addr = target\<rparr>] else [])"
    show ?thesis
    proof (cases r)
      case None
      then have none: "br_addr ?b = None" and tb: "reply_map tb = reply_map (table st)"
        using cla reserved_addr [of "target_family_is_ipv6 target dflt" i "table st" None tb]
        by (auto simp: channel_local_addr_def split: option.splits)
      note ans = answered_no_addr [OF bridging_invD(2) [OF inv i(1)] none]
      have "bridge_read dflt taken i st = set_bridge i (?b\<lparr>br_in := s, br_reading := False\<rparr>) (st\<lparr>table := tb\<rparr>)"
        using t recv cla None by (simp add: bridge_read_def Let_def)
      moreover have "bridging_inv \<dots>"
      proof (rule set_bridge_inv [OF inv i(1), where b = "?b\<lparr>br_in := s, br_reading := False\<rparr>" and
            m = "reply_map (table st)" and ch = "to_channel st"])
        show "reply_map (table st) a = Some j \<longleftrightarrow>
            (if j = i then br_reading (?b\<lparr>br_in := s, br_reading := False\<rparr>) \<and>
               br_addr (?b\<lparr>br_in := s, br_reading := False\<rparr>) = Some a
             else reply_map (table st) a = Some j)" for a j
          using bridging_invD(1) [OF inv, of a j] none by auto
      qed (use ans none tb in \<open>auto simp: set_bridge_def intro: answered_fresh\<close>)
      ultimately show ?thesis by simp
    next
      case (Some a)
      let ?c = "?b\<lparr>br_in := s, br_addr := Some a\<rparr>"
      have "bridge_read dflt taken i st = set_bridge i ?c (st\<lparr>table := tb, to_channel := ?ch a\<rparr>)"
        using t recv cla Some by (simp add: bridge_read_def Let_def)
      moreover have "bridging_inv \<dots>"
      proof (rule set_bridge_inv [OF inv i(1), where b = ?c and m = "reply_map tb" and ch = "?ch a"])
        show "answered ?c"
        proof (cases "br_addr ?b")
          case None
          then show ?thesis using answered_no_addr [OF bridging_invD(2) [OF inv i(1)] None]
            by (auto intro: answered_fresh)
        next
          case (Some x)
          then have "x = a" using cla \<open>r = Some a\<close> by (simp add: channel_local_addr_def)
          then show ?thesis using bridging_invD(2) [OF inv i(1)] answered_cong [of ?c ?b] Some by simp
        qed
        show "reply_map tb x = Some j \<longleftrightarrow>
            (if j = i then br_reading ?c \<and> br_addr ?c = Some x else reply_map (table st) x = Some j)" for x j
          using bridging_invD(1) [OF inv, of x j] i cla Some
            reserved_addr [of "target_family_is_ipv6 target dflt" i "table st" "Some a" tb]
          by (cases "br_addr ?b") (auto simp: channel_local_addr_def)
        show "\<And>x. br_addr ?b = Some x \<Longrightarrow> br_addr ?c = Some x"
          using cla Some by (simp add: channel_local_addr_def)
      qed (use t in \<open>auto simp: set_bridge_def split: if_splits\<close>)
      ultimately show ?thesis by simp
    qed
  qed
qed

lemma bridge_keep:
  assumes inv: "bridging_inv st" and i: "i < length (bridges st)"
    and b: "answered b" "br_addr b = br_addr (bridges st ! i)" "br_target b = br_target (bridges st ! i)"
      "br_reading b = br_reading (bridges st ! i)"
    and st': "bridges st' = (bridges st)[i := b]" "table st' = table st" "to_channel st' = to_channel st"
      "routing st' = None \<or> routing st' = routing st"
  shows "bridging_inv st'"
proof (rule set_bridge_inv [OF inv i b(1), where m = "reply_map (table st)" and ch = "to_channel st"])
  show "reply_map (table st) a = Some j \<longleftrightarrow>
      (if j = i then br_reading b \<and> br_addr b = Some a else reply_map (table st) a = Some j)" for a j
    using bridging_invD(1) [OF inv, of a j] i b by auto
  show "br_target b = None \<Longrightarrow> br_addr b = None" using bridging_invD(5) [OF inv i] b by simp
qed (use b st' in auto)

lemma deliver_inv:
  assumes inv: "bridging_inv st" and r: "routing st = Some (i, p)"
  shows "bridging_inv (deliver i p st)"
proof -
  let ?b = "bridges st ! i"
  note ip = bridging_invD(3) [OF inv r]
  have "answered ?b" using bridging_invD(2) [OF inv, of i] ip by simp
  then have ans: "answered (?b\<lparr>br_queue := br_queue ?b @ [p]\<rparr>)"
    using ip by (auto simp: answered_def)
  show ?thesis
  proof (cases "br_writing ?b")
    case True
    then show ?thesis using ans ip
      by (intro bridge_keep [OF inv, of i "?b\<lparr>br_queue := br_queue ?b @ [p]\<rparr>"])
        (auto simp: deliver_def set_bridge_def Let_def)
  next
    case False
    then show ?thesis using \<open>answered ?b\<close> ip
      by (intro bridge_keep [OF inv, of i ?b]) (auto simp: deliver_def Let_def)
  qed
qed

lemma bridge_write_inv:
  assumes inv: "bridging_inv st" and i: "i < length (bridges st)" "br_writing (bridges st ! i)"
  shows "bridging_inv (bridge_write i st)"
proof -
  let ?b = "bridges st ! i"
  have ans: "answered ?b" by (rule bridging_invD(2) [OF inv i(1)])
  then obtain ps where q: "\<forall>p \<in> set (br_queue ?b). br_addr ?b = Some (local_addr p)"
    and ps: "\<forall>p \<in> set ps. br_addr ?b = Some (local_addr p)" "written (br_out ?b) = frames_of ps"
    using i(2) by (auto simp: answered_def)
  show ?thesis
  proof (cases "br_queue ?b")
    case Nil
    have "answered (?b\<lparr>br_writing := False\<rparr>)" using ans by (auto simp: answered_def)
    then show ?thesis using Nil
      by (intro bridge_keep [OF inv i(1), of "?b\<lparr>br_writing := False\<rparr>"])
        (auto simp: bridge_write_def set_bridge_def Let_def)
  next
    case (Cons p rest)
    obtain ok k where snd: "send_raw_to (br_out ?b) (payload p) = (ok, k)" by fastforce
    from send_raw_prefix [OF this] obtain part where part: "written k = written (br_out ?b) @ part"
      "prefix part (raw_frame (payload p))" "ok \<longrightarrow> part = raw_frame (payload p)" by blast
    let ?c = "if ok then ?b\<lparr>br_queue := rest, br_out := k\<rparr> else ?b\<lparr>br_queue := [], br_out := k, br_writing := False\<rparr>"
    have "answered ?c" unfolding answered_def
    proof (intro conjI exI [of _ "ps @ [p]"])
      show "\<forall>r \<in> set (br_queue ?c). br_addr ?c = Some (local_addr r)" using q Cons by auto
      show "\<forall>r \<in> set (ps @ [p]). br_addr ?c = Some (local_addr r)" using q ps(1) Cons by simp
      show "prefix (written (br_out ?c)) (frames_of (ps @ [p]))" using part ps(2) by simp
      show "br_writing ?c \<longrightarrow> written (br_out ?c) = frames_of (ps @ [p])" using part ps(2) by simp
    qed
    moreover have "bridge_write i st = set_bridge i ?c st"
      using Cons snd by (cases ok) (simp_all add: bridge_write_def Let_def)
    ultimately show ?thesis
      by (intro bridge_keep [OF inv i(1), of ?c]) (auto simp: set_bridge_def)
  qed
qed

lemma route_inv:
  assumes inv: "bridging_inv st"
  shows "bridging_inv (route msg st)"
proof (rule bridging_invI)
  fix i p assume r: "routing (route msg st) = Some (i, p)"
  show "i < length (bridges (route msg st)) \<and> br_addr (bridges (route msg st) ! i) = Some (local_addr p)"
  proof (cases msg)
    case (Packet q)
    then show ?thesis using r bridging_invD(3) [OF inv, of i p] bridging_invD(1) [OF inv, of "local_addr q" i]
      by (auto simp: route_def split: option.splits)
  next
    case UQuit
    then show ?thesis using r bridging_invD(3) [OF inv, of i p] by (auto simp: route_def)
  qed
qed (use bridging_invD [OF inv] in \<open>auto simp: route_def split: udp_message.splits option.splits\<close>)

interpretation udp_bridging: invariant_system "\<lambda>st. st = bridging_start" bridge_step bridging_inv
proof (rule invariant_system.intro)
  show "bridging_inv st" if "st = bridging_start" for st
    using that by (simp add: bridging_inv_def bridging_start_def)
  show "bridging_inv t" if "bridging_inv s" and "bridge_step s t" for s t
    using that(2,1)
    by (induction rule: bridge_step.induct)
      (simp_all add: bridge_accept_inv bridge_read_target_inv bridge_read_inv bridge_end_inv
        route_inv deliver_inv bridge_write_inv)
qed

text \<open>
  C13. Replies through the bridge, in every interleaving of its tasks: two streams that are
  being read never have the same local address; every packet handed to the channel carries
  the address and the target of one of the streams; and what is queued for or written to a
  stream are replies to that stream's own address, so a reply never reaches another flow
  that holds an address at the same time.
\<close>

theorem replies_routed:
  assumes "reachable (\<lambda>st. st = bridging_start) bridge_step st"
  shows "(\<forall>i j a. i < length (bridges st) \<and> j < length (bridges st) \<and>
        br_reading (bridges st ! i) \<and> br_reading (bridges st ! j) \<and>
        br_addr (bridges st ! i) = Some a \<and> br_addr (bridges st ! j) = Some a \<longrightarrow> i = j) \<and>
    (\<forall>p \<in> set (to_channel st). \<exists>b \<in> set (bridges st).
        br_addr b = Some (local_addr p) \<and> br_target b = Some (peer_addr p)) \<and>
    (\<forall>b \<in> set (bridges st).
        (\<forall>p \<in> set (br_queue b). br_addr b = Some (local_addr p)) \<and>
        (\<exists>ps. (\<forall>p \<in> set ps. br_addr b = Some (local_addr p)) \<and>
           prefix (written (br_out b)) (frames_of ps) \<and>
           (br_writing b \<longrightarrow> written (br_out b) = frames_of ps)))"
proof -
  have inv: "bridging_inv st" using assms by (rule udp_bridging.reachable_inv)
  have "i = j" if "i < length (bridges st)" "br_reading (bridges st ! i)" "br_addr (bridges st ! i) = Some a"
    "j < length (bridges st)" "br_reading (bridges st ! j)" "br_addr (bridges st ! j) = Some a" for i j a
    using bridging_invD(1) [OF inv, of a i] bridging_invD(1) [OF inv, of a j] that by simp
  moreover have "(\<forall>p \<in> set (br_queue b). br_addr b = Some (local_addr p)) \<and>
      (\<exists>ps. (\<forall>p \<in> set ps. br_addr b = Some (local_addr p)) \<and> prefix (written (br_out b)) (frames_of ps) \<and>
         (br_writing b \<longrightarrow> written (br_out b) = frames_of ps))"
    if "b \<in> set (bridges st)" for b
    using inv that unfolding bridging_inv_def answered_def by blast
  moreover have "\<forall>p \<in> set (to_channel st). \<exists>b \<in> set (bridges st).
      br_addr b = Some (local_addr p) \<and> br_target b = Some (peer_addr p)"
    using inv unfolding bridging_inv_def by blast
  ultimately show ?thesis by blast
qed

definition example_reply :: udp_packet where
  "example_reply = \<lparr>payload = [5], local_addr = V4 0 10000, peer_addr = None\<rparr>"

definition example_read :: bridging where
  "example_read = bridge_read None True 0 (bridge_read_target 0
     (bridge_accept open_sink \<lparr>avail = target_frame None @ raw_frame [1], tail_of = Stalled\<rparr> bridging_start))"

definition example_answered :: bridging where
  "example_answered = deliver 0 example_reply (route (Packet example_reply) example_read)"

lemma reserve_first_port:
  "reserve_channel_local_addr False i \<lparr>reply_map = Map.empty, next_local_port = 10000\<rparr> =
     (Some (V4 0 10000), \<lparr>reply_map = Map.empty(V4 0 10000 \<mapsto> i), next_local_port = 10001\<rparr>)"
proof -
  have "(65535 :: nat) = Suc 65534" by simp
  then show ?thesis
    by (simp only: reserve_channel_local_addr_def reserve_loop.simps)
      (simp add: Let_def channel_local_addr_for_port_def)
qed

lemma example_read_value:
  "example_read = \<lparr>table = \<lparr>reply_map = Map.empty(V4 0 10000 \<mapsto> 0), next_local_port = 10001\<rparr>,
     bridges = [\<lparr>br_in = \<lparr>avail = [], tail_of = Stalled\<rparr>, br_target = Some None,
       br_addr = Some (V4 0 10000), br_reading = True, br_queue = [], br_out = open_sink, br_writing = True\<rparr>],
     to_channel = [\<lparr>payload = [1], local_addr = V4 0 10000, peer_addr = None\<rparr>], router_on = True,
     routing = None\<rparr>"
  using read_optional_target_frame [of None "raw_frame [1]" Stalled]
    recv_raw_next [of "[1]" "replicate UDP_PACKET_SIZE 0" "[]" Stalled]
  by (simp add: example_read_def bridge_accept_def bridging_start_def bridge_read_target_def set_bridge_def
      bridge_read_def channel_local_addr_def reserve_first_port target_family_is_ipv6_def
      UDP_PACKET_SIZE_def Let_def)

theorem replies_routed_witness:
  "br_queue (bridges example_answered ! 0) = [example_reply] \<and>
   (\<exists>ps. written (br_out (bridges example_answered ! 0)) = frames_of ps)"
proof -
  let ?s1 = "bridge_accept open_sink \<lparr>avail = target_frame None @ raw_frame [1], tail_of = Stalled\<rparr> bridging_start"
  have "reachable (\<lambda>st. st = bridging_start) bridge_step ?s1"
    by (rule reach_step [OF reach_init]) (rule refl, rule accepts, simp add: open_sink_def)
  then have "reachable (\<lambda>st. st = bridging_start) bridge_step (bridge_read_target 0 ?s1)"
    by (rule reach_step) (rule targets, simp_all add: bridge_accept_def bridging_start_def)
  then have "reachable (\<lambda>st. st = bridging_start) bridge_step example_read"
    unfolding example_read_def
    by (rule reach_step) (rule reads, use read_optional_target_frame [of None "raw_frame [1]" Stalled] in
        \<open>simp_all add: bridge_accept_def bridging_start_def bridge_read_target_def set_bridge_def Let_def\<close>)
  then have "reachable (\<lambda>st. st = bridging_start) bridge_step (route (Packet example_reply) example_read)"
    by (rule reach_step) (rule routes, simp_all add: example_read_value)
  moreover have routed: "route (Packet example_reply) example_read =
      example_read\<lparr>routing := Some (0, example_reply)\<rparr>"
    by (simp add: route_def example_read_value example_reply_def)
  ultimately have r: "reachable (\<lambda>st. st = bridging_start) bridge_step example_answered"
    unfolding example_answered_def
    by (elim reach_step) (rule delivers, simp_all add: example_read_value PACKET_QUEUE_def)
  have v: "bridges example_answered = [(bridges example_read ! 0)\<lparr>br_queue := [example_reply]\<rparr>]"
    unfolding example_answered_def routed by (simp add: deliver_def set_bridge_def example_read_value Let_def)
  show ?thesis using replies_routed [OF r] by (auto simp: v example_read_value)
qed

text \<open>
  A channel-based UDP tunnel to a server with a default UDP upstream ignores the targets of
  its streams: without a connector the default is handed to the accepting side as its fixed
  upstream, which always wins. The TCP counterpart passes none.
\<close>

lemma dynamic_udp_ignores_target:
  assumes "pred_option sendable target" and "list_all (\<lambda>d. length d \<le> UDP_PACKET_SIZE) ds"
    and "bind (socket_addr_with_unspecified_ip_port (is_ipv6 up))" and "connect up"
  shows "udp_start_dynamic_accepting lookup_host bind connect (\<lambda>_. True) (Some up) timeout None
      [UAccepted k \<lparr>avail = target_frame target @ concat (map raw_frame ds), tail_of = t\<rparr>] =
    Separate [Inr (up, True, ds)]"
  using forward_loop_frames [OF assms(2), of "replicate UDP_PACKET_SIZE 0" "\<lambda>_. True" t "[]"]
    read_optional_target_frame [OF assms(1), of "concat (map raw_frame ds)" t] assms(3,4)
  by (auto simp: udp_start_dynamic_accepting_def udp_start_accepting_def
      udp_start_accepting_with_connector_def process_def create_peer_socket_def)

end
