(* ===== verification/Udp_Session.thy ===== *)
theory Udp_Session
  imports Udp_Serving
begin

text \<open>
  A UDP tunnel from the local socket to the upstream and back
  (\<^verbatim>\<open>udp/udp_server.rs\<close> and \<^verbatim>\<open>udp/udp_tunnel.rs\<close> at both ends): the listener takes
  datagrams of any number of local programs, the serving loop gives each of them a stream of
  its own, the server's \<^verbatim>\<open>process\<close> sends what the stream carries to the upstream, and
  \<^verbatim>\<open>udp_to_quic\<close>, the reader task and the listener take the answers back.
\<close>

section \<open>The listener's packets and the reader's\<close>

definition listener_packet :: "socket_addr \<times> bytes \<Rightarrow> udp_packet" where
  "listener_packet l = \<lparr>payload = take UDP_PACKET_SIZE (snd l), local_addr = fst l, peer_addr = None\<rparr>"

lemma listener_forwards:
  assumes "us_running s" "us_forwarding s = None" "us_active s" "us_rx_open s"
    and "length (out_queue s) < CHANNEL_CAPACITY"
  shows "out_queue (udp_iteration SendDone (udp_iteration (Datagram d from) s)) =
    out_queue s @ [Packet (listener_packet (from, d))]"
  using assms by (simp add: udp_iteration_def udp_select_def udp_forward_def listener_packet_def)

text \<open>
  What the reader task of a flow sends into the listener's channel for the datagrams it reads
  from its stream; and the listener with a message that has come through the channel, which
  its socket loop takes only while it runs and is not handing a datagram over.
\<close>

definition reader_packets :: "udp_flow \<Rightarrow> instream \<Rightarrow> udp_message list" where
  "reader_packets f quic_recv =
     map (\<lambda>d. Packet \<lparr>payload = d, local_addr = key_local_addr (flow_key f),
                      peer_addr = key_peer_addr (flow_key f)\<rparr>)
       (fst (read_datagrams quic_recv (replicate UDP_PACKET_SIZE 0)))"

definition listener_sends :: "udp_message \<Rightarrow> udp_server \<Rightarrow> udp_server" where
  "listener_sends m s = udp_iteration (InMessage True) (s\<lparr>in_queue := in_queue s @ [m]\<rparr>)"

lemma listener_sends_packets:
  assumes "in_queue s = []" "us_running s" "us_forwarding s = None"
  shows "sent_out (fold listener_sends (map (\<lambda>d. Packet \<lparr>payload = d, local_addr = a, peer_addr = t\<rparr>) ds) s) =
    sent_out s @ map (Pair a) ds"
  using assms
proof (induction ds arbitrary: s)
  case (Cons d ds)
  let ?m = "Packet \<lparr>payload = d, local_addr = a, peer_addr = t\<rparr>"
  have "in_queue (listener_sends ?m s) = [] \<and> us_running (listener_sends ?m s) \<and>
      us_forwarding (listener_sends ?m s) = None \<and> sent_out (listener_sends ?m s) = sent_out s @ [(a, d)]"
    using Cons.prems by (simp add: listener_sends_def udp_iteration_def udp_select_def)
  then show ?case using Cons.IH [of "listener_sends ?m s"] by simp
qed simp

lemma udp_to_quic_frames:
  "budget k = None \<Longrightarrow> written (udp_to_quic (map FromUpstream rs) k) =
     written k @ concat (map raw_frame (map (take UDP_PACKET_SIZE) rs))"
  by (induction rs arbitrary: k) (simp_all add: send_raw_frame)

section \<open>Every stream belongs to a local program\<close>

definition flow_keys :: "udp_serving \<Rightarrow> udp_stream_key list" where
  "flow_keys st = map flow_key (flows st)"

definition flows_known :: "udp_serving \<times> udp_packet list \<Rightarrow> bool" where
  "flows_known s \<longleftrightarrow> set (flow_keys (fst s)) \<subseteq> packet_key ` set (snd s)"

lemma map_update_same: "g x = g (xs ! i) \<Longrightarrow> map g (xs[i := x]) = map g xs"
  by (cases "i < length xs") (auto intro!: nth_equalityI simp: nth_list_update list_update_beyond)

lemma flow_keys_update:
  assumes "flow_key f = flow_key (flows st ! i)"
  shows "flow_keys (st\<lparr>stream_map := m, flows := (flows st)[i := f]\<rparr>) = flow_keys st"
    and "flow_keys (st\<lparr>flows := (flows st)[i := f]\<rparr>) = flow_keys st"
  using assms by (simp_all add: flow_keys_def map_update_same)

lemma serve_packet_keys: "set (flow_keys (serve_packet bi p st)) \<subseteq> insert (packet_key p) (set (flow_keys st))"
proof -
  obtain r st1 where op: "open_stream bi (packet_key p) st = (r, st1)" by fastforce
  have "set (flow_keys st1) \<subseteq> insert (packet_key p) (set (flow_keys st))"
    using op by (auto simp: open_stream_def flow_keys_def split: option.splits prod.splits sum.splits)
  then show ?thesis using op by (auto simp: serve_packet_def Let_def flow_keys_update split: option.split)
qed

lemma writer_send_keys: "flow_keys (writer_send i st) = flow_keys st"
  by (auto simp: writer_send_def Let_def flow_keys_update split: list.split prod.split bool.split)

lemma task_end_keys: "flow_keys (reader_end i st) = flow_keys st"
  "flow_keys (writer_remove i st) = flow_keys st" "flow_keys (writer_drop i st) = flow_keys st"
  by (simp_all add: reader_end_def writer_remove_def writer_drop_def Let_def flow_keys_update)

interpretation known_flows: invariant_system "\<lambda>s. s = (serving_empty, [])" serving_step flows_known
proof (rule invariant_system.intro)
  show "flows_known s" if "s = (serving_empty, [])" for s
    using that by (simp add: flows_known_def flow_keys_def serving_empty_def)
  show "flows_known t" if "flows_known s" and "serving_step s t" for s t
    using that(2,1)
  proof (induction rule: serving_step.induct)
    case (served bi st hist closed p)
    then show ?case using serve_packet_keys [of bi p st] by (auto simp: flows_known_def serve_round_packet)
  qed (simp_all add: flows_known_def writer_send_keys task_end_keys)
qed

section \<open>Properties\<close>

abbreviation flow_local :: "udp_flow \<Rightarrow> socket_addr" where
  "flow_local f \<equiv> key_local_addr (flow_key f)"

lemma flow_of_listener:
  assumes "reachable (\<lambda>s. s = (serving_empty, [])) serving_step (st, map listener_packet ls)" "f \<in> set (flows st)"
  shows "key_peer_addr (flow_key f) = None"
  using known_flows.reachable_inv [OF assms(1)] assms(2)
  by (auto simp: flows_known_def flow_keys_def packet_key_def listener_packet_def)

lemma own_datagrams:
  assumes "key_peer_addr key = None"
  shows "map payload (filter (\<lambda>p. packet_key p = key) (map listener_packet ls)) =
    map (take UDP_PACKET_SIZE \<circ> snd) (filter (\<lambda>l. fst l = key_local_addr key) ls)"
proof -
  have "packet_key (listener_packet l) = key \<longleftrightarrow> fst l = key_local_addr key" for l
    using assms by (cases key) (auto simp: packet_key_def listener_packet_def)
  then show ?thesis by (induction ls) (simp_all add: listener_packet_def)
qed

text \<open>
  C11. A UDP tunnel between any number of local programs and the upstream. Whatever the
  interleaving of serving loop, writers and readers, a stream whose writer is in its loop
  carries to the upstream datagrams of one local program only, unchanged but for the cut to the buffer, in
  the order in which they were sent and none twice; and every answer of the upstream on that
  stream is sent, in order, to that very program by a listener whose socket loop runs.
\<close>

theorem udp_exchange:
  assumes "reachable (\<lambda>s. s = (serving_empty, [])) serving_step (st, map listener_packet ls)"
    and "f \<in> set (flows st)" and "writer_at f = Sending"
    and "us_running s" and "us_forwarding s = None" and "in_queue s = []"
  shows "(\<exists>outs. subseq outs (map (take UDP_PACKET_SIZE \<circ> snd) (filter (\<lambda>l. fst l = flow_local f) ls)) \<and>
      process lookup_host (\<lambda>_. True) (\<lambda>_. True) (Some upstream)
        \<lparr>avail = written (flow_out f), tail_of = t\<rparr> = Inr (upstream, True, outs)) \<and>
    sent_out (fold listener_sends
        (reader_packets f \<lparr>avail = written (udp_to_quic (map FromUpstream rs) open_sink), tail_of = t'\<rparr>) s) =
      sent_out s @ map (\<lambda>r. (flow_local f, take UDP_PACKET_SIZE r)) rs"
proof
  have peer: "key_peer_addr (flow_key f) = None" by (rule flow_of_listener [OF assms(1,2)])
  have "faithful (map listener_packet ls) f"
    using serving_invD(2) [OF udp_serving.reachable_inv [OF assms(1)] assms(2)] by simp
  then obtain ps where ps: "subseq (ps @ flow_queue f) (filter (\<lambda>p. packet_key p = flow_key f) (map listener_packet ls))"
    "written (flow_out f) = flow_head (flow_key f) @ frames_of ps"
    using assms(3) by (auto simp: faithful_def)
  let ?outs = "map payload ps"
  have sub: "subseq ?outs (map (take UDP_PACKET_SIZE \<circ> snd) (filter (\<lambda>l. fst l = flow_local f) ls))"
    unfolding own_datagrams [OF peer, symmetric]
    by (rule subseq_map [OF subseq_append_left [OF ps(1)]])
  have "set ?outs \<subseteq> set (map (take UDP_PACKET_SIZE \<circ> snd) (filter (\<lambda>l. fst l = flow_local f) ls))"
    using list_emb_set [OF sub] by blast
  then have small: "list_all (\<lambda>d. length d \<le> UDP_PACKET_SIZE) ?outs" by (auto simp: list_all_iff subset_iff)
  have "flow_head (flow_key f) = target_frame None"
    using peer encode_is_frame [of None] by (simp add: flow_head_def)
  moreover have "frames_of ps = concat (map raw_frame ?outs)" by (simp add: frames_of_def comp_def)
  moreover obtain s1 where "forward_loop (\<lambda>_. True) \<lparr>avail = concat (map raw_frame ?outs), tail_of = t\<rparr>
      (replicate UDP_PACKET_SIZE 0) [] = (True, ?outs, s1)"
    using forward_loop_frames [OF small, of "replicate UDP_PACKET_SIZE 0" "\<lambda>_. True" t "[]"] by auto
  ultimately have "process lookup_host (\<lambda>_. True) (\<lambda>_. True) (Some upstream)
      \<lparr>avail = written (flow_out f), tail_of = t\<rparr> = Inr (upstream, True, ?outs)"
    using ps(2) read_optional_target_frame [of None "concat (map raw_frame ?outs)" t] by (simp add: process_def)
  with sub show "\<exists>outs. subseq outs (map (take UDP_PACKET_SIZE \<circ> snd) (filter (\<lambda>l. fst l = flow_local f) ls)) \<and>
      process lookup_host (\<lambda>_. True) (\<lambda>_. True) (Some upstream)
        \<lparr>avail = written (flow_out f), tail_of = t\<rparr> = Inr (upstream, True, outs)" by blast
  have "list_all (\<lambda>d. length d \<le> UDP_PACKET_SIZE) (map (take UDP_PACKET_SIZE) rs)"
    by (simp add: list_all_iff)
  from read_datagrams_frames [OF this, of "replicate UDP_PACKET_SIZE 0" t']
  show "sent_out (fold listener_sends
        (reader_packets f \<lparr>avail = written (udp_to_quic (map FromUpstream rs) open_sink), tail_of = t'\<rparr>) s) =
      sent_out s @ map (\<lambda>r. (flow_local f, take UDP_PACKET_SIZE r)) rs"
    using udp_to_quic_frames [of open_sink rs] listener_sends_packets [OF assms(6,4,5), of "flow_local f" "key_peer_addr (flow_key f)" "map (take UDP_PACKET_SIZE) rs"]
    by (simp add: reader_packets_def open_sink_def comp_def)
qed

definition one_datagram :: "socket_addr \<times> bytes" where
  "one_datagram = (V4 localhost_v4 5353, [1, 2])"

definition one_flow_sent :: udp_serving where
  "one_flow_sent = writer_send 0 (serve_packet (Some open_sink) (listener_packet one_datagram) serving_empty)"

lemma one_flow_sent_value:
  "flows one_flow_sent = [new_flow (packet_key (listener_packet one_datagram)) []
     ((opened (packet_key (listener_packet one_datagram)))\<lparr>written := target_frame None @ raw_frame [1, 2]\<rparr>)]"
proof -
  let ?p = "listener_packet one_datagram"
  have k: "key_peer_addr (packet_key ?p) = None" "payload ?p = [1, 2]"
    by (simp_all add: packet_key_def listener_packet_def one_datagram_def UDP_PACKET_SIZE_def)
  have "serve_packet (Some open_sink) ?p serving_empty =
      \<lparr>stream_map = flow_map (packet_key ?p), flows = [new_flow (packet_key ?p) [?p] (opened (packet_key ?p))]\<rparr>"
    using serve_packets [of "[?p]" "packet_key ?p"] k by (simp add: PACKET_QUEUE_def)
  then show ?thesis
    using writer_drains [of "opened (packet_key ?p)" "[?p]" "flow_map (packet_key ?p)" "packet_key ?p" "[]"] k
    by (simp add: one_flow_sent_def)
qed

lemma one_flow_sent_reachable:
  "reachable (\<lambda>s. s = (serving_empty, [])) serving_step (one_flow_sent, map listener_packet [one_datagram])"
proof -
  let ?p = "listener_packet one_datagram"
  let ?s = "serve_packet (Some open_sink) ?p serving_empty"
  have r1: "reachable (\<lambda>s. s = (serving_empty, [])) serving_step (?s, [] @ [?p])"
    using served [of "Some open_sink" serving_empty "[]" False ?p]
    by (intro reach_step [OF reach_init]) (auto simp: serve_round_packet open_sink_def)
  have "?s = \<lparr>stream_map = flow_map (packet_key ?p), flows = [new_flow (packet_key ?p) [?p] (opened (packet_key ?p))]\<rparr>"
    using serve_packets [of "[?p]" "packet_key ?p"]
    by (simp add: PACKET_QUEUE_def packet_key_def listener_packet_def)
  then have "reachable (\<lambda>s. s = (serving_empty, [])) serving_step (writer_send 0 ?s, [] @ [?p])"
    by (intro reach_step [OF r1] wrote) (simp_all add: new_flow_def)
  then show ?thesis by (simp add: one_flow_sent_def)
qed

theorem udp_exchange_witness:
  "\<exists>outs. subseq outs [[1, 2]] \<and>
     process (\<lambda>_ _. None) (\<lambda>_. True) (\<lambda>_. True) (Some (V4 9 53))
       \<lparr>avail = written (flow_out (flows one_flow_sent ! 0)), tail_of = Closed\<rparr> = Inr (V4 9 53, True, outs) \<and>
     sent_out (fold listener_sends (reader_packets (flows one_flow_sent ! 0)
       \<lparr>avail = written (udp_to_quic (map FromUpstream [[7], [8, 9]]) open_sink), tail_of = Closed\<rparr>) example_udp) =
     [(V4 localhost_v4 5353, [7]), (V4 localhost_v4 5353, [8, 9])]"
proof -
  let ?f = "flows one_flow_sent ! 0"
  have f: "?f \<in> set (flows one_flow_sent)" "writer_at ?f = Sending" "flow_local ?f = V4 localhost_v4 5353"
    by (simp_all add: one_flow_sent_value new_flow_def packet_key_def listener_packet_def one_datagram_def)
  have s: "in_queue example_udp = []" "sent_out example_udp = []" "us_running example_udp"
    "us_forwarding example_udp = None" by (simp_all add: example_server_defs)
  from udp_exchange [OF one_flow_sent_reachable f(1,2) s(3,4,1), of "\<lambda>_ _. None" "V4 9 53" Closed "[[7], [8, 9]]" Closed]
  show ?thesis using f(3) s(2) by (simp add: one_datagram_def UDP_PACKET_SIZE_def)
qed

end
