(* ===== verification/Http_Split.thy ===== *)
theory Http_Split
  imports Codec_Stream
begin

text \<open>
  A reference for \<^verbatim>\<open>src/src/codec/http.rs\<close>: cutting the whole input into messages at
  once. The reader, which sees the input in whatever pieces the network delivers and keeps a
  buffer over its calls, is equivalent to it.
\<close>

section \<open>The reference\<close>

text \<open>
  The length of the message at the front of \<open>bs\<close>, whose header block ends at \<open>n\<close>;
  \<open>None\<close> is a message of unknown length.
\<close>

definition announced_end :: "http_parser \<Rightarrow> bool \<Rightarrow> bytes \<Rightarrow> nat option" where
  "announced_end hp is_request hdr =
     map_option (body_end_of (length hdr))
       (content_length (parsed_headers
         (if is_request then parse_request hp hdr else parse_response hp hdr)))"

text \<open>What the front of the input is: nothing, an error, a message of known length, or a stream.\<close>

datatype front = FrontEnd | FrontError http_error | FrontMessage nat | FrontStream

definition front_of :: "http_parser \<Rightarrow> bytes \<Rightarrow> front" where
  "front_of hp bs =
     (if bs = [] then FrontEnd
      else case find_header_end bs of
        None \<Rightarrow> FrontError (if MAX_HEADER_SIZE < length bs then HeaderTooLong else EofMidMessage)
      | Some n \<Rightarrow>
          if MAX_HEADER_SIZE < n then FrontError HeaderTooLong
          else case classify_header hp (take n bs) of
            Inl e \<Rightarrow> FrontError e
          | Inr None \<Rightarrow> FrontError EofMidMessage
          | Inr (Some is_request) \<Rightarrow>
              (case announced_end hp is_request (take n bs) of
                 None \<Rightarrow> FrontStream
               | Some e \<Rightarrow> if length bs < e then FrontError EofMidMessage else FrontMessage e))"

lemma front_message_length: "front_of hp bs = FrontMessage n \<Longrightarrow> bs \<noteq> [] \<and> n \<le> length bs"
  by (auto simp: front_of_def split: if_splits option.splits sum.splits)

text \<open>
  The messages with a length, what follows them unparsed, and the error the input ends with,
  if any. A message of length zero, which a wrapped content length gives, counts as the end.
\<close>

function split_messages :: "http_parser \<Rightarrow> bytes \<Rightarrow> bytes list \<times> bytes \<times> http_error option" where
  "split_messages hp bs =
     (case front_of hp bs of
        FrontEnd \<Rightarrow> ([], [], None)
      | FrontError e \<Rightarrow> ([], [], Some e)
      | FrontStream \<Rightarrow> ([], bs, None)
      | FrontMessage n \<Rightarrow>
          if n = 0 then ([], [], None)
          else (case split_messages hp (drop n bs) of (ms, rest, r) \<Rightarrow> (take n bs # ms, rest, r)))"
  by pat_completeness auto

termination
  by (relation "measure (\<lambda>(hp, bs). length bs)") (auto dest: front_message_length)

declare split_messages.simps [simp del]

section \<open>The calls of the reader\<close>

text \<open>
  The messages the encoder gets by calling \<^verbatim>\<open>read_message\<close> until it answers with an
  empty message or an error; \<open>None\<close> is a reader that still waits.
\<close>

function read_messages ::
    "http_parser \<Rightarrow> read_event list \<Rightarrow> http_reader \<Rightarrow> bytes list \<times> http_error option option" where
  "read_messages hp evs hr =
     (case read_message hp evs hr of
        (None, _, _) \<Rightarrow> ([], None)
      | (Some (Inl e), _, _) \<Rightarrow> ([], Some (Some e))
      | (Some (Inr NeedMore), evs', hr') \<Rightarrow> read_messages hp evs' hr'
      | (Some (Inr (Message data)), evs', hr') \<Rightarrow>
          if data = [] then ([], Some None)
          else (case read_messages hp evs' hr' of (ms, r) \<Rightarrow> (data # ms, r)))"
  by pat_completeness auto

termination
proof (relation "measure (\<lambda>(hp, evs, hr). length (hr_buf hr) + length (arrived evs))", goal_cases)
  case 1
  then show ?case by simp
next
  case (2 hp evs hr x y res msg data evs' hr')
  then have "read_message hp evs hr = (Some (Inr (Message data)), evs', hr')" by simp
  from read_message_shrinks [OF this 2(6)] show ?case by simp
next
  case (3 hp evs hr)
  then have "fst (read_message hp evs hr) = Some (Inr NeedMore)" by (metis fst_conv)
  then show ?case using read_message_never_NeedMore by blast
qed

declare read_messages.simps [simp del]

section \<open>One call\<close>

lemma find_header_end_append: "find_header_end b = Some n \<Longrightarrow> find_header_end (b @ c) = Some n"
  using header_ends_ge [of b n] by (simp add: find_header_end_Some header_ends_append)

lemma find_header_end_le: "find_header_end b = Some n \<Longrightarrow> n \<le> length b"
  by (simp add: find_header_end_Some header_ends_ge)

lemma find_header_end_later:
  assumes "find_header_end b = None" "find_header_end (b @ c) = Some n"
  shows "length b < n"
  using assms header_ends_append [of n b c] by (force simp: find_header_end_Some find_header_end_None)

text \<open>What one attempt to parse makes of a part \<open>b\<close> of the input \<open>b @ c\<close>.\<close>

inductive parsed :: "http_parser \<Rightarrow> http_reader \<Rightarrow> bytes \<Rightarrow> (http_error + bytes option) \<times> http_reader \<Rightarrow> bool"
  for hp r c where
  parsed_waits: "(c = [] \<Longrightarrow> front_of hp (hr_buf r) =
      (if hr_buf r = [] then FrontEnd else FrontError EofMidMessage)) \<Longrightarrow>
    parsed hp r c (Inr None, r\<lparr>initialized := i\<rparr>)"
| parsed_error: "front_of hp (hr_buf r @ c) = FrontError e \<Longrightarrow> parsed hp r c (Inl e, r)"
| parsed_message: "front_of hp (hr_buf r @ c) = FrontMessage n \<Longrightarrow> n \<le> length (hr_buf r) \<Longrightarrow>
    parsed hp r c (Inr (Some (take n (hr_buf r))), r\<lparr>initialized := True, hr_buf := drop n (hr_buf r)\<rparr>)"
| parsed_stream: "front_of hp (hr_buf r @ c) = FrontStream \<Longrightarrow> hr_buf r \<noteq> [] \<Longrightarrow>
    parsed hp r c (Inr (Some (hr_buf r)), r\<lparr>initialized := True, drain_mode := True, hr_buf := []\<rparr>)"

inductive_cases parsed_NoneE: "parsed hp r c (Inr None, r')"

lemma waits_unchanged:
  "(c = [] \<Longrightarrow> front_of hp (hr_buf r) =
      (if hr_buf r = [] then FrontEnd else FrontError EofMidMessage)) \<Longrightarrow> parsed hp r c (Inr None, r)"
  using parsed_waits [of c hp r "initialized r"] by simp

lemma try_parse_front:
  assumes "front_of hp (hr_buf r @ c) \<noteq> FrontError HeaderTooLong"
  shows "parsed hp r c (try_parse hp r)"
proof (cases "find_header_end (hr_buf r)")
  case None
  have len: "length (hr_buf r) \<le> MAX_HEADER_SIZE"
  proof (cases "find_header_end (hr_buf r @ c)")
    case n: None
    then show ?thesis using assms by (auto simp: front_of_def split: if_splits)
  next
    case (Some n)
    then show ?thesis using assms find_header_end_later [OF None Some] by (auto simp: front_of_def split: if_splits)
  qed
  with None have "try_parse hp r = (Inr None, r)" by (simp add: try_parse_def)
  moreover have "parsed hp r c (Inr None, r)"
    by (rule waits_unchanged) (use None len in \<open>simp add: front_of_def\<close>)
  ultimately show ?thesis by simp
next
  case (Some n)
  let ?b = "hr_buf r"
  have ne: "?b \<noteq> []" using Some by (auto simp: find_header_end_def windows_def)
  have n: "find_header_end (?b @ c) = Some n" "take n (?b @ c) = take n ?b" "length (take n ?b) = n"
    using find_header_end_append [OF Some] find_header_end_le [OF Some] by simp_all
  with assms ne have lim: "n \<le> MAX_HEADER_SIZE" by (auto simp: front_of_def split: if_splits)
  show ?thesis
  proof (cases "classify_header hp (take n ?b)")
    case (Inl e)
    then have "try_parse hp r = (Inl e, r)" "front_of hp (?b @ c) = FrontError e"
      using ne Some n lim by (simp_all add: try_parse_def front_of_def Let_def)
    then show ?thesis by (simp add: parsed_error)
  next
    case (Inr q)
    show ?thesis
    proof (cases q)
      case None
      then have "try_parse hp r = (Inr None, r)"
        using Inr ne Some by (simp add: try_parse_def Let_def)
      moreover have "parsed hp r c (Inr None, r)"
        by (rule waits_unchanged) (use None Inr ne Some lim in \<open>simp add: front_of_def\<close>)
      ultimately show ?thesis by simp
    next
      case req: (Some req)
      let ?cl = "content_length (parsed_headers (if req then parse_request hp (take n ?b) else parse_response hp (take n ?b)))"
      show ?thesis
      proof (cases ?cl)
        case None
        then have "try_parse hp r = (Inr (Some ?b), r\<lparr>initialized := True, drain_mode := True, hr_buf := []\<rparr>)"
          "front_of hp (?b @ c) = FrontStream"
          using Inr req ne Some n lim
          by (simp_all add: try_parse_def front_of_def announced_end_def Let_def)
        then show ?thesis using ne by (simp add: parsed_stream)
      next
        case cl: (Some cl)
        let ?e = "body_end_of n cl"
        have a: "announced_end hp req (take n ?b) = Some ?e" using cl n by (simp add: announced_end_def)
        show ?thesis
        proof (cases "length ?b < ?e")
          case True
          then have "try_parse hp r = (Inr None, r\<lparr>initialized := True\<rparr>)"
            using Inr req ne Some cl by (simp add: try_parse_def Let_def)
          moreover have "parsed hp r c (Inr None, r\<lparr>initialized := True\<rparr>)"
            by (rule parsed_waits) (use True Inr req ne Some lim a in \<open>simp add: front_of_def\<close>)
          ultimately show ?thesis by simp
        next
          case False
          then have "try_parse hp r = (Inr (Some (take ?e ?b)), r\<lparr>initialized := True, hr_buf := drop ?e ?b\<rparr>)"
            "front_of hp (?b @ c) = FrontMessage ?e"
            using Inr req ne Some cl n a lim by (simp_all add: try_parse_def front_of_def Let_def)
          then show ?thesis using False by (simp add: parsed_message)
        qed
      qed
    qed
  qed
qed

text \<open>What one call makes of the rest of the input, in whatever pieces it arrives.\<close>

inductive called :: "http_parser \<Rightarrow> http_reader \<Rightarrow> bytes list \<Rightarrow>
    (http_error + http_read_result) option \<times> read_event list \<times> http_reader \<Rightarrow> bool"
  for hp r chunks where
  called_end: "front_of hp (hr_buf r @ concat chunks) = FrontEnd \<Longrightarrow>
    called hp r chunks (Some (Inr (Message [])), evs', r')"
| called_error: "front_of hp (hr_buf r @ concat chunks) = FrontError e \<Longrightarrow>
    called hp r chunks (Some (Inl e), evs', r')"
| called_message: "front_of hp (hr_buf r @ concat chunks) = FrontMessage n \<Longrightarrow>
    hr_buf r' @ concat cs = drop n (hr_buf r @ concat chunks) \<Longrightarrow> set cs \<subseteq> set chunks \<Longrightarrow> \<not> drain_mode r' \<Longrightarrow>
    called hp r chunks (Some (Inr (Message (take n (hr_buf r @ concat chunks)))), map Data cs @ [Eof], r')"
| called_stream: "front_of hp (hr_buf r @ concat chunks) = FrontStream \<Longrightarrow> m \<noteq> [] \<Longrightarrow>
    m @ concat cs = hr_buf r @ concat chunks \<Longrightarrow> set cs \<subseteq> set chunks \<Longrightarrow> drain_mode r' \<Longrightarrow> hr_buf r' = [] \<Longrightarrow>
    called hp r chunks (Some (Inr (Message m)), map Data cs @ [Eof], r')"

lemma parsed_called:
  assumes "parsed hp r (concat chunks) (try_parse hp r)" "fst (try_parse hp r) \<noteq> Inr None" "\<not> drain_mode r"
  shows "called hp r chunks (read_message hp (map Data chunks @ [Eof]) r)"
  using assms(1)
proof (cases rule: parsed.cases)
  case (parsed_waits i)
  then show ?thesis using assms(2) by simp
next
  case (parsed_error e)
  then have "read_message hp (map Data chunks @ [Eof]) r = (Some (Inl e), map Data chunks @ [Eof], r)"
    using assms(3) by (cases chunks) simp_all
  then show ?thesis using parsed_error by (simp add: called_error)
next
  case (parsed_message n)
  let ?r = "r\<lparr>initialized := True, hr_buf := drop n (hr_buf r)\<rparr>"
  have "read_message hp (map Data chunks @ [Eof]) r =
      (Some (Inr (Message (take n (hr_buf r)))), map Data chunks @ [Eof], ?r)"
    using assms(3) parsed_message by (cases chunks) simp_all
  then show ?thesis using parsed_message assms(3) called_message [OF parsed_message(2), where r' = ?r and cs = chunks] by simp
next
  case parsed_stream
  let ?r = "r\<lparr>initialized := True, drain_mode := True, hr_buf := []\<rparr>"
  have "read_message hp (map Data chunks @ [Eof]) r =
      (Some (Inr (Message (hr_buf r))), map Data chunks @ [Eof], ?r)"
    using assms(3) parsed_stream by (cases chunks) simp_all
  then show ?thesis using parsed_stream called_stream [OF parsed_stream(2), where r' = ?r and cs = chunks and m = "hr_buf r"] by simp
qed

lemma called_Cons:
  assumes "called hp r' cs p" "hr_buf r' = hr_buf r @ ch"
  shows "called hp r (ch # cs) p"
  using assms(1)
proof cases
  case (called_message n r2 cs2)
  then show ?thesis using assms(2) called.called_message [of hp r "ch # cs" n r2 cs2] by auto
next
  case (called_stream m cs2 r2)
  then show ?thesis using assms(2) called.called_stream [of hp r "ch # cs" m cs2 r2] by auto
qed (use assms(2) in \<open>auto intro: called_end called_error\<close>)

lemma read_message_called:
  assumes "front_of hp (hr_buf r @ concat chunks) \<noteq> FrontError HeaderTooLong" "\<not> drain_mode r" "[] \<notin> set chunks"
  shows "called hp r chunks (read_message hp (map Data chunks @ [Eof]) r)"
  using assms
proof (induction chunks arbitrary: r)
  case Nil
  note p = try_parse_front [OF Nil.prems(1)]
  show ?case
  proof (cases "fst (try_parse hp r) = Inr None")
    case False
    then show ?thesis using parsed_called p Nil.prems(2) by blast
  next
    case True
    from p show ?thesis
    proof (cases rule: parsed.cases)
      case (parsed_waits i)
      then show ?thesis using Nil.prems(2)
        by (cases "hr_buf r = []") (auto intro: called_end called_error)
    qed (use True in simp_all)
  qed
next
  case (Cons ch cs)
  note p = try_parse_front [OF Cons.prems(1)]
  show ?case
  proof (cases "fst (try_parse hp r) = Inr None")
    case False
    then show ?thesis using parsed_called p Cons.prems(2) by blast
  next
    case True
    then obtain i where i: "try_parse hp r = (Inr None, r\<lparr>initialized := i\<rparr>)"
      using p by (cases "try_parse hp r") (auto elim!: parsed_NoneE)
    let ?r = "r\<lparr>initialized := i, hr_buf := hr_buf r @ ch\<rparr>"
    have "called hp ?r cs (read_message hp (map Data cs @ [Eof]) ?r)"
      by (rule Cons.IH) (use Cons.prems in auto)
    moreover have "read_message hp (map Data (ch # cs) @ [Eof]) r = read_message hp (map Data cs @ [Eof]) ?r"
      using i Cons.prems by auto
    ultimately show ?thesis by (simp only:) (erule called_Cons, simp)
  qed
qed

section \<open>All calls\<close>

lemma read_messages_draining:
  assumes "drain_mode r" "hr_buf r = []" "[] \<notin> set chunks"
  shows "read_messages hp (map Data chunks @ [Eof]) r = (chunks, Some None)"
  using assms
  by (induction chunks) (subst read_messages.simps, auto)+

lemma read_messages_split:
  assumes "split_messages hp (hr_buf r @ concat chunks) = (ms, rest, e)" "e \<noteq> Some HeaderTooLong"
    "\<not> drain_mode r" "[] \<notin> set chunks"
  shows "\<exists>ds. read_messages hp (map Data chunks @ [Eof]) r = (ms @ ds, Some e) \<and> concat ds = rest \<and> [] \<notin> set ds"
  using assms
proof (induction "length (hr_buf r @ concat chunks)" arbitrary: r chunks ms rest e rule: less_induct)
  case less
  let ?bs = "hr_buf r @ concat chunks"
  have ok: "front_of hp ?bs \<noteq> FrontError HeaderTooLong"
    using less.prems(1,2) by (subst (asm) split_messages.simps) auto
  from read_message_called [OF ok less.prems(3,4)] show ?case
  proof (cases rule: called.cases)
    case (called_end evs' r')
    then show ?thesis using less.prems(1) by (subst read_messages.simps) (subst (asm) split_messages.simps, simp)
  next
    case (called_error err evs' r')
    then show ?thesis using less.prems(1) by (subst read_messages.simps) (subst (asm) split_messages.simps, simp)
  next
    case (called_message n r' cs)
    show ?thesis
    proof (cases "n = 0")
      case True
      then show ?thesis using called_message less.prems(1)
        by (subst read_messages.simps) (subst (asm) split_messages.simps, simp)
    next
      case False
      have len: "take n ?bs \<noteq> []" "length (drop n ?bs) < length ?bs"
        using front_message_length [OF called_message(2)] False by auto
      obtain ms' where ms': "split_messages hp (drop n ?bs) = (ms', rest, e)" "ms = take n ?bs # ms'"
        using less.prems(1) called_message(2) False by (subst (asm) split_messages.simps) (auto split: prod.splits)
      have "\<exists>ds. read_messages hp (map Data cs @ [Eof]) r' = (ms' @ ds, Some e) \<and> concat ds = rest \<and> [] \<notin> set ds"
        by (rule less.hyps) (use called_message len ms' less.prems in auto)
      then show ?thesis using called_message(1) len(1) ms'(2) by (subst read_messages.simps) auto
    qed
  next
    case (called_stream m cs r')
    have "read_messages hp (map Data cs @ [Eof]) r' = (cs, Some None)"
      by (rule read_messages_draining) (use called_stream less.prems(4) in auto)
    then have "read_messages hp (map Data chunks @ [Eof]) r = (m # cs, Some None)"
      using called_stream by (subst read_messages.simps) simp
    moreover have "ms = [] \<and> rest = ?bs \<and> e = None"
      using less.prems(1) called_stream(2) by (subst (asm) split_messages.simps) simp
    ultimately show ?thesis using called_stream less.prems(4) by auto
  qed
qed

section \<open>The encoder\<close>

text \<open>
  The reference for the encoder task: write and flush the messages one by one, then end as
  the input ends.
\<close>

fun encode_messages ::
    "('e, 'd, 'ed, 'dd) zstd_lib \<Rightarrow> bytes list \<Rightarrow> 'e enc_task \<Rightarrow> bool \<times> 'e enc_task" where
  "encode_messages Z [] t = (True, t)"
| "encode_messages Z (m # ms) t =
     (case write_compressed Z m (count_raw m t) of
        (False, t1) \<Rightarrow> (False, t1)
      | (True, t1) \<Rightarrow>
          (case flush_encoder Z t1 of
             (False, t2) \<Rightarrow> (False, t2)
           | (True, t2) \<Rightarrow> encode_messages Z ms t2))"

definition encode_all ::
    "('e, 'd, 'ed, 'dd) zstd_lib \<Rightarrow> bytes list \<Rightarrow> http_error option option \<Rightarrow> 'e enc_task \<Rightarrow>
     (unit + stream_outcome) option \<times> 'e enc_task" where
  "encode_all Z ms r t =
     (case encode_messages Z ms t of
        (False, t') \<Rightarrow> (Some (Inl ()), t')
      | (True, t') \<Rightarrow>
          (case r of
             None \<Rightarrow> (None, t')
           | Some (Some _) \<Rightarrow> (Some (Inr IoError), t')
           | Some None \<Rightarrow> finish_encoder Z t'))"

lemma run_encoder_http_messages:
  "(case run_encoder_http Z hp evs hr t of (r, _, t') \<Rightarrow> (r, t')) =
     (case read_messages hp evs hr of (ms, r) \<Rightarrow> encode_all Z ms r t)"
proof (induction Z hp evs hr t rule: run_encoder_http.induct)
  case (1 Z hp evs hr t)
  obtain res evs' hr' where r: "read_message hp evs hr = (res, evs', hr')" by (rule prod_cases3)
  show ?case
  proof (cases res)
    case None
    then show ?thesis using r by (simp add: run_encoder_http.simps read_messages.simps [of hp evs] encode_all_def)
  next
    case (Some q)
    show ?thesis
    proof (cases q)
      case (Inl e)
      then show ?thesis using r Some
        by (simp add: run_encoder_http.simps read_messages.simps [of hp evs] encode_all_def)
    next
      case (Inr x)
      then obtain data where x: "x = Message data"
        using read_message_never_NeedMore [of hp evs hr] r Some by (cases x) auto
      show ?thesis
      proof (cases "data = []")
        case True
        then show ?thesis using r Some Inr x
          by (simp add: run_encoder_http.simps [of Z hp evs] read_messages.simps [of hp evs] encode_all_def
              split: prod.splits)
      next
        case False
        obtain ok1 t1 where w: "write_compressed Z data (count_raw data t) = (ok1, t1)" by fastforce
        obtain ok2 t2 where f: "flush_encoder Z t1 = (ok2, t2)" by fastforce
        obtain ms e where m: "read_messages hp evs' hr' = (ms, e)" by fastforce
        have "ok1 \<Longrightarrow> ok2 \<Longrightarrow> (case run_encoder_http Z hp evs' hr' t2 of (r, _, t') \<Rightarrow> (r, t')) = encode_all Z ms e t2"
          using 1 r Some Inr x False w f m by simp
        then show ?thesis using r Some Inr x False w f m
          by (cases ok1; cases ok2)
            (simp_all add: run_encoder_http.simps [of Z hp evs] read_messages.simps [of hp evs] encode_all_def)
      qed
    qed
  qed
qed

lemma run_encoder_splits:
  assumes "[] \<notin> set chunks" "split_messages hp (concat chunks) = (ms, rest, e)" "e \<noteq> Some HeaderTooLong"
  shows "\<exists>ds. concat ds = rest \<and> [] \<notin> set ds \<and>
    run_encoder Z hp True (map ReadEv (map Data chunks @ [Eof])) t = encode_all Z (ms @ ds) (Some e) t"
proof -
  have reads: "reads_of (map ReadEv evs) = evs" for evs
    by (induction evs) (simp_all add: reads_of_def List.map_filter_def)
  have "\<exists>ds. read_messages hp (map Data chunks @ [Eof]) http_reader_new = (ms @ ds, Some e) \<and>
      concat ds = rest \<and> [] \<notin> set ds"
    by (rule read_messages_split) (use assms in \<open>simp_all add: http_reader_new_def\<close>)
  then show ?thesis
    using run_encoder_http_messages [of Z hp "map Data chunks @ [Eof]" http_reader_new t]
    unfolding run_encoder_def reads by auto
qed

section \<open>Messages with a content length, and the limit of the header\<close>

lemma split_framed:
  assumes "framed hp hdr body" "split_messages hp xs = (ms, rest, e)"
  shows "split_messages hp (hdr @ body @ xs) = ((hdr @ body) # ms, rest, e)"
proof -
  have "front_of hp (hdr @ body @ xs) = FrontMessage (length hdr + length body)"
    using assms(1) framed_nonempty [OF assms(1)] find_header_end_prefix(1) [of hdr "body @ xs"]
    by (auto simp: framed_def front_of_def announced_end_def body_end_of_nat)
  then show ?thesis using assms(2) framed_nonempty [OF assms(1)] by (subst split_messages.simps) simp
qed

lemma split_Nil: "split_messages hp [] = ([], [], None)"
  by (simp add: split_messages.simps front_of_def)

text \<open>
  Whether a header block beyond the limit is refused depends on the pieces it arrives in: it
  is taken when its end is in the read that first exceeds the limit.
\<close>

lemma header_limit_depends_on_pieces:
  assumes "find_header_end hdr = Some (length hdr)" "MAX_HEADER_SIZE + 1 < length hdr"
    "classify_header hp hdr = Inr (Some req)" "announced_end hp req hdr = Some (length hdr)"
  shows "fst (read_message hp [Data (take MAX_HEADER_SIZE hdr), Data (drop MAX_HEADER_SIZE hdr)] http_reader_new) =
      Some (Inr (Message hdr))"
    and "fst (read_message hp [Data (take (MAX_HEADER_SIZE + 1) hdr), Data (drop (MAX_HEADER_SIZE + 1) hdr)]
        http_reader_new) = Some (Inl HeaderTooLong)"
proof -
  have none: "find_header_end (take k hdr) = None" if "k < length hdr" for k
  proof (rule find_header_end_prefix(2) [OF assms(1)])
    have "take k hdr \<noteq> hdr" using that by (metis length_take min_less_iff_conj nat_neq_iff)
    then show "strict_prefix (take k hdr) hdr" by (simp add: strict_prefix_def take_is_prefix)
  qed
  have full: "try_parse hp (r\<lparr>hr_buf := hdr\<rparr>) = (Inr (Some hdr), r\<lparr>initialized := True, hr_buf := []\<rparr>)" for r
    using assms by (auto simp: try_parse_def announced_end_def Let_def find_header_end_def windows_def)
  have M: "0 < MAX_HEADER_SIZE" by (simp add: MAX_HEADER_SIZE_def)
  have start: "try_parse hp http_reader_new = (Inr None, http_reader_new)"
    by (simp add: try_parse_def http_reader_new_def)
  have "try_parse hp (http_reader_new\<lparr>hr_buf := take MAX_HEADER_SIZE hdr\<rparr>) =
      (Inr None, http_reader_new\<lparr>hr_buf := take MAX_HEADER_SIZE hdr\<rparr>)"
    using none [of MAX_HEADER_SIZE] assms(2) by (simp add: try_parse_def)
  then show "fst (read_message hp [Data (take MAX_HEADER_SIZE hdr), Data (drop MAX_HEADER_SIZE hdr)] http_reader_new) =
      Some (Inr (Message hdr))"
    using start full [of http_reader_new] assms(2) M by (auto simp: http_reader_new_def)
  have "try_parse hp (http_reader_new\<lparr>hr_buf := take (MAX_HEADER_SIZE + 1) hdr\<rparr>) =
      (Inl HeaderTooLong, http_reader_new\<lparr>hr_buf := take (MAX_HEADER_SIZE + 1) hdr\<rparr>)"
    using none [of "MAX_HEADER_SIZE + 1"] assms(2) by (auto simp: try_parse_def)
  then show "fst (read_message hp [Data (take (MAX_HEADER_SIZE + 1) hdr), Data (drop (MAX_HEADER_SIZE + 1) hdr)]
        http_reader_new) = Some (Inl HeaderTooLong)"
    using start assms(2) by (auto simp: http_reader_new_def)
qed

section \<open>Properties\<close>

lemma split_conserves:
  "split_messages hp bs = (ms, rest, None) \<Longrightarrow> \<forall>k. front_of hp (drop k bs) \<noteq> FrontMessage 0 \<Longrightarrow>
     concat ms @ rest = bs"
proof (induction hp bs arbitrary: ms rule: split_messages.induct)
  case (1 hp bs)
  show ?case
  proof (cases "front_of hp bs")
    case FrontEnd
    then have "bs = []" by (auto simp: front_of_def split: if_splits option.splits sum.splits)
    then show ?thesis using "1.prems" by (simp add: split_Nil)
  next
    case (FrontMessage n)
    have "front_of hp (drop 0 bs) \<noteq> FrontMessage 0" using "1.prems"(2) by (rule spec)
    then have "n \<noteq> 0" using FrontMessage by auto
    then obtain ms' where ms': "split_messages hp (drop n bs) = (ms', rest, None)" "ms = take n bs # ms'"
      using "1.prems"(1) FrontMessage by (auto simp: split_messages.simps [of hp bs] split: prod.splits)
    have "concat ms' @ rest = drop n bs"
      using "1.IH" [OF FrontMessage \<open>n \<noteq> 0\<close> ms'(1)] "1.prems"(2) by simp
    then show ?thesis using ms'(2) by simp
  qed (use "1.prems" in \<open>simp_all add: split_messages.simps [of hp bs]\<close>)
qed

lemma encode_messages_ok:
  assumes Z: "zstd_laws Z sync drained"
  shows "encoding sync d pre t w p \<Longrightarrow>
    \<exists>t' w'. encode_messages Z ms t = (True, t') \<and> encoding sync d pre t' w' (p @ concat ms) \<and>
      et_raw t' = et_raw t + word_of_nat (length (concat ms))"
proof (induction ms arbitrary: t w p)
  case Nil
  then show ?case by auto
next
  case (Cons m ms)
  then have "encoding sync d pre (count_raw m t) w p" by simp
  from write_compressed_ok [OF Z this, of m] obtain t1 w1 where
    t1: "write_compressed Z m (count_raw m t) = (True, t1)"
    "encoding sync d pre t1 w1 (p @ m)" "et_raw t1 = et_raw (count_raw m t)" by blast
  from flush_encoder_ok [OF Z t1(2)] obtain t2 w2 where
    t2: "flush_encoder Z t1 = (True, t2)" "encoding sync d pre t2 w2 (p @ m)" "et_raw t2 = et_raw t1" by blast
  from Cons.IH [OF t2(2)] show ?case using t1 t2 by (auto simp: count_raw_def add.assoc)
qed

lemma run_encoder_http_clean:
  assumes "zstd_laws Z sync drained" and "sync e d [] []" and "[] \<notin> set cuts"
    and "split_messages hp (concat cuts) = (ms, rest, None)"
    and "\<forall>k. front_of hp (drop k (concat cuts)) \<noteq> FrontMessage 0"
    and "run_encoder Z hp True (map ReadEv (map Data cuts @ [Eof])) (new_enc_task e) = (r, t)"
  shows "r = Some (Inr CleanEof) \<and> (\<exists>w'. encoding sync d [] t w' (concat cuts)) \<and> drained (et_enc t) \<and>
    et_raw t = word_of_nat (length (concat cuts))"
proof -
  obtain ds where ds: "concat ds = rest"
    and run: "encode_all Z (ms @ ds) (Some None) (new_enc_task e) = (r, t)"
    using run_encoder_splits [OF assms(3,4), of Z "new_enc_task e"] assms(6) by auto
  have all: "concat (ms @ ds) = concat cuts" using split_conserves [OF assms(4,5)] ds by simp
  from encode_messages_ok [OF assms(1) new_encoding [where sync = sync, OF assms(2)], of "ms @ ds"]
  obtain t1 w1 where t1: "encode_messages Z (ms @ ds) (new_enc_task e) = (True, t1)"
    "encoding sync d [] t1 w1 (concat cuts)" "et_raw t1 = word_of_nat (length (concat cuts))"
    unfolding all by auto
  from finish_encoder_ok [OF assms(1) t1(2)] obtain w' where
    fin: "r = Some (Inr CleanEof)" "encoding sync d [] t w' (concat cuts)" "drained (et_enc t)"
    "et_raw t = et_raw t1" using t1(1) run by (auto simp: encode_all_def)
  then show ?thesis using t1(3) by auto
qed

text \<open>
  C21. HTTP mode is equivalent to cutting the whole input into messages at once: whatever the
  pieces in which the input arrives, the encoder task writes and flushes exactly the messages
  the reference finds, then the pieces of a part without announced length, which together are
  that part, and it ends as the reference does. Only a header block beyond the limit is
  excepted: whether it is refused depends on the pieces.
\<close>

theorem http_mode_splits:
  assumes "[] \<notin> set chunks" "split_messages hp (concat chunks) = (ms, rest, e)" "e \<noteq> Some HeaderTooLong"
  shows "\<exists>ds. concat ds = rest \<and> [] \<notin> set ds \<and>
    run_encoder Z hp True (map ReadEv (map Data chunks @ [Eof])) t = encode_all Z (ms @ ds) (Some e) t"
  using assms by (rule run_encoder_splits)

definition two_messages :: bytes where
  "two_messages = sample_header @ [104, 105] @ sample_header @ [111, 107]"

lemma two_messages_split:
  "split_messages sample_parser two_messages = ([sample_header @ [104, 105], sample_header @ [111, 107]], [], None)"
proof -
  have "framed sample_parser sample_header [111, 107]"
    using sample_framed by (simp add: framed_def)
  from split_framed [OF sample_framed split_framed [OF this split_Nil]]
  show ?thesis by (simp add: two_messages_def)
qed

theorem http_mode_splits_witness:
  "run_encoder storing_zstd sample_parser True
     (map ReadEv (map Data [take 50 two_messages, drop 50 two_messages] @ [Eof])) (new_enc_task ([], [])) =
   encode_all storing_zstd [sample_header @ [104, 105], sample_header @ [111, 107]] (Some None)
     (new_enc_task ([], []))"
proof -
  let ?cs = "[take 50 two_messages, drop 50 two_messages]"
  have "[] \<notin> set ?cs" by (simp add: two_messages_def sample_header_bytes)
  moreover have "split_messages sample_parser (concat ?cs) =
      ([sample_header @ [104, 105], sample_header @ [111, 107]], [], None)"
    using two_messages_split by simp
  ultimately obtain ds where ds: "concat ds = []" "[] \<notin> set ds"
    and run: "run_encoder storing_zstd sample_parser True (map ReadEv (map Data ?cs @ [Eof])) (new_enc_task ([], [])) =
      encode_all storing_zstd ([sample_header @ [104, 105], sample_header @ [111, 107]] @ ds) (Some None)
        (new_enc_task ([], []))"
    using http_mode_splits [of ?cs sample_parser _ "[]" None storing_zstd "new_enc_task ([], [])"] by auto
  from ds have "ds = []" by (cases ds) auto
  then show ?thesis using run by (simp only: append_Nil2)
qed

text \<open>
  C22. HTTP mode is transparent: any input that the reader takes to its end, with or without
  announced lengths, cut into reads in any way at the sender and at the receiver, is delivered
  byte for byte; the encoder ends cleanly and the pair stays in step. (No announced length
  wraps to an empty message: such a message ends the stream early.)
\<close>

theorem codec_http_transparent:
  assumes "zstd_laws Z sync drained" and "sync e d [] []" and "[] \<notin> set cuts"
    and "split_messages hp (concat cuts) = (ms, rest, None)"
    and "\<forall>k. front_of hp (drop k (concat cuts)) \<noteq> FrontMessage 0"
    and "run_encoder Z hp True (map ReadEv (map Data cuts @ [Eof])) (new_enc_task e) = (r, t)"
    and "concat chunks = written (et_out t)" and "[] \<notin> set chunks"
  shows "r = Some (Inr CleanEof) \<and>
    (\<exists>u. run_decoder Z (map Data chunks @ [Eof]) (new_dec_task d) = (Some (Inr CleanEof), u) \<and>
      written (dt_out u) = concat cuts \<and> finished (dt_out u) \<and>
      sync (et_enc t) (dt_dec u) [] [] \<and> et_raw t = word_of_nat (length (concat cuts)))"
proof -
  obtain w' where fin: "r = Some (Inr CleanEof)" "encoding sync d [] t w' (concat cuts)" "drained (et_enc t)"
    "et_raw t = word_of_nat (length (concat cuts))"
    using run_encoder_http_clean [OF assms(1-6)] by blast
  from delivered [OF assms(1) fin(2) assms(7,8)] fin show ?thesis by auto
qed

lemma sample_parser_never_wraps: "front_of sample_parser bs \<noteq> FrontMessage 0"
proof
  assume f: "front_of sample_parser bs = FrontMessage 0"
  then obtain n req where n: "classify_header sample_parser (take n bs) = Inr (Some req)"
    "announced_end sample_parser req (take n bs) = Some 0"
    by (auto simp: front_of_def split: if_splits option.splits sum.splits)
  then have h: "take n bs = sample_header" "req"
    by (auto simp: classify_header_def sample_parser_def split: if_splits)
  have "content_length (parsed_headers (parse_request sample_parser sample_header)) = Some 2"
    using sample_content_length by (simp add: sample_parser_def)
  then have "body_end_of (length sample_header) 2 = 0" using n(2) h by (simp add: announced_end_def)
  moreover have "length sample_header = 37" by (simp add: sample_header_bytes)
  ultimately show False by (simp add: body_end_of_def)
qed

theorem codec_http_transparent_witness:
  "\<exists>u. run_decoder storing_zstd (map Data [two_messages] @ [Eof]) (new_dec_task ([], [])) =
      (Some (Inr CleanEof), u) \<and> written (dt_out u) = two_messages \<and> finished (dt_out u)"
proof -
  let ?cuts = "[take 50 two_messages, drop 50 two_messages]"
  obtain r t where run: "run_encoder storing_zstd sample_parser True (map ReadEv (map Data ?cuts @ [Eof]))
      (new_enc_task ([], [])) = (r, t)" by fastforce
  have cuts: "[] \<notin> set ?cuts" by (simp add: two_messages_def sample_header_bytes)
  have sp: "split_messages sample_parser (concat ?cuts) =
      ([sample_header @ [104, 105], sample_header @ [111, 107]], [], None)" using two_messages_split by simp
  have s: "stored_sync ([], []) ([], []) [] []" by (simp add: stored_sync_def)
  have "written (et_out t) = two_messages"
    using run_encoder_http_clean [OF storing_zstd_laws s cuts sp _ run] sample_parser_never_wraps
    by (auto simp: encoding_def stored_sync_def stored_drained_def)
  then have w: "concat [two_messages] = written (et_out t)" by simp
  have "[] \<notin> set [two_messages]" by (simp add: two_messages_def)
  from codec_http_transparent [OF storing_zstd_laws s cuts sp _ run w this] sample_parser_never_wraps
  show ?thesis by auto
qed

end
