(* ===== verification/Log_Texts.thy ===== *)
theory Log_Texts
  imports Client Server Udp_Tunnel
begin

text \<open>
  The texts the program logs, posts to its event bus and sends back: the \<^verbatim>\<open>Display\<close>
  implementations of its types, the description of a login, and the redacted
  \<^verbatim>\<open>Debug\<close> form of the server's configuration. Strings are sequences of bytes, so an
  arrow is its three bytes in UTF-8.
\<close>

section \<open>Display\<close>

fun display_tunnel_mode :: "tunnel_mode \<Rightarrow> string" where
  "display_tunnel_mode TIn = ''IN''"
| "display_tunnel_mode TOut = ''OUT''"

fun display_upstream_type :: "upstream_type \<Rightarrow> string" where
  "display_upstream_type Tcp = ''TCP''"
| "display_upstream_type Udp = ''UDP''"

definition display_upstream :: "upstream \<Rightarrow> string" where
  "display_upstream u =
     (case upstream_addr u of Some addr \<Rightarrow> display_socket_addr addr | None \<Rightarrow> ''PeerDefault'')"

fun display_tunnel_target :: "tunnel_target \<Rightarrow> string" where
  "display_tunnel_target (Addr addr) = display_socket_addr addr"
| "display_tunnel_target (Domain host port) = host @ '':'' @ show_digits 10 (unat port)"

definition format_optional_socket_addr :: "socket_addr option \<Rightarrow> string" where
  "format_optional_socket_addr addr =
     (case addr of None \<Rightarrow> ''none'' | Some a \<Rightarrow> display_socket_addr a)"

fun display_client_state :: "client_phase \<Rightarrow> string" where
  "display_client_state CIdle = ''Idle''"
| "display_client_state CStopping = ''Stopping''"
| "display_client_state CTerminated = ''Terminated''"

definition display_udp_stream_key :: "udp_stream_key \<Rightarrow> string" where
  "display_udp_stream_key k =
     (case key_peer_addr k of
        Some peer \<Rightarrow> display_socket_addr (key_local_addr k) @ '' -> '' @ display_tunnel_target peer
      | None \<Rightarrow> display_socket_addr (key_local_addr k))"

fun display_tunnel_id :: "tunnel_id \<Rightarrow> string" where
  "display_tunnel_id (Network index) = show_digits 10 (unat index)"
| "display_tunnel_id (Channel i protocol) =
     ''channel-'' @ display_upstream_type protocol @ ''-'' @ show_digits 10 (unat i)"

definition display_tunnel_descriptor :: "tunnel_descriptor \<Rightarrow> string" where
  "display_tunnel_descriptor d =
     display_tunnel_id (td_id d) @ '':'' @ display_upstream_type (td_proto d) @ '':'' @
     display_tunnel_mode (td_mode d)"

fun display_transfer_error :: "transfer_error \<Rightarrow> string" where
  "display_transfer_error InternalError = ''InternalError''"
| "display_transfer_error InvalidIPAddress = ''InvalidIPAddress''"
| "display_transfer_error InvalidIPFamily = ''InvalidIPFamily''"
| "display_transfer_error InvalidDomain = ''InvalidDomain''"
| "display_transfer_error TimeoutError = ''TimeoutError''"

fun display_ip_addr :: "ip_addr \<Rightarrow> string" where
  "display_ip_addr (IpV4 a) = display_ipv4 a"
| "display_ip_addr (IpV6 a) = display_ipv6 a"

definition display_bool :: "bool \<Rightarrow> string" where
  "display_bool b = (if b then ''true'' else ''false'')"

section \<open>Logins and messages\<close>

definition arrow_out :: string where
  "arrow_out = '' '' @ [CHR 0xE2, CHR 0x86, CHR 0x92] @ ''  ''"

definition arrow_in :: string where
  "arrow_in = '' '' @ [CHR 0xE2, CHR 0x86, CHR 0x90] @ ''  ''"

text \<open>
  \<^verbatim>\<open>format_with_remote_addr\<close>; it panics (\<open>None\<close>) for a network tunnel without a local
  address.
\<close>

definition format_with_remote_addr :: "login_info \<Rightarrow> socket_addr \<Rightarrow> string option" where
  "format_with_remote_addr li remote_addr =
     (case li_tunnel li of
        ChannelBased ty \<Rightarrow>
          Some (display_upstream_type ty @ ''_ChannelBased'' @ arrow_out @ display_socket_addr remote_addr)
      | NetworkBased cfg \<Rightarrow>
          (let up = tc_upstream cfg;
               upstream_str =
                 (case upstream_addr up of
                    Some a \<Rightarrow>
                      if is_loopback (sa_ip a)
                      then display_ip_addr (sa_ip remote_addr) @ '':'' @ show_digits 10 (unat (sa_port a))
                      else display_socket_addr a
                  | None \<Rightarrow> ''PeerDefault'')
           in case local_server_addr cfg of
                None \<Rightarrow> None
              | Some addr \<Rightarrow>
                  Some (case tc_mode cfg of
                          TOut \<Rightarrow>
                            display_upstream_type (upstream_kind up) @ ''_OUT'' @ arrow_out @
                            display_socket_addr addr @ arrow_out @ display_socket_addr remote_addr @
                            arrow_out @ upstream_str
                        | TIn \<Rightarrow>
                            display_upstream_type (upstream_kind up) @ ''_IN'' @ arrow_in @
                            display_socket_addr addr @ arrow_in @ display_socket_addr remote_addr @
                            arrow_in @ upstream_str)))"

definition display_login_info :: "login_info \<Rightarrow> string" where
  "display_login_info li =
     (case li_tunnel li of
        ChannelBased ty \<Rightarrow> display_upstream_type ty @ ''_ChannelBased''
      | NetworkBased cfg \<Rightarrow>
          display_upstream_type (upstream_kind (tc_upstream cfg)) @ ''_'' @ display_tunnel_mode (tc_mode cfg))"

fun display_tunnel_message :: "tunnel_message \<Rightarrow> string" where
  "display_tunnel_message (ReqLogin li) = display_login_info li"
| "display_tunnel_message (ReqHeartbeat n) = ''heartbeat:req:'' @ show_digits 10 (unat n)"
| "display_tunnel_message (RespHeartbeat n) = ''heartbeat:resp:'' @ show_digits 10 (unat n)"
| "display_tunnel_message (RespFailure msg) = ''fail:'' @ msg"
| "display_tunnel_message (RespSuccess caps) =
     ''succeeded:ipv6_supported='' @ display_bool (ipv6_supported caps)"

text \<open>The log events of a login, in the order \<open>login\<close> posts them.\<close>

definition login_texts ::
    "client_config \<Rightarrow> login_info \<Rightarrow> socket_addr \<Rightarrow> u64 \<Rightarrow> bool \<Rightarrow> (nat \<Rightarrow> string) option" where
  "login_texts cfg li remote_addr connect_timeout_ms ipv6 =
     (case format_with_remote_addr li remote_addr of
        None \<Rightarrow> None
      | Some d \<Rightarrow>
          Some (\<lambda>i.
            if i = 0 then
              d @ '' connecting, idle_timeout='' @ show_digits 10 (unat (quic_timeout_ms cfg)) @
              '', retry_timeout='' @ show_digits 10 (unat (retry_max_backoff_delay cfg)) @
              '', connect_timeout='' @ show_digits 10 (unat connect_timeout_ms) @
              '', threads='' @ show_digits 10 (unat (workers cfg))
            else if i = 1 then d @ '' logging in...''
            else d @ '' login succeeded, ipv6_supported='' @ display_bool ipv6))"

text \<open>
  The \<^verbatim>\<open>Debug\<close> form of the server's configuration, as the fields it names; the two
  connectors are shown by their presence.
\<close>

datatype debug_value =
  DebugStr string | DebugNum nat | DebugAddr "socket_addr option" | DebugConnector bool

definition debug_server_config ::
    "server_config \<Rightarrow> bool \<Rightarrow> bool \<Rightarrow> string \<Rightarrow> string \<Rightarrow> (string \<times> debug_value) list" where
  "debug_server_config c tcp_connector udp_connector dashboard_server dashboard_credential =
     [(''addr'', DebugStr (sc_addr c)), (''password'', DebugStr ''<redacted>''),
      (''cert_path'', DebugStr (sc_cert_path c)), (''key_path'', DebugStr (sc_key_path c)),
      (''quic_timeout_ms'', DebugNum (unat (sc_quic_timeout_ms c))),
      (''tcp_timeout_ms'', DebugNum (unat (sc_tcp_timeout_ms c))),
      (''udp_timeout_ms'', DebugNum (unat (sc_udp_timeout_ms c))),
      (''quic_receive_window'', DebugNum (unat (sc_quic_receive_window c))),
      (''stream_receive_window'', DebugNum (unat (sc_stream_receive_window c))),
      (''quic_send_window'', DebugNum (unat (sc_quic_send_window c))),
      (''default_tcp_upstream'', DebugAddr (default_tcp_upstream c)),
      (''default_udp_upstream'', DebugAddr (default_udp_upstream c)),
      (''channel_tcp_connector'', DebugConnector tcp_connector),
      (''channel_udp_connector'', DebugConnector udp_connector),
      (''dashboard_server'', DebugStr dashboard_server),
      (''dashboard_server_credential'', DebugStr ''<redacted>'')]"

section \<open>What the texts reveal\<close>

text \<open>
  No text of a login depends on the password: not its description, its display form, the
  events of a whole login, nor the server's configuration as it is shown.
\<close>

lemma texts_without_password:
  fixes cfg :: client_config and sc :: server_config and st :: "'s client_state" and p :: string
  defines "cfg' \<equiv> cfg\<lparr>password := p\<rparr>" and "sc' \<equiv> sc\<lparr>sc_password := p\<rparr>"
  shows "login_texts cfg' (client_login_info cfg' t) r to v6 = login_texts cfg (client_login_info cfg t) r to v6"
    and "snd (login cfg' now msg d io st) = snd (login cfg now msg d io st)"
    and "display_tunnel_message (ReqLogin (client_login_info cfg' t)) =
      display_tunnel_message (ReqLogin (client_login_info cfg t))"
    and "debug_server_config sc' a b s cred' = debug_server_config sc a b s cred"
proof -
  have li: "format_with_remote_addr (client_login_info cfg' t) r = format_with_remote_addr (client_login_info cfg t) r"
    "display_login_info (client_login_info cfg' t) = display_login_info (client_login_info cfg t)"
    "heartbeat_enabled cfg' = heartbeat_enabled cfg" "quic_timeout_ms cfg' = quic_timeout_ms cfg"
    "workers cfg' = workers cfg" "retry_max_backoff_delay cfg' = retry_max_backoff_delay cfg"
    by (simp_all add: cfg'_def format_with_remote_addr_def display_login_info_def client_login_info_def
        heartbeat_enabled_def retry_max_backoff_delay_def)
  show "login_texts cfg' (client_login_info cfg' t) r to v6 = login_texts cfg (client_login_info cfg t) r to v6"
    by (simp only: login_texts_def li)
  show "snd (login cfg' now msg d io st) = snd (login cfg now msg d io st)"
    by (simp only: login_def li)
  show "display_tunnel_message (ReqLogin (client_login_info cfg' t)) =
      display_tunnel_message (ReqLogin (client_login_info cfg t))" by (simp only: display_tunnel_message.simps li)
  show "debug_server_config sc' a b s cred' = debug_server_config sc a b s cred"
    by (simp add: sc'_def debug_server_config_def)
qed

text \<open>A login with a configuration \<open>create\<close> returned never panics in its texts.\<close>

lemma login_texts_defined:
  assumes "create sn num_cpus a = Inr cfg" and "(i, t) \<in> set (network_tunnels cfg)"
  shows "\<exists>texts. login_texts cfg (client_login_info cfg t) r to v6 = Some texts"
proof -
  obtain tc where tc: "t = NetworkBased tc" "tc \<in> set (tunnels cfg)"
    using assms(2) by (auto simp: network_tunnels_def enumerate_eq_zip dest: set_zip_rightD)
  from create_InrE [OF assms(1)] obtain tcp where
    p: "parse_addr_mappings (a_tcp_mappings a) Tcp [] = Inr tcp"
      "parse_addr_mappings (a_udp_mappings a) Udp tcp = Inr (tunnels cfg)"
    by (metis client_config_of_sel(1))
  have "local_server_addr tc \<noteq> None"
    using parse_addr_mappings_InrD [OF p(1)] parse_addr_mappings_InrD [OF p(2)] tc(2)
    by (metis Un_iff append_Nil set_append)
  then show ?thesis
    by (auto simp: login_texts_def format_with_remote_addr_def client_login_info_def tc(1) Let_def)
qed

section \<open>Descriptors in the log\<close>

lemma to_digit_char: "n < 10 \<Longrightarrow> to_digit 10 (digit_char n) = Some n"
  by (auto simp: to_digit_def digit_char_def Let_def)

lemma show_digits_digits: "list_all (\<lambda>c. to_digit 10 c \<noteq> None) (show_digits 10 n)"
proof (induction n rule: less_induct)
  case (less n)
  show ?case
    by (subst show_digits.simps) (use less [of "n div 10"] in \<open>simp add: to_digit_char\<close>)
qed

lemma digits_value_show: "digits_value 10 (show_digits 10 n) = n"
proof (induction n rule: less_induct)
  case (less n)
  show ?case
    by (subst show_digits.simps) (use less [of "n div 10"] in \<open>simp add: digits_value_def to_digit_char\<close>)
qed

lemma show_digits_inj: "show_digits 10 m = show_digits 10 n \<longleftrightarrow> m = n"
  using digits_value_show by metis

lemma show_digits_no:
  "to_digit 10 c = None \<Longrightarrow> c \<notin> set (show_digits 10 n)"
  using show_digits_digits [of n] by (auto simp: list_all_iff)

lemma append_sep_cancel:
  "c \<notin> set xs \<Longrightarrow> c \<notin> set ys \<Longrightarrow> xs @ c # us = ys @ c # vs \<longleftrightarrow> xs = ys \<and> us = vs"
proof (induction xs arbitrary: ys)
  case Nil
  then show ?case by (cases ys) auto
next
  case (Cons x xs)
  then show ?case by (cases ys) auto
qed

lemma upstream_type_text_inj: "display_upstream_type a = display_upstream_type b \<longleftrightarrow> a = b"
  by (cases a; cases b) simp_all

lemma tunnel_mode_text_inj: "display_tunnel_mode a = display_tunnel_mode b \<longleftrightarrow> a = b"
  by (cases a; cases b) simp_all

lemma no_separator:
  "CHR '':'' \<notin> set (display_tunnel_id i)" "CHR '':'' \<notin> set (display_upstream_type ty)"
  "CHR ''-'' \<notin> set (display_upstream_type ty)"
proof -
  show ty: "CHR '':'' \<notin> set (display_upstream_type ty)" "CHR ''-'' \<notin> set (display_upstream_type ty)" for ty
    by (cases ty; simp)+
  show "CHR '':'' \<notin> set (display_tunnel_id i)"
    using show_digits_no [of "CHR '':''"] ty(1) by (cases i) (simp_all add: to_digit_def)
qed

lemma tunnel_id_text_inj: "display_tunnel_id i = display_tunnel_id j \<longleftrightarrow> i = j"
proof -
  have c: "show_digits 10 n \<noteq> CHR ''c'' # cs" for n cs
    using show_digits_no [of "CHR ''c''" n] by (auto simp: to_digit_def)
  have ch: "CHR ''c'' # cs \<noteq> show_digits 10 n" for n cs using c by metis
  show ?thesis
    by (cases i; cases j)
      (auto simp: show_digits_inj c ch append_sep_cancel no_separator upstream_type_text_inj word_unat_eq_iff)
qed

text \<open>Two tunnels with the same text in the log are the same tunnel.\<close>

lemma descriptor_text_inj:
  "display_tunnel_descriptor d = display_tunnel_descriptor e \<longleftrightarrow> d = e"
  by (auto simp: display_tunnel_descriptor_def append_sep_cancel no_separator tunnel_id_text_inj
      upstream_type_text_inj tunnel_mode_text_inj intro: tunnel_descriptor.equality)

end
