(* ===== verification/Android.thy ===== *)
theory Android
  imports Log_Texts Client_Tasks
begin

text \<open>
  \<^verbatim>\<open>src/src/lib.rs\<close>, module \<^verbatim>\<open>android\<close>: the entry points a Java application
  calls. They hand out the client as a raw pointer, so the model has the memory behind the
  pointers, with the type each cell was made as; reading a cell as another type, or one that
  is gone, is undefined behaviour. The conversions of the Java runtime are represented by
  their results. The call of \<^verbatim>\<open>ClientConfig::create\<close> has fewer arguments than the function
  takes; its result is an argument of the model.
\<close>

section \<open>Strings and logging\<close>

text \<open>A Java string reference, null or with its text.\<close>

definition convert_jstring :: "string option \<Rightarrow> string" where
  "convert_jstring jstr = (case jstr of Some s \<Rightarrow> s | None \<Rightarrow> [])"

definition native_log_level :: "string option \<Rightarrow> string" where
  "native_log_level jlogLevel =
     (let s = convert_jstring jlogLevel
      in if s = ''T'' then ''trace''
         else if s = ''D'' then ''debug''
         else if s = ''I'' then ''info''
         else if s = ''W'' then ''warn''
         else if s = ''E'' then ''error''
         else ''info'')"

definition nativeInitLogger :: "string option \<Rightarrow> string" where
  "nativeInitLogger jlogLevel =
     (let log_level = native_log_level jlogLevel
      in ''rstun='' @ log_level @ '',rs_utilities='' @ log_level)"

section \<open>The client behind a pointer\<close>

type_synonym jlong = "64 word"

text \<open>A \<^verbatim>\<open>Box<Client>\<close> and an \<^verbatim>\<open>Arc<Mutex<Client>>\<close>.\<close>

datatype 's native_cell = BoxedClient "'s client" | SharedClient "'s client"

type_synonym 's native_heap = "jlong \<rightharpoonup> 's native_cell"

datatype 'a native = Undefined | Returns 'a

text \<open>\<open>alloc\<close> is the address the allocator gives to a new box.\<close>

definition nativeCreate ::
    "(string \<Rightarrow> server_name option) \<Rightarrow> ('s native_heap \<Rightarrow> jlong) \<Rightarrow> config_error + client_config \<Rightarrow>
     's native_heap \<Rightarrow> jlong \<times> 's native_heap" where
  "nativeCreate try_from alloc made heap =
     (case made of
        Inl _ \<Rightarrow> (0, heap)
      | Inr client_config \<Rightarrow>
          (let p = alloc heap in (p, heap(p \<mapsto> BoxedClient (client_new try_from client_config)))))"

definition nativeStop :: "jlong \<Rightarrow> 's native_heap \<Rightarrow> 's native_heap native" where
  "nativeStop client_ptr heap =
     (if client_ptr = 0 then Returns heap
      else case heap client_ptr of
             Some (BoxedClient _) \<Rightarrow> Returns (heap(client_ptr := None))
           | _ \<Rightarrow> Undefined)"

definition as_shared :: "jlong \<Rightarrow> 's native_heap \<Rightarrow> ('s client \<Rightarrow> 'a) \<Rightarrow> 'a native" where
  "as_shared client_ptr heap f =
     (case heap client_ptr of Some (SharedClient cl) \<Rightarrow> Returns (f cl) | _ \<Rightarrow> Undefined)"

text \<open>The state is the one after the thread that is spawned.\<close>

definition nativeStartTunnelling ::
    "bool \<Rightarrow> ('s client_state \<Rightarrow> 's client_state) \<Rightarrow> 's interference \<Rightarrow> jlong \<Rightarrow> 's native_heap \<Rightarrow>
     's native_heap native" where
  "nativeStartTunnelling connects meanwhile w client_ptr heap =
     (if client_ptr = 0 then Returns heap
      else as_shared client_ptr heap (\<lambda>cl.
             heap(client_ptr \<mapsto> SharedClient (snd (start_tunneling connects meanwhile w cl)))))"

definition nativeGetState :: "jlong \<Rightarrow> 's native_heap \<Rightarrow> string native" where
  "nativeGetState client_ptr heap =
     (if client_ptr = 0 then Returns []
      else as_shared client_ptr heap (\<lambda>cl. display_client_state (get_state cl)))"

definition nativeSetEnableOnInfoReport ::
    "jlong \<Rightarrow> u8 \<Rightarrow> 's native_heap \<Rightarrow> 's native_heap native" where
  "nativeSetEnableOnInfoReport client_ptr enable heap =
     (if client_ptr = 0 then Returns heap
      else as_shared client_ptr heap (\<lambda>cl.
             if enable = 1 \<and> \<not> has_event_listeners cl
             then heap(client_ptr \<mapsto> SharedClient (snd (register_for_events cl)))
             else heap))"

section \<open>Sequences of calls\<close>

datatype 's native_call =
    Create "config_error + client_config"
  | Stop jlong
  | StartTunnelling bool "'s client_state \<Rightarrow> 's client_state" "'s interference" jlong
  | GetState jlong
  | SetEnableOnInfoReport jlong u8

fun native_step ::
    "(string \<Rightarrow> server_name option) \<Rightarrow> ('s native_heap \<Rightarrow> jlong) \<Rightarrow> 's native_call \<Rightarrow>
     's native_heap \<Rightarrow> 's native_heap native" where
  "native_step try_from alloc (Create made) heap = Returns (snd (nativeCreate try_from alloc made heap))"
| "native_step try_from alloc (Stop p) heap = nativeStop p heap"
| "native_step try_from alloc (StartTunnelling connects meanwhile w p) heap =
     nativeStartTunnelling connects meanwhile w p heap"
| "native_step try_from alloc (GetState p) heap =
     (case nativeGetState p heap of Returns _ \<Rightarrow> Returns heap | Undefined \<Rightarrow> Undefined)"
| "native_step try_from alloc (SetEnableOnInfoReport p e) heap = nativeSetEnableOnInfoReport p e heap"

fun native_run ::
    "(string \<Rightarrow> server_name option) \<Rightarrow> ('s native_heap \<Rightarrow> jlong) \<Rightarrow> 's native_call list \<Rightarrow>
     's native_heap \<Rightarrow> 's native_heap native" where
  "native_run try_from alloc [] heap = Returns heap"
| "native_run try_from alloc (c # cs) heap =
     (case native_step try_from alloc c heap of
        Undefined \<Rightarrow> Undefined
      | Returns heap' \<Rightarrow> native_run try_from alloc cs heap')"

definition only_boxes :: "'s native_heap \<Rightarrow> bool" where
  "only_boxes heap \<longleftrightarrow> (\<forall>p cl. heap p \<noteq> Some (SharedClient cl))"

lemma as_shared_boxes: "only_boxes heap \<Longrightarrow> as_shared p heap f = Undefined"
  by (auto simp: as_shared_def only_boxes_def split: option.splits native_cell.splits)

lemmas native_defs = nativeStop_def nativeStartTunnelling_def nativeGetState_def
  nativeSetEnableOnInfoReport_def

lemma native_step_boxes:
  assumes "only_boxes heap" "native_step try_from alloc c heap = Returns heap'"
  shows "only_boxes heap'"
proof (cases c)
  case (Create made)
  then show ?thesis using assms
    by (auto simp: nativeCreate_def only_boxes_def Let_def split: sum.splits if_splits)
next
  case (Stop p)
  then show ?thesis using assms
    by (auto simp: nativeStop_def only_boxes_def split: if_splits option.splits native_cell.splits)
qed (use assms in \<open>auto simp: native_defs as_shared_boxes split: if_splits native.splits\<close>)

lemma native_run_boxes:
  "only_boxes heap \<Longrightarrow> native_run try_from alloc cs heap = Returns heap' \<Longrightarrow> only_boxes heap'"
  by (induction cs arbitrary: heap) (auto split: native.splits dest: native_step_boxes)

text \<open>
  No client made through this interface can be used: after any sequence of calls whose
  behaviour is defined, starting the tunnels of a client, asking for its state or enabling
  its reports is undefined behaviour for every pointer but null; and only a pointer that is
  live may be stopped.
\<close>

lemma android_handles_unusable:
  assumes "native_run try_from alloc cs Map.empty = Returns heap" "p \<noteq> 0"
  shows "nativeStartTunnelling connects meanwhile w p heap = Undefined \<and> nativeGetState p heap = Undefined \<and>
    nativeSetEnableOnInfoReport p e heap = Undefined \<and> (nativeStop p heap = Undefined \<longleftrightarrow> p \<notin> dom heap)"
proof -
  have "only_boxes heap" using assms(1) by (rule native_run_boxes [rotated]) (simp add: only_boxes_def)
  moreover then have "nativeStop p heap = Undefined \<longleftrightarrow> heap p = None"
    using assms(2) by (auto simp: nativeStop_def only_boxes_def split: option.splits native_cell.splits)
  ultimately show ?thesis using assms(2) by (auto simp: native_defs as_shared_boxes)
qed

text \<open>A second stop of the same client, and every later use, is undefined.\<close>

lemma stopped_twice:
  assumes "p \<noteq> 0" "nativeStop p heap = Returns heap'"
  shows "nativeStop p heap' = Undefined"
  using assms by (auto simp: nativeStop_def split: option.splits native_cell.splits)

end
