(* ===== verification/Float_Texts.thy ===== *)
theory Float_Texts
  imports Log_Texts Codec_Stream Complex_Main
begin

text \<open>
  The texts with floating-point numbers: \<^verbatim>\<open>human_readable_bytes\<close>
  (\<^verbatim>\<open>src/src/lib.rs\<close>) and \<^verbatim>\<open>CodecStats::summary\<close> (\<^verbatim>\<open>src/src/codec/mod.rs\<close>).
  A nonnegative \<^verbatim>\<open>f64\<close> is a fraction of natural numbers, and every operation rounds its
  exact result to 53 bits, ties to even. Byte counts have 64 bits, so no result comes near
  the ends of the exponent's range.
\<close>

section \<open>Arithmetic of \<^verbatim>\<open>f64\<close>\<close>

definition round_even :: "nat \<Rightarrow> nat \<Rightarrow> nat" where
  "round_even n d =
     (let q = n div d; r = n mod d
      in if 2 * r < d \<or> 2 * r = d \<and> even q then q else q + 1)"

fun bit_length :: "nat \<Rightarrow> nat" where
  "bit_length n = (if n = 0 then 0 else bit_length (n div 2) + 1)"

declare bit_length.simps [simp del]

type_synonym f64 = "nat \<times> nat"

text \<open>
  \<open>round_f64 n d\<close> is \<open>n / d\<close> with 53 significant bits: the unit in the last place is
  \<open>2\<^sup>e\<close> with \<open>2\<^sup>5\<^sup>2 \<le> n / d / 2\<^sup>e < 2\<^sup>5\<^sup>3\<close>.
\<close>

definition last_place :: "nat \<Rightarrow> nat \<Rightarrow> int" where
  "last_place n d =
     (let k = int (bit_length n) - int (bit_length d)
      in (if n * 2 ^ nat (- k) < d * 2 ^ nat k then k - 1 else k) - 52)"

definition round_f64 :: "nat \<Rightarrow> nat \<Rightarrow> f64" where
  "round_f64 n d =
     (let e = last_place n d
      in (round_even (n * 2 ^ nat (- e)) (d * 2 ^ nat e) * 2 ^ nat e, 2 ^ nat (- e)))"

definition f64_of_u64 :: "u64 \<Rightarrow> f64" where
  "f64_of_u64 n = round_f64 (unat n) 1"

definition f64_div :: "f64 \<Rightarrow> f64 \<Rightarrow> f64" where
  "f64_div x y = round_f64 (fst x * snd y) (snd x * fst y)"

definition f64_mul :: "f64 \<Rightarrow> f64 \<Rightarrow> f64" where
  "f64_mul x y = round_f64 (fst x * fst y) (snd x * snd y)"

text \<open>\<^verbatim>\<open>{:.1}\<close>: the exact value, rounded to tenths.\<close>

definition tenths :: "f64 \<Rightarrow> nat" where
  "tenths x = round_even (10 * fst x) (snd x)"

definition display_tenths :: "f64 \<Rightarrow> string" where
  "display_tenths x =
     show_digits 10 (tenths x div 10) @ ''.'' @ show_digits 10 (tenths x mod 10)"

section \<open>The texts\<close>

definition human_readable_bytes :: "u64 \<Rightarrow> string" where
  "human_readable_bytes n =
     (let KB = 1024; MB = 1024 * 1024; GB = 1024 * 1024 * 1024
      in if GB \<le> n then display_tenths (f64_div (f64_of_u64 n) (f64_of_u64 GB)) @ ''GB''
         else if MB \<le> n then display_tenths (f64_div (f64_of_u64 n) (f64_of_u64 MB)) @ ''MB''
         else if KB \<le> n then display_tenths (f64_div (f64_of_u64 n) (f64_of_u64 KB)) @ ''KB''
         else show_digits 10 (unat n) @ ''B'')"

definition percentage :: "u64 \<Rightarrow> u64 \<Rightarrow> f64" where
  "percentage part whole =
     (if 0 < whole then f64_mul (f64_div (f64_of_u64 part) (f64_of_u64 whole)) (f64_of_u64 100)
      else (0, 1))"

definition summary :: "codec_stats \<Rightarrow> string" where
  "summary st =
     (let up_ratio = percentage (up_compressed st) (up_raw st);
          down_ratio = percentage (down_compressed st) (down_decompressed st);
          saved = (if up_raw st < up_compressed st then 0 else up_raw st - up_compressed st);
          total_in = up_raw st + down_decompressed st;
          total_out = up_compressed st + down_compressed st;
          overall = percentage total_out total_in
      in ''up_raw='' @ human_readable_bytes (up_raw st) @
         '', up_compressed='' @ human_readable_bytes (up_compressed st) @
         '', up_ratio='' @ display_tenths up_ratio @
         ''%, down_compressed='' @ human_readable_bytes (down_compressed st) @
         '', down_decompressed='' @ human_readable_bytes (down_decompressed st) @
         '', down_ratio='' @ display_tenths down_ratio @
         ''%, saved='' @ human_readable_bytes saved @
         '', overall='' @ display_tenths overall @ ''%'')"

text \<open>
  The log lines of the traffic reporters: of the client, with the line on compression when
  something was sent compressed, and of the server.
\<close>

definition traffic_texts :: "tunnel_stat \<Rightarrow> codec_stats \<Rightarrow> string list" where
  "traffic_texts stat cs =
     (let number = show_digits 10 in
      [''[traffic] down='' @ human_readable_bytes (rx_bytes stat) @
       '', up='' @ human_readable_bytes (tx_bytes stat) @
       '', down_dgrams='' @ number (unat (rx_dgrams stat)) @
       '', up_dgrams='' @ number (unat (tx_dgrams stat)) @
       '', sent_packets='' @ number (unat (sent_packets stat)) @
       '', lost_packets='' @ number (unat (lost_packets stat)) @
       '', lost='' @ human_readable_bytes (lost_bytes stat) @
       '', congestion_events='' @ number (unat (congestion_events stat)) @
       '', active_conns='' @ number (unat (active_conns stat)) @
       '', rtt_ms='' @ number (unat (rtt_ms stat)) @
       '', cwnd='' @ human_readable_bytes (cwnd_bytes stat) @
       '', mtu='' @ number (unat (current_mtu stat)) @
       '', black_holes='' @ number (unat (black_holes stat))] @
      (if 0 < up_raw cs then [''[traffic] codec total, '' @ summary cs] else []))"

fun server_traffic_text :: "u64 \<times> u64 \<times> u32 \<Rightarrow> string" where
  "server_traffic_text (rx, tx, active) =
     ''[traffic] down='' @ human_readable_bytes rx @ '', up='' @ human_readable_bytes tx @
     '', active_conns='' @ show_digits 10 (unat active)"

section \<open>Rounding errors\<close>

definition f64_val :: "f64 \<Rightarrow> real" where
  "f64_val x = real (fst x) / real (snd x)"

lemma round_even_error:
  assumes "0 < d"
  shows "\<bar>real (round_even n d) - real n / real d\<bar> \<le> 1 / 2"
proof -
  let ?q = "n div d" and ?r = "n mod d"
  have "real n = real ?q * real d + real ?r"
    by (metis div_mult_mod_eq of_nat_add of_nat_mult)
  then have n: "real n / real d = real ?q + real ?r / real d" using assms by (simp add: field_simps)
  have r: "?r < d" using assms by simp
  show ?thesis
  proof (cases "2 * ?r < d \<or> 2 * ?r = d \<and> even ?q")
    case True
    then have "2 * real ?r \<le> real d" by linarith
    then have "real ?r / real d \<le> 1 / 2" using assms by (simp add: field_simps)
    then show ?thesis using True n by (simp add: round_even_def Let_def)
  next
    case False
    then have "real d \<le> 2 * real ?r" "real ?r \<le> real d" using r by linarith+
    then have "1 / 2 \<le> real ?r / real d" "real ?r / real d \<le> 1" using assms by (simp_all add: field_simps)
    moreover have "round_even n d = ?q + 1" using False by (simp only: round_even_def Let_def if_False)
    ultimately show ?thesis using n by (simp add: abs_le_iff)
  qed
qed

lemma scale_error:
  fixes m x p :: real
  assumes "0 < p" "\<bar>m - x / p\<bar> \<le> 1 / 2"
  shows "\<bar>m * p - x\<bar> \<le> p / 2"
proof -
  have "(m - x / p) * p = m * p - x" using assms(1) by (simp add: left_diff_distrib)
  then have "\<bar>m * p - x\<bar> = \<bar>m - x / p\<bar> * p" using assms(1) by (metis abs_mult abs_of_pos)
  then show ?thesis using mult_right_mono [OF assms(2), of p] assms(1) by simp
qed

lemma one_le_quotient: "0 < c \<Longrightarrow> 1 \<le> x / c \<longleftrightarrow> c \<le> x" for c x :: real
  by (simp add: pos_le_divide_eq)

lemma bit_length_bounds: "n \<noteq> 0 \<Longrightarrow> 2 ^ (bit_length n - 1) \<le> n \<and> n < 2 ^ bit_length n \<and> 0 < bit_length n"
proof (induction n rule: bit_length.induct)
  case (1 n)
  show ?case
  proof (cases "n div 2 = 0")
    case True
    then have "n = 1" using 1 by linarith
    then show ?thesis by (simp add: bit_length.simps)
  next
    case False
    then obtain k where k: "bit_length (n div 2) = Suc k" "2 ^ k \<le> n div 2" "n div 2 < 2 ^ Suc k"
      using 1 by (metis diff_Suc_1 gr0_conv_Suc)
    then have "bit_length n = Suc (Suc k)" using 1(2) by (subst bit_length.simps) simp
    moreover have "2 * 2 ^ k \<le> n" "n < 2 * 2 ^ Suc k" using k(2,3) by linarith+
    ultimately show ?thesis by simp
  qed
qed

lemma powr_nat_split: "(2 :: real) powr e = 2 ^ nat e / 2 ^ nat (- e)" for e :: int
  by (cases "0 \<le> e") (simp_all add: powr_real_of_int powr_minus_divide inverse_eq_divide)

lemma last_place_low:
  assumes "0 < n" "0 < d"
  shows "2 powr (real_of_int (last_place n d) + 52) \<le> real n / real d"
proof -
  let ?k = "int (bit_length n) - int (bit_length d)"
  have b: "2 ^ (bit_length n - 1) \<le> n" "d < 2 ^ bit_length d" "0 < bit_length n"
    using bit_length_bounds [of n] bit_length_bounds [of d] assms by auto
  have scaled: "real (n * 2 ^ nat (- ?k)) / real (d * 2 ^ nat ?k) = real n / real d / 2 powr ?k"
    using powr_nat_split [of ?k] by simp
  show ?thesis
  proof (cases "n * 2 ^ nat (- ?k) < d * 2 ^ nat ?k")
    case True
    have "(2 :: real) powr (?k - 1) = 2 ^ (bit_length n - 1) / 2 ^ bit_length d"
      using b(3) by (simp add: powr_diff powr_realpow [symmetric] of_nat_diff)
    also have "\<dots> \<le> real n / real d"
    proof (rule frac_le)
      show "2 ^ (bit_length n - 1) \<le> real n" using b(1) by (metis of_nat_le_iff of_nat_numeral of_nat_power)
      show "real d \<le> 2 ^ bit_length d" using b(2) by (metis less_imp_le of_nat_le_iff of_nat_numeral of_nat_power)
    qed (use assms in simp_all)
    finally show ?thesis using True by (simp add: last_place_def)
  next
    case False
    then have "real (d * 2 ^ nat ?k) \<le> real (n * 2 ^ nat (- ?k))" by (metis not_less of_nat_le_iff)
    then have "1 \<le> real (n * 2 ^ nat (- ?k)) / real (d * 2 ^ nat ?k)"
      using assms by (subst one_le_quotient) simp_all
    then have "2 powr ?k \<le> real n / real d" unfolding scaled by (subst (asm) one_le_quotient) simp_all
    then show ?thesis using False by (simp add: last_place_def)
  qed
qed

text \<open>Every operation is exact up to a relative error of \<open>2\<^sup>-\<^sup>5\<^sup>3\<close>.\<close>

lemma round_f64_error:
  assumes "0 < d"
  shows "\<bar>f64_val (round_f64 n d) - real n / real d\<bar> \<le> real n / real d / 2 ^ 53"
proof (cases "n = 0")
  case False
  let ?e = "last_place n d"
  let ?m = "round_even (n * 2 ^ nat (- ?e)) (d * 2 ^ nat ?e)"
  have e: "(2 :: real) powr ?e = 2 ^ nat ?e / 2 ^ nat (- ?e)" by (rule powr_nat_split)
  have v: "f64_val (round_f64 n d) = real ?m * 2 powr ?e"
    using e by (simp add: f64_val_def round_f64_def Let_def)
  have x: "real (n * 2 ^ nat (- ?e)) / real (d * 2 ^ nat ?e) = real n / real d / 2 powr ?e"
    using e by simp
  have "\<bar>f64_val (round_f64 n d) - real n / real d\<bar> \<le> 2 powr ?e / 2"
    unfolding v
  proof (rule scale_error)
    show "\<bar>real ?m - real n / real d / 2 powr ?e\<bar> \<le> 1 / 2"
      using round_even_error [of "d * 2 ^ nat ?e" "n * 2 ^ nat (- ?e)"] assms unfolding x by simp
  qed simp
  moreover have "2 powr ?e * 2 ^ 52 \<le> real n / real d"
    using last_place_low [of n d] False assms by (simp add: powr_add)
  ultimately show ?thesis by (simp add: field_simps)
qed (use assms in \<open>simp add: round_f64_def f64_val_def Let_def round_even_def\<close>)

lemma round_f64_den: "0 < snd (round_f64 n d)"
  by (simp add: round_f64_def Let_def)

text \<open>Numbers of at most 53 bits are converted exactly.\<close>

lemma f64_of_u64_exact:
  assumes "unat n < 2 ^ 53"
  shows "f64_val (f64_of_u64 n) = real (unat n)"
proof (cases "unat n = 0")
  case True
  then show ?thesis by (simp add: f64_of_u64_def f64_val_def round_f64_def round_even_def Let_def)
next
  case False
  let ?e = "last_place (unat n) 1"
  have "2 powr (real_of_int ?e + 52) \<le> real (unat n)" using last_place_low [of "unat n" 1] False by simp
  also have "\<dots> < 2 ^ 53" using assms by (metis of_nat_less_iff of_nat_numeral of_nat_power)
  also have "\<dots> = 2 powr 53" by simp
  finally have "?e \<le> 0" by (simp only: powr_less_cancel_iff)
  then show ?thesis by (simp add: f64_of_u64_def f64_val_def round_f64_def round_even_def Let_def)
qed

section \<open>What the texts show\<close>

abbreviation near :: "real \<Rightarrow> real \<Rightarrow> real \<Rightarrow> bool" where
  "near \<epsilon> x y \<equiv> \<bar>x - y\<bar> \<le> y * \<epsilon>"

lemma near_iff: "near \<epsilon> x y \<longleftrightarrow> y * (1 - \<epsilon>) \<le> x \<and> x \<le> y * (1 + \<epsilon>)"
  by (auto simp: abs_le_iff algebra_simps)

lemma near_val: "0 < snd x \<Longrightarrow> 0 < snd y \<Longrightarrow> 0 < fst y \<Longrightarrow>
    near (1 / 2 ^ 53) (f64_val (f64_div x y)) (f64_val x / f64_val y) \<and>
    near (1 / 2 ^ 53) (f64_val (f64_mul x y)) (f64_val x * f64_val y)"
  using round_f64_error [of "snd x * fst y" "fst x * snd y"] round_f64_error [of "snd x * snd y" "fst x * fst y"]
  by (simp add: f64_div_def f64_mul_def f64_val_def)

lemma near_of: "near (1 / 2 ^ 53) (f64_val (f64_of_u64 n)) (real (unat n))"
  using round_f64_error [of 1 "unat n"] by (simp add: f64_of_u64_def)

lemma f64_of_u64_pos: "0 < n \<Longrightarrow> 0 < fst (f64_of_u64 n)"
proof (rule ccontr)
  assume "0 < n" "\<not> 0 < fst (f64_of_u64 n)"
  moreover from this have "unat n \<noteq> 0" by (auto simp: unat_eq_zero)
  then have "0 < real (unat n)" by (simp only: of_nat_0_less_iff neq0_conv)
  ultimately show False using near_of [of n] by (simp add: f64_val_def)
qed

lemma near_quotient:
  fixes x y p q z :: real
  assumes "near (1 / 2 ^ 53) x p" "near (1 / 2 ^ 53) y q" "near (1 / 2 ^ 53) z (x / y)" "0 \<le> p" "0 < q"
  shows "near (1 / 2 ^ 51) z (p / q)"
proof -
  let ?e = "1 / 2 ^ 53 :: real"
  have x: "x \<le> p * (1 + ?e)" "p * (1 - ?e) \<le> x" using near_iff [THEN iffD1, OF assms(1)] by blast+
  have y: "y \<le> q * (1 + ?e)" "q * (1 - ?e) \<le> y" using near_iff [THEN iffD1, OF assms(2)] by blast+
  have pos: "0 \<le> p * (1 - ?e)" "0 < q * (1 - ?e)" using assms(4,5) by simp_all
  have z: "z \<le> x / y * (1 + ?e)" "x / y * (1 - ?e) \<le> z" using near_iff [THEN iffD1, OF assms(3)] by blast+
  have "x / y \<le> p * (1 + ?e) / (q * (1 - ?e))" using x y pos by (intro frac_le) linarith+
  then have "z \<le> p * (1 + ?e) / (q * (1 - ?e)) * (1 + ?e)"
    by (intro order_trans [OF z(1)] mult_right_mono) simp_all
  also have "\<dots> = p / q * ((1 + ?e) * (1 + ?e) / (1 - ?e))" by simp
  also have "\<dots> \<le> p / q * (1 + 1 / 2 ^ 51)" using assms(4,5) by (intro mult_left_mono) simp_all
  finally have upper: "z \<le> p / q * (1 + 1 / 2 ^ 51)" .
  have "p * (1 - ?e) / (q * (1 + ?e)) \<le> x / y" using x y pos by (intro frac_le) linarith+
  then have "p * (1 - ?e) / (q * (1 + ?e)) * (1 - ?e) \<le> z"
    by (intro order_trans [OF _ z(2)] mult_right_mono) simp_all
  moreover have "p * (1 - ?e) / (q * (1 + ?e)) * (1 - ?e) = p / q * ((1 - ?e) * (1 - ?e) / (1 + ?e))" by simp
  moreover have "p / q * (1 - 1 / 2 ^ 51) \<le> p / q * ((1 - ?e) * (1 - ?e) / (1 + ?e))"
    using assms(4,5) by (intro mult_left_mono) simp_all
  ultimately have "p / q * (1 - 1 / 2 ^ 51) \<le> z" by linarith
  with upper show ?thesis by (intro near_iff [THEN iffD2] conjI)
qed

lemma quotient_error:
  assumes "0 < whole"
  shows "near (1 / 2 ^ 51) (f64_val (f64_div (f64_of_u64 part) (f64_of_u64 whole))) (real (unat part) / real (unat whole))"
proof (rule near_quotient [OF near_of near_of])
  show "near (1 / 2 ^ 53) (f64_val (f64_div (f64_of_u64 part) (f64_of_u64 whole)))
      (f64_val (f64_of_u64 part) / f64_val (f64_of_u64 whole))"
    using near_val [of "f64_of_u64 part" "f64_of_u64 whole"] f64_of_u64_pos [OF assms]
    by (simp add: f64_of_u64_def round_f64_den)
  show "0 < real (unat whole)" using assms by (simp add: unat_gt_0 word_gt_0 del: of_nat_unat)
qed (rule of_nat_0_le_iff)

lemma tenths_error: "0 < snd x \<Longrightarrow> \<bar>real (tenths x) / 10 - f64_val x\<bar> \<le> 1 / 20"
  unfolding tenths_def f64_val_def
proof -
  assume "0 < snd x"
  then have "\<bar>real (round_even (10 * fst x) (snd x)) - 10 * (real (fst x) / real (snd x))\<bar> \<le> 1 / 2"
    using round_even_error [of "snd x" "10 * fst x"] by simp
  then show "\<bar>real (round_even (10 * fst x) (snd x)) / 10 - real (fst x) / real (snd x)\<bar> \<le> 1 / 20"
    by linarith
qed

lemma near_tenths:
  assumes "0 < snd x" "near \<epsilon> (f64_val x) y"
  shows "\<bar>real (tenths x) / 10 - y\<bar> \<le> 1 / 20 + y * \<epsilon>"
  using tenths_error [OF assms(1)] assms(2) by linarith

text \<open>
  From a kilobyte on, the text is a number of tenths of a unit, right to half a tenth and
  the relative error of three operations.
\<close>

lemma human_readable_bytes_accurate:
  assumes "1024 \<le> n"
  shows "\<exists>t u suffix. (u, suffix) \<in> {(2 ^ 10, ''KB''), (2 ^ 20, ''MB''), (2 ^ 30, ''GB'')} \<and> u \<le> n \<and>
    human_readable_bytes n = show_digits 10 (t div 10) @ ''.'' @ show_digits 10 (t mod 10) @ suffix \<and>
    \<bar>real t / 10 - real (unat n) / real (unat u)\<bar> \<le> 1 / 20 + real (unat n) / real (unat u) * (1 / 2 ^ 51)"
proof -
  define text_of where "text_of u = f64_div (f64_of_u64 n) (f64_of_u64 u)" for u
  have err: "\<bar>real (tenths (text_of u)) / 10 - real (unat n) / real (unat u)\<bar> \<le>
      1 / 20 + real (unat n) / real (unat u) * (1 / 2 ^ 51)" if "0 < u" for u
    unfolding text_of_def
    by (rule near_tenths [OF _ quotient_error [OF that]]) (simp add: f64_div_def round_f64_den)
  consider "2 ^ 30 \<le> n" "human_readable_bytes n = display_tenths (text_of (2 ^ 30)) @ ''GB''"
    | "2 ^ 20 \<le> n" "human_readable_bytes n = display_tenths (text_of (2 ^ 20)) @ ''MB''"
    | "2 ^ 10 \<le> n" "human_readable_bytes n = display_tenths (text_of (2 ^ 10)) @ ''KB''"
    using assms by (cases "2 ^ 30 \<le> n"; cases "2 ^ 20 \<le> n") (simp_all add: human_readable_bytes_def text_of_def)
  then show ?thesis
  proof cases
    case 1
    then show ?thesis using err [of "2 ^ 30"]
      by (intro exI [of _ "tenths (text_of (2 ^ 30))"] exI [of _ "2 ^ 30"] exI [of _ "''GB''"])
        (simp add: display_tenths_def)
  next
    case 2
    then show ?thesis using err [of "2 ^ 20"]
      by (intro exI [of _ "tenths (text_of (2 ^ 20))"] exI [of _ "2 ^ 20"] exI [of _ "''MB''"])
        (simp add: display_tenths_def)
  next
    case 3
    then show ?thesis using err [of "2 ^ 10"]
      by (intro exI [of _ "tenths (text_of (2 ^ 10))"] exI [of _ "2 ^ 10"] exI [of _ "''KB''"])
        (simp add: display_tenths_def)
  qed
qed

text \<open>The ratios of the summary, in per cent.\<close>

lemma percentage_accurate:
  assumes "0 < whole"
  shows "\<bar>real (tenths (percentage part whole)) / 10 - 100 * (real (unat part) / real (unat whole))\<bar> \<le>
    1 / 20 + 100 * (real (unat part) / real (unat whole)) * (1 / 2 ^ 50)"
proof (rule near_tenths)
  let ?q = "f64_div (f64_of_u64 part) (f64_of_u64 whole)" and ?x = "real (unat part) / real (unat whole)"
  have p: "percentage part whole = f64_mul ?q (f64_of_u64 100)" using assms by (simp add: percentage_def)
  show "0 < snd (percentage part whole)" using p by (simp add: f64_mul_def round_f64_den)
  have "f64_val (f64_of_u64 100) = 100" using f64_of_u64_exact [of 100] by simp
  then have m: "near (1 / 2 ^ 53) (f64_val (percentage part whole)) (f64_val ?q * 100)"
    using near_val [of ?q "f64_of_u64 100"] f64_of_u64_pos [of 100]
    by (simp add: p f64_div_def f64_of_u64_def round_f64_den)
  have x: "0 \<le> ?x" by (intro divide_nonneg_nonneg of_nat_0_le_iff)
  have q: "?x * (1 - 1 / 2 ^ 51) \<le> f64_val ?q" "f64_val ?q \<le> ?x * (1 + 1 / 2 ^ 51)"
    using near_iff [THEN iffD1, OF quotient_error [OF assms]] by blast+
  have m': "f64_val ?q * 100 * (1 - 1 / 2 ^ 53) \<le> f64_val (percentage part whole)"
    "f64_val (percentage part whole) \<le> f64_val ?q * 100 * (1 + 1 / 2 ^ 53)"
    using near_iff [THEN iffD1, OF m] by blast+
  show "near (1 / 2 ^ 50) (f64_val (percentage part whole)) (100 * ?x)"
  proof (intro near_iff [THEN iffD2] conjI)
    show "100 * ?x * (1 - 1 / 2 ^ 50) \<le> f64_val (percentage part whole)"
      using q(1) m'(1) x by (simp add: field_simps)
    show "f64_val (percentage part whole) \<le> 100 * ?x * (1 + 1 / 2 ^ 50)"
      using q(2) m'(2) x by (simp add: field_simps)
  qed
qed

text \<open>The unit is chosen before rounding, so a count just below a unit shows 1024 of the smaller one.\<close>

lemma human_readable_bytes_examples:
  "human_readable_bytes 1023 = ''1023B''" "human_readable_bytes 1536 = ''1.5KB''"
  "human_readable_bytes 1048575 = ''1024.0KB''" "human_readable_bytes 5368709120 = ''5.0GB''"
  by (simp_all add: human_readable_bytes_def display_tenths_def tenths_def f64_div_def f64_of_u64_def round_f64_def
    last_place_def bit_length.simps round_even_def show_digits.simps digit_char_def char_of_def bit_0 Let_def)

text \<open>Download traffic alone is not reported: the line depends on what was sent.\<close>

lemma download_only_unreported: "up_raw cs = 0 \<Longrightarrow> length (traffic_texts stat cs) = 1"
  by (simp add: traffic_texts_def Let_def)

end
