(* ===== verification/Unit_Tests.thy ===== *)
theory Unit_Tests
  imports Log_Texts Codec_Handshake Client_Tasks Udp_Tunnel
begin

text \<open>
  The unit tests of the repository, on the model: each lemma states for the definitions what
  the test of the same name asserts of the code, on the test's own input. Tests of the
  libraries, of real sockets and of elapsed time have no counterpart.
\<close>

section \<open>\<^verbatim>\<open>util/stream_util.rs\<close>\<close>

abbreviation bytes_then_end :: "bytes \<Rightarrow> instream" where
  "bytes_then_end bs \<equiv> \<lparr>avail = bs, tail_of = Closed\<rparr>"

definition round_trip :: "tunnel_target \<Rightarrow> (transfer_error + tunnel_target) option" where
  "round_trip target =
     (case encode_tunnel_target (Some target) True of
        Inr (Some bs) \<Rightarrow>
          Some (case read_tunnel_target (bytes_then_end bs) of Inr (t, _) \<Rightarrow> Inr t | Inl e \<Rightarrow> Inl e)
      | _ \<Rightarrow> None)"

lemma round_trip_sendable: "sendable x \<Longrightarrow> round_trip x = Some (Inr (wire_target x))"
  using read_target_frame [of x "[]" Closed] encode_is_frame [of "Some x"] by (simp add: round_trip_def)

lemma tunnel_target_round_trips_all_families:
  "round_trip (Addr (V4 0xC6120007 443)) = Some (Inr (Addr (V4 0xC6120007 443)))"
  "round_trip (Addr (V6 0xFD001234000000000000000000000001 8443 0 0)) =
     Some (Inr (Addr (V6 0xFD001234000000000000000000000001 8443 0 0)))"
  "round_trip (Domain ''example.com'' 443) = Some (Inr (Domain ''example.com'' 443))"
  by (simp_all add: round_trip_sendable valid_string_def as_bytes_def)

lemma encode_none_respects_mark_none:
  "encode_tunnel_target None True = Inr (Some [0])"
  "encode_tunnel_target None False = Inr None"
  by code_simp+

lemma read_optional_tunnel_target_decodes_none:
  "read_optional_tunnel_target (bytes_then_end [0]) = Inr (None, bytes_then_end [])"
  by code_simp

lemma encode_rejects_empty_and_oversized_domain:
  "encode_tunnel_target (Some (Domain [] 443)) True = Inl (InvalidDomainLength 0)"
  "encode_tunnel_target (Some (Domain (replicate 256 CHR ''a'') 443)) True = Inl (InvalidDomainLength 256)"
  by (simp_all add: encode_tunnel_target_def as_bytes_def Let_def)

lemma read_rejects_unknown_family_and_zero_len_domain:
  "read_tunnel_target (bytes_then_end [9, 1, 2, 3]) = Inl InvalidIPFamily"
  "read_tunnel_target (bytes_then_end [3, 0]) = Inl InvalidDomain"
  "read_tunnel_target (bytes_then_end [3, 2, 0xFF, 0xFE, 0, 80]) = Inl InvalidDomain"
  by code_simp+

section \<open>\<^verbatim>\<open>tunnel_event_bus.rs\<close>\<close>

definition test_descriptor :: tunnel_descriptor where
  "test_descriptor = \<lparr>td_id = Network 1, td_proto = Tcp, td_mode = TOut\<rparr>"

definition log_event :: "string \<Rightarrow> tunnel_event" where
  "log_event msg = tunnel_event_new (Log msg) ''2025-01-01 00:00:00.000'' test_descriptor"

lemma event_bus_delivers_to_multiple_listeners_and_drops_closed:
  "(let (one, b1) = register bus_new; (two, b2) = register b1;
        b3 = post (log_event ''hello'') (drop_receiver two b2)
    in (map_option timestamp (fst (recv_event one b3)), has_listeners b3)) =
   (Some ''2025-01-01 00:00:00.000'', True)"
  by (simp add: register_def bus_new_def drop_receiver_def post_def send_chan_def recv_event_def
      has_listeners_def log_event_def tunnel_event_new_def)

section \<open>\<^verbatim>\<open>client.rs\<close>\<close>

lemma event_listener_receives_tunnel_state:
  "map_option event_type (fst (recv_event 0 (st_bus (post_tunnel_state now test_descriptor Connecting
     (client_state_new\<lparr>st_bus := snd (register bus_new)\<rparr>))))) = Some (State Connecting)"
  by (simp add: post_tunnel_state_def post_event_def register_def bus_new_def post_def send_chan_def
      recv_event_def has_listeners_def tunnel_event_new_def client_state_new_def)

lemma retry_backoff_delays_start_fast_and_honor_max:
  "retry_min_backoff_delay = 300"
  "retry_max_backoff_delay (sample_config\<lparr>wait_before_retry_ms := 0\<rparr>) = 300"
  "retry_max_backoff_delay (sample_config\<lparr>wait_before_retry_ms := 5000\<rparr>) = 5000"
  by (simp_all add: retry_min_backoff_delay_def retry_max_backoff_delay_def RETRY_BACKOFF_MIN_MS_def)

lemma connect_attempt_timeout_for_grows_and_caps:
  "map connect_attempt_timeout_for [0, 1, 2, 3, 10] = [3, 6, 12, 15, 15]"
  by (simp add: word_unat_eq_iff attempt_timeout_bounds)

lemma server_lookup_dns_config_strategy:
  "strategy (server_lookup_dns_config False) = Ipv4Only"
  "strategy (server_lookup_dns_config True) = Ipv4thenIpv6"
  by (simp_all add: server_lookup_dns_config_def)

lemma small_numerals:
  "(4 :: nat) = Suc (Suc (Suc (Suc 0)))"
  "(8 :: nat) = Suc (Suc (Suc (Suc (Suc (Suc (Suc (Suc 0)))))))"
  by simp_all

lemma parsed_name_servers:
  "\<exists>a. parse_ip_addr ''1.1.1.1'' = Some (IpV4 a)"
  "\<exists>a. parse_ip_addr ''2606:4700:4700::1111'' = Some (IpV6 a)"
  "parse_ip_addr ''resolver.example'' = None"
  by (simp_all add: addr_parser_defs small_numerals)

lemma filter_name_servers_drops_ipv6_literals_without_ipv6_route:
  "filter_name_servers [''1.1.1.1'', ''2606:4700:4700::1111'', ''resolver.example''] False =
     [''1.1.1.1'', ''resolver.example'']"
  using parsed_name_servers by (auto simp: filter_name_servers_def)

lemma select_sni_name_falls_back_to_verify_name_when_unset:
  "select_sni_name [] n ''real.example.com'' = (''real.example.com'', n)"
  by (simp add: select_sni_name_def)

text \<open>The parser of server names as the tests rely on it.\<close>

definition test_server_name :: "string \<Rightarrow> server_name option" where
  "test_server_name s =
     (if s \<in> {''a.example.com'', ''b.example.com'', ''www.bing.com'', ''www.apple.com'', ''cdn.example.net''}
      then Some DnsName
      else if s \<in> {''1.2.3.4'', ''1.1.1.1'', ''8.8.8.8''} then Some IpAddress
      else None)"

lemma sanitize_sni_names_trims_and_drops_invalid:
  "sanitize_sni_names test_server_name
     [''  a.example.com  '', [], ''   '', ''1.2.3.4'', ''not a host'', ''b.example.com''] =
   [''a.example.com'', ''b.example.com'']"
  by code_simp

fun select_times :: "nat \<Rightarrow> string list \<Rightarrow> usize \<Rightarrow> string \<Rightarrow> string list" where
  "select_times 0 names n v = []"
| "select_times (Suc k) names n v =
     (case select_sni_name names n v of (s, n') \<Rightarrow> s # select_times k names n' v)"

lemma select_sni_name_rotates_round_robin:
  "select_times 7 [''a'', ''b'', ''c''] 0 ''real.example.com'' =
     [''a'', ''b'', ''c'', ''a'', ''b'', ''c'', ''a'']"
  by code_simp

lemma custom_sni_verifier_verifies_against_real_name:
  "verify_server_cert (custom_sni_verifier inner ''real.example.com'') cert ''alt.cdn.example'' =
     verify_server_cert inner cert ''real.example.com''"
  by (simp add: custom_sni_verifier_def)

section \<open>\<^verbatim>\<open>lib.rs\<close>\<close>

lemma empty_input_yields_no_sni_names:
  "map (parse_sni_names test_server_name) [[], ''   '', '',, ,''] = [Inr [], Inr [], Inr []]"
  by code_simp

lemma parses_and_trims_dns_names:
  "parse_sni_names test_server_name ''www.bing.com, www.apple.com ,cdn.example.net'' =
     Inr [''www.bing.com'', ''www.apple.com'', ''cdn.example.net'']"
  by code_simp

lemma rejects_ip_literal_sni:
  "parse_sni_names test_server_name ''1.1.1.1'' = Inl (SniIsIpLiteral ''1.1.1.1'')"
  "parse_sni_names test_server_name ''www.bing.com,8.8.8.8'' = Inl (SniIsIpLiteral ''8.8.8.8'')"
  by code_simp+

section \<open>\<^verbatim>\<open>codec/lru.rs\<close>, \<^verbatim>\<open>codec/handshake.rs\<close>\<close>

abbreviation test_lru :: "(bytes \<times> bytes, bytes \<times> bytes, unit, unit, (u128 \<times> nat) list) codec_lru" where
  "test_lru \<equiv> codec_lru_new list_moka 4 codec_dict_none 3 0 3600"

lemma lru_checkout_creates_fresh_pair:
  "(case checkout storing_zstd list_moka 8 test_lru of
      (Some (i, p), lru) \<Rightarrow> map_of (lru_cache lru) i = None | _ \<Rightarrow> False)"
  by code_simp

lemma lru_checkin_then_checkout_reuses:
  "(case checkout storing_zstd list_moka 8 test_lru of
      (Some (i, p), lru) \<Rightarrow>
        (let lru1 = checkin list_moka i p lru
         in map_of (lru_cache lru1) i = Some p \<and>
            (case checkout storing_zstd list_moka 9 lru1 of
               (Some (i2, _), lru2) \<Rightarrow> i2 = i \<and> map_of (lru_cache lru2) i = None
             | _ \<Rightarrow> False))
    | _ \<Rightarrow> False)"
  by code_simp

lemma lru_lookup_miss_creates_pair:
  "fst (lookup storing_zstd list_moka 42 test_lru) = Some (Miss 42 0)"
  "fst (lookup storing_zstd list_moka 0 test_lru) = Some (Miss 0 0)"
  by code_simp+

lemma lru_lookup_hit_returns_same_pair:
  "(case checkout storing_zstd list_moka 8 test_lru of
      (Some (i, p), lru) \<Rightarrow> fst (lookup storing_zstd list_moka i (checkin list_moka i p lru)) = Some (Hit i p)
    | _ \<Rightarrow> False)"
  by code_simp

lemma lru_errored_pair_returns_miss:
  "(case checkout storing_zstd list_moka 8 test_lru of
      (Some (i, p), lru) \<Rightarrow>
        (let lru1 = checkin list_moka i p (mark_errored p lru)
         in lru_len list_moka lru1 = 0 \<and>
            (case fst (lookup storing_zstd list_moka i lru1) of Some (Miss _ _) \<Rightarrow> True | _ \<Rightarrow> False))
    | _ \<Rightarrow> False)"
  by code_simp

lemma rand_id_never_zero: "rand_id clock thread \<noteq> 0"
  by (simp add: rand_id_def Let_def)

lemma pair_id_size_is_16_bytes: "PAIR_ID_SIZE = 16"
  by (simp add: PAIR_ID_SIZE_def)

section \<open>\<^verbatim>\<open>codec/http.rs\<close>\<close>

lemma find_header_end_basic:
  "find_header_end (as_bytes ''GET / HTTP/1.1'' @ [13, 10] @ as_bytes ''Host: x'' @ [13, 10, 13, 10] @
     as_bytes ''body'') = Some 27"
  "find_header_end (as_bytes ''no headers here'') = None"
  by code_simp+

section \<open>\<^verbatim>\<open>udp/udp_tunnel.rs\<close>\<close>

lemma resolve_udp_target_tests:
  "resolve_udp_target hosts (Addr (V4 0xCB007105 443)) = Inr (V4 0xCB007105 443)"
  "hosts ''localhost'' 5353 = Some [V6 1 5353 0 0, V4 0x7F000001 5353] \<Longrightarrow>
     resolve_udp_target hosts (Domain ''localhost'' 5353) = Inr (V4 0x7F000001 5353)"
  by (simp_all add: resolve_udp_target_def)

text \<open>The addresses of successive reservations.\<close>

fun reservations :: "bool list \<Rightarrow> reply_table \<Rightarrow> socket_addr option list" where
  "reservations [] t = []"
| "reservations (ipv6 # rest) t =
     (case reserve_channel_local_addr ipv6 0 t of (a, t') \<Rightarrow> a # reservations rest t')"

lemma reserve_step:
  obtains k where "\<And>ipv6 tx t. reserve_channel_local_addr ipv6 tx t = reserve_loop (Suc (Suc k)) ipv6 tx t"
  using that [of 65533] by (simp add: reserve_channel_local_addr_def)

lemma reserve_channel_local_addr_matches_upstream_address_family:
  "reservations [False, True, False] \<lparr>reply_map = Map.empty, next_local_port = 10000\<rparr> =
     [Some (V4 0 10000), Some (V6 0 10001 0 0), Some (V4 0 10002)]"
  by (rule reserve_step) (simp add: channel_local_addr_for_port_def Let_def)

lemma reserve_channel_local_addr_skips_zero_and_active_keys:
  "reservations [False] \<lparr>reply_map = [V4 0 10000 \<mapsto> 0], next_local_port = 10000\<rparr> = [Some (V4 0 10001)]"
  "reservations [False, False] \<lparr>reply_map = [V4 0 10000 \<mapsto> 0], next_local_port = 65535\<rparr> =
     [Some (V4 0 65535), Some (V4 0 1)]"
  by (rule reserve_step, simp add: channel_local_addr_for_port_def Let_def)+

end
