(* ===== verification/Spec2Isabelle.thy ===== *)
theory Spec2Isabelle
  imports Command_Line Client_Loop Tcp_Session Udp_Bridge Udp_Session Http_Split Android Float_Texts Unit_Tests
begin

text \<open>
  \<^bold>\<open>rstun\<close> tunnels TCP connections and UDP datagrams through QUIC. A client logs in to a
  server over a first QUIC stream, keeps that stream for heartbeats, and then both ends carry
  one QUIC stream per TCP connection or UDP flow: outbound tunnels listen at the client and
  connect at the server, inbound tunnels the other way round. TCP streams may be compressed.
  The library models the program under \<^verbatim>\<open>src/src\<close> as functions on explicit states
  and proves what its parts promise each other.

  \<^bold>\<open>Conventions.\<close> Release builds are modelled: unsigned arithmetic wraps, and
  \<^verbatim>\<open>usize\<close> has 64 bits. An error is a value of a sum type or \<open>None\<close>, one
  constructor per \<^verbatim>\<open>?\<close>, \<^verbatim>\<open>bail!\<close> or early return. A byte stream that is read
  is what has arrived and how it goes on (\<open>instream\<close>); a stream that is written collects its
  bytes and may fail after a budget (\<open>sink\<close>). A loop that waits for several things runs on
  the list of what happens, in order, so every interleaving is a list; a list that ends before
  the loop does leaves the loop waiting, which is a result of its own. Loops over data end by a
  termination proof, and no loop is cut off by a fuel bound. Code of other crates is an
  argument of the definitions, and what is relied on is a named predicate with an instance:
  \<open>bincode_laws\<close>, \<open>moka_laws\<close> (\<open>list_moka\<close>), \<open>zstd_laws\<close> (\<open>storing_zstd\<close>).

  \<^bold>\<open>Theories and sources.\<close>
  \<^item> \<^verbatim>\<open>Prelude\<close>, \<^verbatim>\<open>Rust_Std\<close>: words, byte order, streams, reachability; strings,
    integer parsers and addresses of the standard library. The locale \<open>wire_format\<close> gives
    unambiguous parsing of any self-delimiting format, \<open>invariant_system\<close> the invariants of
    reachable states.
  \<^item> \<^verbatim>\<open>Net_Types\<close> (\<^verbatim>\<open>lib.rs\<close>): tunnels, upstreams, destinations, sizes.
  \<^item> \<^verbatim>\<open>Stream_Util\<close> (\<^verbatim>\<open>util/stream_util.rs\<close>): destinations on the wire and the
    relay. Encoding and reading are inverse, and reading accepts nothing else; a relay
    direction delivers exactly what it reads, the two tasks of a stream never wait for each
    other, and a task that returns finishes its side of the QUIC stream (\<open>quic_half\<close>). The two directions are instances of the locale \<open>copy_direction\<close>.
  \<^item> \<^verbatim>\<open>Tunnel_Message\<close> (\<^verbatim>\<open>tunnel_message.rs\<close>): control messages and datagrams
    framed on a stream. Round trips, size limits, and the wrap-around of the datagram length.
  \<^item> \<^verbatim>\<open>Heartbeat\<close> (\<^verbatim>\<open>heartbeat.rs\<close>): the requesting and the answering loop,
    their termination, and that they stay in lockstep.
  \<^item> \<^verbatim>\<open>Event_Bus\<close> (\<^verbatim>\<open>tunnel_event_bus.rs\<close>): listeners and delivery.
  \<^item> \<^verbatim>\<open>Servers\<close> (\<^verbatim>\<open>tcp/tcp_server.rs\<close>, \<^verbatim>\<open>udp/udp_server.rs\<close>): local
    listeners with the receiver a tunnel takes and gives back (locale
    \<open>exclusive_receiver\<close>, interpreted for both). The accept loop reads its flags under the
    lock and sends after releasing it, so its phases are separate steps (\<open>tcp_server_step\<close>).
  \<^item> \<^verbatim>\<open>Config\<close> (\<^verbatim>\<open>lib.rs\<close>, \<^verbatim>\<open>bin/rstun.rs\<close>): parsing of mappings and names,
    defaults, transport settings.
  \<^item> \<^verbatim>\<open>Server\<close> (\<^verbatim>\<open>server.rs\<close>): login, the service that runs for a
    tunnel (\<open>start_service\<close>), the table of connections and sessions and its clean-up. Every
    login is granted or refused for a stated reason.
  \<^item> \<^verbatim>\<open>Pem\<close>, \<^verbatim>\<open>Server_Run\<close> (\<^verbatim>\<open>pem_util.rs\<close>, \<^verbatim>\<open>server.rs\<close>): certificates and
    keys, binding and the daily reload, the accept loop, the heartbeat responder, and
    the task of each connection, which takes the lock once for its connection and again for
    its session (\<open>server_run_step\<close>). Over every sequence of these steps only logins with the
    password are in the tables, the endpoint runs with a configuration that was loaded in
    full, and every session is in the table or has had its listener told to quit.
  \<^item> \<^verbatim>\<open>Tcp_Tunnel\<close>, \<^verbatim>\<open>Udp_Tunnel\<close> (\<^verbatim>\<open>tcp/tcp_tunnel.rs\<close>,
    \<^verbatim>\<open>udp/udp_tunnel.rs\<close>): serving and accepting sides, each with the codec settings
    it is called with. A serving loop that runs loses no request, both sides agree on the
    destination, and a flow delivers its datagrams in order.
  \<^item> \<^verbatim>\<open>Udp_Serving\<close>, \<^verbatim>\<open>Udp_Bridge\<close> (\<^verbatim>\<open>udp/udp_tunnel.rs\<close>): the serving loop
    interleaved with the tasks of its streams (\<open>serving_step\<close>), the accept loops, and the
    bridge of many streams to one channel (\<open>bridge_step\<close>). Flows do not mix, and a reply
    reaches only the stream whose address it carries.
  \<^item> \<^verbatim>\<open>Udp_Session\<close>: listener, serving loop, server and upstream of a UDP tunnel
    together, in both directions.
  \<^item> \<^verbatim>\<open>Codec_Http\<close> (\<^verbatim>\<open>codec/http.rs\<close>): cutting a stream into HTTP messages; every
    call returns, and no byte is lost.
  \<^item> \<^verbatim>\<open>Http_Split\<close> (\<^verbatim>\<open>codec/http.rs\<close>, \<^verbatim>\<open>codec/mod.rs\<close>): a reference that cuts a
    whole input into messages at once (\<open>split_messages\<close>), and that the encoder task in HTTP
    mode does the same in whatever pieces the input arrives.
  \<^item> \<^verbatim>\<open>Codec_Lru\<close> (\<^verbatim>\<open>codec/lru.rs\<close>): encoder and decoder pairs, their table, and
    the step relation \<open>table_step\<close> of all streams that use it at once. No pair is ever used
    by two streams, and the table refines an abstract pool of idle and busy pairs.
  \<^item> \<^verbatim>\<open>Codec_Handshake\<close> (\<^verbatim>\<open>codec/handshake.rs\<close>): the exchange of pair
    identifiers; two ends with mirrored tables always come out in step.
  \<^item> \<^verbatim>\<open>Codec_Stream\<close> (\<^verbatim>\<open>codec/mod.rs\<close>): encoder and decoder tasks, in plain and
    HTTP mode, and their statistics; a compressed stream delivers its input.
  \<^item> \<^verbatim>\<open>Client_Net\<close>, \<^verbatim>\<open>Client\<close> (\<^verbatim>\<open>client.rs\<close>): certificate verification,
    server names, address resolution, attempt timing; and the client's state, login, endpoint
    reuse, serving, statistics and stopping, with what the other tasks do before, during and
    after the moment the stop holds the lock (\<open>interference\<close>).
  \<^item> \<^verbatim>\<open>Client_Loop\<close> (\<^verbatim>\<open>client.rs\<close>, \<^verbatim>\<open>connect_and_serve\<close>): the loop of a
    tunnel, with the other tasks of the client as arbitrary changes of the state wherever the
    loop waits. A listener sees the states of a tunnel in order (\<open>may_follow\<close>), and the
    loop is over exactly when the client is stopping, leaving none of its own connections in
    the table.
  \<^item> \<^verbatim>\<open>Socket_Protector\<close>, \<^verbatim>\<open>Client_Tasks\<close> (\<^verbatim>\<open>socket_protector.rs\<close>,
    \<^verbatim>\<open>client.rs\<close>): the sockets of the endpoint and their migration, making and starting a
    client, its heartbeat task and the wait for the end of a connection. A migrated endpoint
    stays the same, in the same family and on accepted sockets.
  \<^item> \<^verbatim>\<open>Command_Line\<close> (\<^verbatim>\<open>bin/rstun.rs\<close>): both commands from arguments to end.
  \<^item> \<^verbatim>\<open>Log_Texts\<close> (\<^verbatim>\<open>Display\<close> implementations and log events): no text shows a
    password, and the text of a tunnel identifies it.
  \<^item> \<^verbatim>\<open>Float_Texts\<close> (\<^verbatim>\<open>lib.rs\<close>, \<^verbatim>\<open>codec/mod.rs\<close>, traffic lines of client and
    server): the summaries with their \<^verbatim>\<open>f64\<close> arithmetic, and how far what they show may be
    off.
  \<^item> \<^verbatim>\<open>Android\<close> (\<^verbatim>\<open>lib.rs\<close>, module \<^verbatim>\<open>android\<close>): the entry points for Java over the
    memory behind the pointers they hand out.
  \<^item> \<^verbatim>\<open>Unit_Tests\<close>: what the unit tests of the repository assert, on the model.

  \<^bold>\<open>Both ends together.\<close> \<^verbatim>\<open>Session\<close> runs the client's login against the server's over
  one stream: they agree about its outcome. \<^verbatim>\<open>Tcp_Session\<close> carries a TCP connection through
  serving loop, accepting side and the relays both ends start with their codec settings to
  its upstream; \<^verbatim>\<open>Udp_Session\<close> does so for
  the datagrams of any number of local programs. This theory joins handshake
  and codec tasks: two ends that run the whole of \<^verbatim>\<open>start_flowing_with_codec\<close> against each
  other deliver each other's input.

  \<^bold>\<open>Behaviour worth knowing,\<close> each shown by a theorem: a read error leaves plain bytes in a
  pair that the next stream delivers (\<open>read_error_leaks_into_next_stream\<close>); a missed pair
  keeps its old decoder (\<open>miss_resets_encoder_only\<close>); a flush interval below the stream
  timeout disables the timeout (\<open>basic_mode_never_times_out\<close>); a huge content length wraps
  and ends the stream (\<open>wrapped_length_ends_stream\<close>); a UDP tunnel may lose its receiver on
  reconnecting (\<open>udp_receiver_lost_on_reconnect\<close>); configured name servers are shadowed
  (\<open>configured_dns_shadowed\<close>); a stale UDP stream removes its successor
  (\<open>stale_stream_removes_successor\<close>); a target that cannot be encoded blocks a TCP tunnel
  (\<open>serving_stuck_on_bad_target\<close>); taking a receiver twice drops connections
  (\<open>second_take_drops_connections\<close>); a client that disables its heartbeat is disconnected
  (\<open>disabled_heartbeat_disconnects\<close>); the server never compresses, so a client that does
  sends pair identifiers to the upstream (\<open>compressing_client_plain_server\<close>); a login whose
  answer is lost leaves its listener bound (\<open>failed_login_leaks_listener\<close>); a default UDP
  upstream overrides the requested destination (\<open>dynamic_udp_ignores_target\<close>); whether a
  long HTTP header is refused depends on the pieces in which it arrives
  (\<open>header_limit_depends_on_pieces\<close>); a client made through the Android interface cannot be
  used without undefined behaviour (\<open>android_handles_unusable\<close>); a connection that closes
  while a stream is being opened loses the request in hand (\<open>cancelled_request_lost\<close>); an
  error in reading the local connection reaches the upstream as an ordinary end
  (\<open>tcp_stream_end_to_end\<close>).

  \<^bold>\<open>Not modelled:\<close> the inside of other crates: QUIC, TLS, tokio's scheduler, zstd, the
  serialisers, clap and the DNS resolver are arguments given by their results. The Android
  interface calls \<^verbatim>\<open>ClientConfig::create\<close> with fewer arguments than it has and does not
  compile, so the result of that call is an argument; its set-up in the Java runtime and the
  thread that passes events on are left out. The remaining log lines, \<^verbatim>\<open>to_json\<close> and the
  buffer pool have no effect on the state that is modelled. Time appears only where a decision
  depends on it.
\<close>

section \<open>A compressed stream from end to end\<close>

text \<open>
  A flow is complete when both of its tasks ended cleanly, \<open>wire\<close> is what it sent on the
  QUIC stream and \<open>plain\<close> what it wrote to the local stream, and both were finished.
\<close>

definition complete_run :: "codec_run \<Rightarrow> bytes \<Rightarrow> bytes \<Rightarrow> bool" where
  "complete_run run wire plain \<longleftrightarrow>
     cr_s2q run = Some (Inr CleanEof) \<and> cr_q2s run = Some (Inr CleanEof) \<and>
     written (cr_quic_send run) = wire \<and> finished (cr_quic_send run) \<and>
     written (cr_stream_write run) = plain \<and> finished (cr_stream_write run)"

lemma flow_completes:
  assumes "cc_enabled cfg" and "\<not> cc_http_aware cfg" and "fst (config_lru M cfg) = lru"
    and "exchange_pair_id Z M rid open_sink quic_recv lru = (Inr h, k, s, lru')"
    and "run_encoder_basic Z enc_evs
        \<lparr>et_enc = enc_at lru' (hs_s2q_pair h), et_out = k, et_raw = 0, et_compressed = 0\<rparr> =
      (Some (Inr CleanEof), t)"
    and "run_decoder Z dec_evs (new_dec_task (dec_at lru' (hs_q2s_pair h))) = (Some (Inr CleanEof), u)"
    and "finished (dt_out u)"
  shows "\<exists>run cfg'. start_flowing_with_codec Z M hp rid (Some peer) open_sink quic_recv open_sink
       enc_evs dec_evs s2q_first cfg = (Flowed run, cfg') \<and>
     complete_run run (written (et_out t)) (written (dt_out u))"
proof -
  obtain run lru2 where tasks: "codec_tasks Z M hp False h enc_evs dec_evs s2q_first k open_sink lru' =
      (run, lru2)" by fastforce
  have "complete_run run (written (et_out t)) (written (dt_out u))"
    using tasks assms(5-7) by (auto simp: codec_tasks_def run_encoder_def complete_run_def Let_def)
  moreover obtain cfg1 where "config_lru M cfg = (lru, cfg1)" using assms(3) by (cases "config_lru M cfg") simp
  ultimately show ?thesis using assms(1,2,4) tasks by (simp add: start_flowing_with_codec_def)
qed

text \<open>The bytes of a handshake, and what an encoder sends after \<open>hs\<close> for a decoder to read.\<close>

abbreviation hello :: "handshake_result \<Rightarrow> bytes" where
  "hello h \<equiv> to_be_bytes (hs_s2q_id h) @ to_be_bytes (hs_q2s_ack h)"

definition carries :: "('e, 'd, 'ed, 'dd) zstd_lib \<Rightarrow> 'e \<Rightarrow> 'd \<Rightarrow> bytes \<Rightarrow> enc_event list \<Rightarrow> bytes \<Rightarrow> bool" where
  "carries Z e d hs evs w \<longleftrightarrow>
     (\<exists>t. run_encoder_basic Z (evs @ [ReadEv Eof])
          \<lparr>et_enc = e, et_out = open_sink\<lparr>written := hs\<rparr>, et_raw = 0, et_compressed = 0\<rparr> =
        (Some (Inr CleanEof), t) \<and> written (et_out t) = hs @ w) \<and>
     (\<forall>chunks. concat chunks = w \<longrightarrow> [] \<notin> set chunks \<longrightarrow>
       (\<exists>u. run_decoder Z (map Data chunks @ [Eof]) (new_dec_task d) = (Some (Inr CleanEof), u) \<and>
          written (dt_out u) = enc_input evs \<and> finished (dt_out u)))"

lemma carries_exists:
  assumes "zstd_laws Z sync drained" "sync e d [] []" "list_all goes_on evs"
  obtains w where "carries Z e d hs evs w"
  using encoder_to_decoder [OF assms, of hs] unfolding carries_def by blast

lemma flow_carries:
  assumes "cc_enabled cfg" "\<not> cc_http_aware cfg" "fst (config_lru M cfg) = lru"
    and "exchange_pair_id Z M rid open_sink
        \<lparr>avail = to_be_bytes (hs_s2q_id g) @ to_be_bytes (hs_q2s_ack g) @ [], tail_of = Closed\<rparr> lru =
      (Inr h, open_sink\<lparr>written := hello h\<rparr>, s, lru')"
    and "carries Z (enc_at lru' (hs_s2q_pair h)) d' (hello h) evs w"
    and "carries Z e' (dec_at lru' (hs_q2s_pair h)) hs' evs' w'"
    and "concat chunks = w'" "[] \<notin> set chunks"
  shows "\<exists>run cfg'. start_flowing_with_codec Z M hp rid (Some peer) open_sink
      \<lparr>avail = hello g @ w', tail_of = Closed\<rparr> open_sink
      (evs @ [ReadEv Eof]) (map Data chunks @ [Eof]) first cfg = (Flowed run, cfg') \<and>
    complete_run run (hello h @ w) (enc_input evs')"
proof -
  obtain t where t: "run_encoder_basic Z (evs @ [ReadEv Eof]) \<lparr>et_enc = enc_at lru' (hs_s2q_pair h),
      et_out = open_sink\<lparr>written := hello h\<rparr>, et_raw = 0, et_compressed = 0\<rparr> = (Some (Inr CleanEof), t)"
    "written (et_out t) = hello h @ w" using assms(5) by (auto simp: carries_def)
  obtain u where u: "run_decoder Z (map Data chunks @ [Eof]) (new_dec_task (dec_at lru' (hs_q2s_pair h))) =
      (Some (Inr CleanEof), u)" "written (dt_out u) = enc_input evs'" "finished (dt_out u)"
    using assms(6-8) by (auto simp: carries_def)
  show ?thesis
    using flow_completes [OF assms(1-3) exchange_rest [OF assms(4)] t(1) u(1,3), where hp = hp and peer = peer and s2q_first = first]
      t(2) u(2) by simp
qed

text \<open>
  C9. Two ends that open a compressed stream deliver each other's input. With tables at rest
  that mirror each other, compatible settings and identifiers unknown to the peer, whatever
  each end reads and whenever it flushes, there are bytes for both directions (a handshake of
  32 bytes and a compressed body) such that, however the network cuts the bodies, each end
  run on the bytes of the other completes, has sent exactly its own bytes, and has written
  the other's input to its local stream.
\<close>

theorem compressed_stream_end_to_end:
  assumes "moka_laws M \<alpha>" and "zstd_laws Z sync drained"
    and "cc_enabled ca" and "cc_enabled cb" and "\<not> cc_http_aware ca" and "\<not> cc_http_aware cb"
    and "fst (config_lru M ca) = A" and "fst (config_lru M cb) = B"
    and "at_rest \<alpha> A" and "at_rest \<alpha> B"
    and "compatible Z (\<lambda>e d. sync e d [] []) A B" and "mirrored (\<lambda>e d. sync e d [] []) \<alpha> A B"
    and "ra \<noteq> 0" and "rb \<noteq> 0" and "\<alpha> (lru_cache B) ra = None" and "\<alpha> (lru_cache A) rb = None"
    and "list_all goes_on evsA" and "list_all goes_on evsB"
  shows "\<exists>hsA bodyA hsB bodyB. length hsA = 32 \<and> length hsB = 32 \<and>
    (\<forall>chunksA chunksB. concat chunksA = bodyA \<longrightarrow> [] \<notin> set chunksA \<longrightarrow>
       concat chunksB = bodyB \<longrightarrow> [] \<notin> set chunksB \<longrightarrow>
       (\<exists>runA ca' runB cb'.
          start_flowing_with_codec Z M hp ra (Some pa) open_sink
            \<lparr>avail = hsB @ bodyB, tail_of = Closed\<rparr> open_sink
            (evsA @ [ReadEv Eof]) (map Data chunksB @ [Eof]) fa ca = (Flowed runA, ca') \<and>
          complete_run runA (hsA @ bodyA) (enc_input evsB) \<and>
          start_flowing_with_codec Z M hp rb (Some pb) open_sink
            \<lparr>avail = hsA @ bodyA, tail_of = Closed\<rparr> open_sink
            (evsB @ [ReadEv Eof]) (map Data chunksA @ [Eof]) fb cb = (Flowed runB, cb') \<and>
          complete_run runB (hsB @ bodyB) (enc_input evsA)))"
proof -
  from handshake_runs [OF assms(1,9-16), of "[]" Closed "[]" Closed] obtain hA hB A' B' where
    hs: "exchange_pair_id Z M ra open_sink
       \<lparr>avail = to_be_bytes (hs_s2q_id hB) @ to_be_bytes (hs_q2s_ack hB) @ [], tail_of = Closed\<rparr> A =
     (Inr hA, open_sink\<lparr>written := hello hA\<rparr>, \<lparr>avail = [], tail_of = Closed\<rparr>, A')"
     "exchange_pair_id Z M rb open_sink
       \<lparr>avail = to_be_bytes (hs_s2q_id hA) @ to_be_bytes (hs_q2s_ack hA) @ [], tail_of = Closed\<rparr> B =
     (Inr hB, open_sink\<lparr>written := hello hB\<rparr>, \<lparr>avail = [], tail_of = Closed\<rparr>, B')"
     and sA: "sync (enc_at A' (hs_s2q_pair hA)) (dec_at B' (hs_q2s_pair hB)) [] []"
     and sB: "sync (enc_at B' (hs_s2q_pair hB)) (dec_at A' (hs_q2s_pair hA)) [] []"
    by (elim exE conjE) (rule that)
  from carries_exists [OF assms(2) sA assms(17)] obtain wA where
    cA: "carries Z (enc_at A' (hs_s2q_pair hA)) (dec_at B' (hs_q2s_pair hB)) (hello hA) evsA wA" .
  from carries_exists [OF assms(2) sB assms(18)] obtain wB where
    cB: "carries Z (enc_at B' (hs_s2q_pair hB)) (dec_at A' (hs_q2s_pair hA)) (hello hB) evsB wB" .
  show ?thesis
  proof (rule exI [of _ "hello hA"], rule exI [of _ wA], rule exI [of _ "hello hB"], rule exI [of _ wB],
      intro conjI allI impI)
    fix chunksA chunksB
    assume c: "concat chunksA = wA" "[] \<notin> set chunksA" "concat chunksB = wB" "[] \<notin> set chunksB"
    from flow_carries [OF assms(3,5,7) hs(1) cA cB c(3,4), where hp = hp and peer = pa and first = fa]
      flow_carries [OF assms(4,6,8) hs(2) cB cA c(1,2), where hp = hp and peer = pb and first = fb]
    show "\<exists>runA ca' runB cb'.
          start_flowing_with_codec Z M hp ra (Some pa) open_sink
            \<lparr>avail = hello hB @ wB, tail_of = Closed\<rparr> open_sink
            (evsA @ [ReadEv Eof]) (map Data chunksB @ [Eof]) fa ca = (Flowed runA, ca') \<and>
          complete_run runA (hello hA @ wA) (enc_input evsB) \<and>
          start_flowing_with_codec Z M hp rb (Some pb) open_sink
            \<lparr>avail = hello hA @ wA, tail_of = Closed\<rparr> open_sink
            (evsB @ [ReadEv Eof]) (map Data chunksA @ [Eof]) fb cb = (Flowed runB, cb') \<and>
          complete_run runB (hello hB @ wB) (enc_input evsA)" by iprover
  qed simp_all
qed

definition meeting_config ::
    "(bytes \<times> bytes, bytes \<times> bytes, unit, unit, (u128 \<times> nat) list) codec_config" where
  "meeting_config = (codec_config_new True False 9 24 600 150)\<lparr>cc_lru := Some rest_lru\<rparr>"

theorem compressed_stream_end_to_end_witness:
  "\<exists>hsA bodyA hsB bodyB runA ca' runB cb'.
     start_flowing_with_codec storing_zstd list_moka sample_parser 8 (Some (socket_addr_with_unspecified_ip_port False))
       open_sink \<lparr>avail = hsB @ bodyB, tail_of = Closed\<rparr> open_sink
       ([ReadEv (Data [1]), FlushTick, ReadEv (Data [2, 3])] @ [ReadEv Eof])
       (map Data (map (\<lambda>b. [b]) bodyB) @ [Eof]) True meeting_config = (Flowed runA, ca') \<and>
     complete_run runA (hsA @ bodyA) [9] \<and>
     start_flowing_with_codec storing_zstd list_moka sample_parser 9 (Some (socket_addr_with_unspecified_ip_port False))
       open_sink \<lparr>avail = hsA @ bodyA, tail_of = Closed\<rparr> open_sink
       ([ReadEv (Data [9])] @ [ReadEv Eof])
       (map Data (map (\<lambda>b. [b]) bodyA) @ [Eof]) False meeting_config = (Flowed runB, cb') \<and>
     complete_run runB (hsB @ bodyB) [1, 2, 3]"
proof -
  let ?S = "\<lambda>e d. stored_sync e d [] []"
  have cfg: "cc_enabled meeting_config" "\<not> cc_http_aware meeting_config"
    "fst (config_lru list_moka meeting_config) = rest_lru"
    by (simp_all add: meeting_config_def codec_config_new_def config_lru_def)
  have comp: "compatible storing_zstd ?S rest_lru rest_lru"
    using rest_lru_made by (simp add: compatible_def makes_pairs_def stored_sync_def)
  have mir: "mirrored ?S map_of rest_lru rest_lru"
    by (auto simp: mirrored_def rest_lru_def stored_sync_def split: if_splits)
  have ids: "(8 :: u128) \<noteq> 0" "(9 :: u128) \<noteq> 0" "map_of (lru_cache rest_lru) 8 = None"
    "map_of (lru_cache rest_lru) 9 = None" by (simp_all add: rest_lru_def)
  have evs: "list_all goes_on [ReadEv (Data [1]), FlushTick, ReadEv (Data [2, 3])]"
    "list_all goes_on [ReadEv (Data [9])]" by simp_all
  have single: "concat (map (\<lambda>b. [b]) bs) = bs" "[] \<notin> set (map (\<lambda>b. [b]) bs)" for bs :: bytes
    by (simp_all add: concat_map_singleton image_iff)
  let ?peer = "socket_addr_with_unspecified_ip_port False"
  note run = compressed_stream_end_to_end [OF list_moka_laws storing_zstd_laws cfg(1) cfg(1) cfg(2) cfg(2)
      cfg(3) cfg(3) rest_lru_at_rest rest_lru_at_rest comp mir ids evs, of sample_parser ?peer True ?peer False]
  from run show ?thesis
    by (elim exE conjE) (drule spec, drule spec, drule mp, rule single(1), drule mp, rule single(2),
      drule mp, rule single(1), drule mp, rule single(2), simp, iprover)
qed

end
